(* ===== verification/CoPrelude.thy ===== *)
theory CoPrelude
  imports Main
begin

text \<open>
  Shared vocabulary of the development: the ways a call of the library can go wrong
  (\<open>fault\<close>), sequencing of fallible statements (\<open>bnd\<close>), counted \<open>for\<close> loops over fallible
  bodies (\<open>foldE\<close>), and the generic lemmas on them that the component theories use.
\<close>

section \<open>Faults\<close>

text \<open>
  What stops a C function from returning a value: dereferencing NULL, dereferencing a block that
  was freed (or never allocated), indexing an array outside its bounds, overflow of a signed
  integer, a call of \<open>exit\<close>, and a loop that never ends.
\<close>

datatype fault =
    NullDeref
  | Dangling
  | OutOfBounds
  | SignedOverflow
  | Exit int
  | Hang

named_theorems fault_simps \<open>evaluation of fallible primitives\<close>
named_theorems frame_simps \<open>fields an operation leaves alone\<close>
named_theorems wf_intros \<open>operations that keep the well-formedness invariant\<close>

section \<open>Sequencing\<close>

text \<open>\<open>bnd m f\<close> runs \<open>m\<close> and, unless it faults, continues with \<open>f\<close>.\<close>

fun bnd :: "fault + 'a \<Rightarrow> ('a \<Rightarrow> fault + 'b) \<Rightarrow> fault + 'b" where
  "bnd (Inl e) f = Inl e"
| "bnd (Inr x) f = f x"

lemma bnd_eq_Inr: "bnd m f = Inr y \<longleftrightarrow> (\<exists>x. m = Inr x \<and> f x = Inr y)"
  by (cases m) auto

lemma bnd_eq_Inl: "bnd m f = Inl e \<longleftrightarrow> m = Inl e \<or> (\<exists>x. m = Inr x \<and> f x = Inl e)"
  by (cases m) auto

lemma bnd_InrE:
  assumes "bnd m f = Inr y"
  obtains x where "m = Inr x" and "f x = Inr y"
  using assms by (cases m) auto

lemma bnd_pairE:
  assumes "bnd m (\<lambda>(a, b). f a b) = Inr y"
  obtains a b where "m = Inr (a, b)" and "f a b = Inr y"
  using assms by (cases m) auto

lemma bnd_tripleE:
  assumes "bnd m (\<lambda>(a, b, c). f a b c) = Inr y"
  obtains a b c where "m = Inr (a, b, c)" and "f a b c = Inr y"
  using assms by (cases m) auto

lemma bnd_assoc: "bnd (bnd m f) g = bnd m (\<lambda>x. bnd (f x) g)"
  by (cases m) auto

lemma bnd_return [simp]: "bnd m Inr = m"
  by (cases m) auto

lemma bnd_cong [fundef_cong]:
  "m = m' \<Longrightarrow> (\<And>x. m' = Inr x \<Longrightarrow> f x = g x) \<Longrightarrow> bnd m f = bnd m' g"
  by (cases m') auto

lemma bnd_if: "bnd (if c then m else m') f = (if c then bnd m f else bnd m' f)"
  by simp

section \<open>Counted loops\<close>

text \<open>
  \<open>foldE f xs s\<close> is the loop that runs the body \<open>f x\<close> on the state for each \<open>x\<close> of \<open>xs\<close>
  in order and stops at the first fault: \<open>for (i = 0; i < n; ++i) f(i)\<close> is
  \<open>foldE f [0..<n]\<close>.
\<close>

fun foldE :: "('b \<Rightarrow> 's \<Rightarrow> fault + 's) \<Rightarrow> 'b list \<Rightarrow> 's \<Rightarrow> fault + 's" where
  "foldE f [] s = Inr s"
| "foldE f (x # xs) s = bnd (f x s) (foldE f xs)"

lemma foldE_append: "foldE f (xs @ ys) s = bnd (foldE f xs s) (foldE f ys)"
proof (induction xs arbitrary: s)
  case (Cons x xs)
  then show ?case by (cases "f x s") auto
qed simp

lemma foldE_invariant:
  assumes "foldE f xs s = Inr s'" and "P s"
    and "\<And>x s s'. x \<in> set xs \<Longrightarrow> P s \<Longrightarrow> f x s = Inr s' \<Longrightarrow> P s'"
  shows "P s'"
  using assms by (induction xs arbitrary: s) (auto elim!: bnd_InrE)

lemma foldE_total:
  assumes "P s" and "\<And>x s. x \<in> set xs \<Longrightarrow> P s \<Longrightarrow> \<exists>s'. f x s = Inr s' \<and> P s'"
  shows "\<exists>s'. foldE f xs s = Inr s' \<and> P s'"
  using assms
proof (induction xs arbitrary: s)
  case Nil
  then show ?case by simp
next
  case (Cons x xs)
  from Cons.prems(1) Cons.prems(2) [of x s] obtain s1 where s1: "f x s = Inr s1" "P s1" by auto
  with Cons.IH [of s1] Cons.prems(2) show ?case by auto
qed

lemma foldE_id:
  assumes "\<And>x. x \<in> set xs \<Longrightarrow> f x s = Inr s"
  shows "foldE f xs s = Inr s"
  using assms by (induction xs) auto

section \<open>Lists\<close>

text \<open>The pointer to the first element of a list, with a given pointer after its end.\<close>

definition hd_or :: "'a list \<Rightarrow> 'a option \<Rightarrow> 'a option" where
  "hd_or xs n = (case xs of [] \<Rightarrow> n | x # _ \<Rightarrow> Some x)"

lemma hd_or_Nil [simp]: "hd_or [] n = n"
  by (simp add: hd_or_def)

lemma hd_or_Cons [simp]: "hd_or (x # xs) n = Some x"
  by (simp add: hd_or_def)

lemma hd_or_append [simp]: "hd_or (xs @ ys) n = hd_or xs (hd_or ys n)"
  by (cases xs) auto

lemma hd_or_eq_None [simp]: "hd_or xs None = None \<longleftrightarrow> xs = []"
  by (cases xs) auto

lemma hd_or_SomeD: "hd_or xs None = Some x \<Longrightarrow> \<exists>ys. xs = x # ys"
  by (cases xs) auto

section \<open>Arithmetic\<close>

lemma mod_minus_once:
  fixes x m :: int
  assumes "m \<le> x" and "x < 2 * m"
  shows "x mod m = x - m"
proof -
  have "x mod m = (x - m) mod m" by (simp only: minus_mod_self2)
  also have "\<dots> = x - m" using assms by (intro mod_pos_pos_trivial) simp_all
  finally show ?thesis .
qed

end
