(* ===== verification/Tailq.thy ===== *)
theory Tailq
  imports CoPrelude
begin

text \<open>
  The tail queue of \<open>include/queue.h\<close> at the level of its pointers. A queue head holds a pointer to
  the first element and the address of the last \<open>next\<close> cell; an element holds a pointer to the
  next element and the address of the cell that points to it. The macros are translated statement
  by statement over a split heap of heads and link entries, with every dereference checked. The
  predicate \<open>tq_rep\<close> relates a head to the list of its elements, and each macro is shown to
  refine the list operation it stands for.
\<close>

section \<open>Memory\<close>

text \<open>
  A cell of type \<open>struct type *\<close> is either the \<open>tqh_first\<close> field of a head or the
  \<open>tqe_next\<close> field of an element: the values of type \<open>struct type **\<close> are such cells or NULL.
\<close>

datatype ('h, 'e) slot = HeadFirst 'h | ElemNext 'e

record ('h, 'e) tq_head =
  tqh_first :: "'e option"
  tqh_last :: "('h, 'e) slot option"

record ('h, 'e) tq_entry =
  tqe_next :: "'e option"
  tqe_prev :: "('h, 'e) slot option"

text \<open>Heads and link entries by their address; \<open>None\<close> is memory that is not allocated.\<close>

record ('h, 'e) tq_mem =
  tq_heads :: "'h \<Rightarrow> ('h, 'e) tq_head option"
  tq_elems :: "'e \<Rightarrow> ('h, 'e) tq_entry option"

definition get_head :: "'h \<Rightarrow> ('h, 'e) tq_mem \<Rightarrow> fault + ('h, 'e) tq_head" where
  "get_head h m = (case tq_heads m h of None \<Rightarrow> Inl OutOfBounds | Some H \<Rightarrow> Inr H)"

definition put_head :: "'h \<Rightarrow> ('h, 'e) tq_head \<Rightarrow> ('h, 'e) tq_mem \<Rightarrow> ('h, 'e) tq_mem" where
  "put_head h H m = m\<lparr>tq_heads := (tq_heads m)(h \<mapsto> H)\<rparr>"

definition get_elem :: "'e option \<Rightarrow> ('h, 'e) tq_mem \<Rightarrow> fault + ('e \<times> ('h, 'e) tq_entry)" where
  "get_elem p m =
     (case p of
        None \<Rightarrow> Inl NullDeref
      | Some e \<Rightarrow> (case tq_elems m e of None \<Rightarrow> Inl Dangling | Some en \<Rightarrow> Inr (e, en)))"

definition put_elem :: "'e \<Rightarrow> ('h, 'e) tq_entry \<Rightarrow> ('h, 'e) tq_mem \<Rightarrow> ('h, 'e) tq_mem" where
  "put_elem e en m = m\<lparr>tq_elems := (tq_elems m)(e \<mapsto> en)\<rparr>"

definition get_first :: "'h \<Rightarrow> ('h, 'e) tq_mem \<Rightarrow> fault + 'e option" where
  "get_first h m = bnd (get_head h m) (\<lambda>H. Inr (tqh_first H))"

definition set_first :: "'h \<Rightarrow> 'e option \<Rightarrow> ('h, 'e) tq_mem \<Rightarrow> fault + ('h, 'e) tq_mem" where
  "set_first h v m = bnd (get_head h m) (\<lambda>H. Inr (put_head h (H\<lparr>tqh_first := v\<rparr>) m))"

definition get_last :: "'h \<Rightarrow> ('h, 'e) tq_mem \<Rightarrow> fault + ('h, 'e) slot option" where
  "get_last h m = bnd (get_head h m) (\<lambda>H. Inr (tqh_last H))"

definition set_last ::
  "'h \<Rightarrow> ('h, 'e) slot option \<Rightarrow> ('h, 'e) tq_mem \<Rightarrow> fault + ('h, 'e) tq_mem" where
  "set_last h v m = bnd (get_head h m) (\<lambda>H. Inr (put_head h (H\<lparr>tqh_last := v\<rparr>) m))"

definition get_next :: "'e option \<Rightarrow> ('h, 'e) tq_mem \<Rightarrow> fault + 'e option" where
  "get_next p m = bnd (get_elem p m) (\<lambda>(e, en). Inr (tqe_next en))"

definition set_next ::
  "'e option \<Rightarrow> 'e option \<Rightarrow> ('h, 'e) tq_mem \<Rightarrow> fault + ('h, 'e) tq_mem" where
  "set_next p v m = bnd (get_elem p m) (\<lambda>(e, en). Inr (put_elem e (en\<lparr>tqe_next := v\<rparr>) m))"

definition get_prev :: "'e option \<Rightarrow> ('h, 'e) tq_mem \<Rightarrow> fault + ('h, 'e) slot option" where
  "get_prev p m = bnd (get_elem p m) (\<lambda>(e, en). Inr (tqe_prev en))"

definition set_prev ::
  "'e option \<Rightarrow> ('h, 'e) slot option \<Rightarrow> ('h, 'e) tq_mem \<Rightarrow> fault + ('h, 'e) tq_mem" where
  "set_prev p v m = bnd (get_elem p m) (\<lambda>(e, en). Inr (put_elem e (en\<lparr>tqe_prev := v\<rparr>) m))"

text \<open>Reading and writing through a \<open>struct type **\<close>.\<close>

definition rd_slot :: "('h, 'e) slot option \<Rightarrow> ('h, 'e) tq_mem \<Rightarrow> fault + 'e option" where
  "rd_slot sl m =
     (case sl of
        None \<Rightarrow> Inl NullDeref
      | Some (HeadFirst h) \<Rightarrow> get_first h m
      | Some (ElemNext e) \<Rightarrow> get_next (Some e) m)"

definition wr_slot ::
  "('h, 'e) slot option \<Rightarrow> 'e option \<Rightarrow> ('h, 'e) tq_mem \<Rightarrow> fault + ('h, 'e) tq_mem" where
  "wr_slot sl v m =
     (case sl of
        None \<Rightarrow> Inl NullDeref
      | Some (HeadFirst h) \<Rightarrow> set_first h v m
      | Some (ElemNext e) \<Rightarrow> set_next (Some e) v m)"

text \<open>
  \<open>((struct headname *)p)->tqh_last\<close> for a cell address \<open>p\<close>: a head and a link entry have the
  same layout (a pointer followed by the address of a pointer), so the cast reads the
  \<open>tqh_last\<close> of a head and the \<open>tqe_prev\<close> of an element.
\<close>

definition cast_last ::
  "('h, 'e) slot option \<Rightarrow> ('h, 'e) tq_mem \<Rightarrow> fault + ('h, 'e) slot option" where
  "cast_last sl m =
     (case sl of
        None \<Rightarrow> Inl NullDeref
      | Some (HeadFirst h) \<Rightarrow> get_last h m
      | Some (ElemNext e) \<Rightarrow> get_prev (Some e) m)"

section \<open>The macros\<close>

definition TAILQ_FIRST :: "'h \<Rightarrow> ('h, 'e) tq_mem \<Rightarrow> fault + 'e option" where
  "TAILQ_FIRST h m = get_first h m"

definition TAILQ_END :: "'e option" where
  "TAILQ_END = None"

definition TAILQ_NEXT :: "'e option \<Rightarrow> ('h, 'e) tq_mem \<Rightarrow> fault + 'e option" where
  "TAILQ_NEXT elm m = get_next elm m"

definition TAILQ_LAST :: "'h \<Rightarrow> ('h, 'e) tq_mem \<Rightarrow> fault + 'e option" where
  "TAILQ_LAST h m =
     bnd (get_last h m) (\<lambda>l.
     bnd (cast_last l m) (\<lambda>p.
     rd_slot p m))"

definition TAILQ_PREV :: "'e option \<Rightarrow> ('h, 'e) tq_mem \<Rightarrow> fault + 'e option" where
  "TAILQ_PREV elm m =
     bnd (get_prev elm m) (\<lambda>l.
     bnd (cast_last l m) (\<lambda>p.
     rd_slot p m))"

definition TAILQ_EMPTY :: "'h \<Rightarrow> ('h, 'e) tq_mem \<Rightarrow> fault + bool" where
  "TAILQ_EMPTY h m = bnd (TAILQ_FIRST h m) (\<lambda>p. Inr (p = TAILQ_END))"

definition TAILQ_INIT :: "'h \<Rightarrow> ('h, 'e) tq_mem \<Rightarrow> fault + ('h, 'e) tq_mem" where
  "TAILQ_INIT h m =
     bnd (set_first h None m) (\<lambda>m.
     set_last h (Some (HeadFirst h)) m)"

definition TAILQ_HEAD_INITIALIZER :: "'h \<Rightarrow> ('h, 'e) tq_head" where
  "TAILQ_HEAD_INITIALIZER h = \<lparr>tqh_first = None, tqh_last = Some (HeadFirst h)\<rparr>"

definition TAILQ_INSERT_HEAD ::
  "'h \<Rightarrow> 'e option \<Rightarrow> ('h, 'e) tq_mem \<Rightarrow> fault + ('h, 'e) tq_mem" where
  "TAILQ_INSERT_HEAD h elm m =
     bnd (get_first h m) (\<lambda>f.
     bnd (set_next elm f m) (\<lambda>m.
     bnd (if f \<noteq> None
          then bnd (get_first h m) (\<lambda>f. set_prev f (map_option ElemNext elm) m)
          else set_last h (map_option ElemNext elm) m) (\<lambda>m.
     bnd (set_first h elm m) (\<lambda>m.
     set_prev elm (Some (HeadFirst h)) m))))"

definition TAILQ_INSERT_TAIL ::
  "'h \<Rightarrow> 'e option \<Rightarrow> ('h, 'e) tq_mem \<Rightarrow> fault + ('h, 'e) tq_mem" where
  "TAILQ_INSERT_TAIL h elm m =
     bnd (set_next elm None m) (\<lambda>m.
     bnd (get_last h m) (\<lambda>l.
     bnd (set_prev elm l m) (\<lambda>m.
     bnd (get_last h m) (\<lambda>l.
     bnd (wr_slot l elm m) (\<lambda>m.
     set_last h (map_option ElemNext elm) m)))))"

definition TAILQ_INSERT_AFTER ::
  "'h \<Rightarrow> 'e option \<Rightarrow> 'e option \<Rightarrow> ('h, 'e) tq_mem \<Rightarrow> fault + ('h, 'e) tq_mem" where
  "TAILQ_INSERT_AFTER h listelm elm m =
     bnd (get_next listelm m) (\<lambda>n.
     bnd (set_next elm n m) (\<lambda>m.
     bnd (if n \<noteq> None
          then bnd (get_next elm m) (\<lambda>n. set_prev n (map_option ElemNext elm) m)
          else set_last h (map_option ElemNext elm) m) (\<lambda>m.
     bnd (set_next listelm elm m) (\<lambda>m.
     set_prev elm (map_option ElemNext listelm) m))))"

definition TAILQ_INSERT_BEFORE ::
  "'e option \<Rightarrow> 'e option \<Rightarrow> ('h, 'e) tq_mem \<Rightarrow> fault + ('h, 'e) tq_mem" where
  "TAILQ_INSERT_BEFORE listelm elm m =
     bnd (get_prev listelm m) (\<lambda>p.
     bnd (set_prev elm p m) (\<lambda>m.
     bnd (set_next elm listelm m) (\<lambda>m.
     bnd (get_prev listelm m) (\<lambda>p.
     bnd (wr_slot p elm m) (\<lambda>m.
     set_prev listelm (map_option ElemNext elm) m)))))"

definition TAILQ_REMOVE ::
  "'h \<Rightarrow> 'e option \<Rightarrow> ('h, 'e) tq_mem \<Rightarrow> fault + ('h, 'e) tq_mem" where
  "TAILQ_REMOVE h elm m =
     bnd (get_next elm m) (\<lambda>n.
     bnd (if n \<noteq> None
          then bnd (get_prev elm m) (\<lambda>p. set_prev n p m)
          else bnd (get_prev elm m) (\<lambda>p. set_last h p m)) (\<lambda>m.
     bnd (get_prev elm m) (\<lambda>p.
     bnd (get_next elm m) (\<lambda>n.
     wr_slot p n m))))"

definition TAILQ_REPLACE ::
  "'h \<Rightarrow> 'e option \<Rightarrow> 'e option \<Rightarrow> ('h, 'e) tq_mem \<Rightarrow> fault + ('h, 'e) tq_mem" where
  "TAILQ_REPLACE h elm elm2 m =
     bnd (get_next elm m) (\<lambda>n.
     bnd (set_next elm2 n m) (\<lambda>m.
     bnd (if n \<noteq> None
          then bnd (get_next elm2 m) (\<lambda>n. set_prev n (map_option ElemNext elm2) m)
          else set_last h (map_option ElemNext elm2) m) (\<lambda>m.
     bnd (get_prev elm m) (\<lambda>p.
     bnd (set_prev elm2 p m) (\<lambda>m.
     bnd (get_prev elm2 m) (\<lambda>p.
     wr_slot p elm2 m))))))"

text \<open>
  The traversal macros with a body that leaves the links alone: the elements the loop variable
  takes, in order. A ring of links makes the loop run forever (\<open>Hang\<close>).
\<close>

partial_function (option) foreach_from ::
  "('e option \<Rightarrow> fault + 'e option) \<Rightarrow> 'e option \<Rightarrow> 'e list \<Rightarrow> (fault + 'e list) option" where
  "foreach_from step var acc =
     (case var of
        None \<Rightarrow> Some (Inr (rev acc))
      | Some e \<Rightarrow>
          (case step var of
             Inl f \<Rightarrow> Some (Inl f)
           | Inr n \<Rightarrow> foreach_from step n (e # acc)))"

definition TAILQ_FOREACH :: "'h \<Rightarrow> ('h, 'e) tq_mem \<Rightarrow> fault + 'e list" where
  "TAILQ_FOREACH h m =
     bnd (TAILQ_FIRST h m) (\<lambda>var.
     case foreach_from (\<lambda>p. TAILQ_NEXT p m) var [] of None \<Rightarrow> Inl Hang | Some r \<Rightarrow> r)"

definition TAILQ_FOREACH_REVERSE :: "'h \<Rightarrow> ('h, 'e) tq_mem \<Rightarrow> fault + 'e list" where
  "TAILQ_FOREACH_REVERSE h m =
     bnd (TAILQ_LAST h m) (\<lambda>var.
     case foreach_from (\<lambda>p. TAILQ_PREV p m) var [] of None \<Rightarrow> Inl Hang | Some r \<Rightarrow> r)"

section \<open>The list a queue represents\<close>

text \<open>
  \<open>tq_chain E s xs n\<close>: in the link entries \<open>E\<close>, the elements \<open>xs\<close> are linked in this order, the first one is pointed to by
  the cell \<open>s\<close>, and the last one points to \<open>n\<close>.
\<close>

fun tq_chain ::
  "('e \<Rightarrow> ('h, 'e) tq_entry option) \<Rightarrow> ('h, 'e) slot \<Rightarrow> 'e list \<Rightarrow> 'e option \<Rightarrow> bool" where
  "tq_chain E s [] n \<longleftrightarrow> True"
| "tq_chain E s (x # xs) n \<longleftrightarrow>
     E x = Some \<lparr>tqe_next = hd_or xs n, tqe_prev = Some s\<rparr> \<and>
     tq_chain E (ElemNext x) xs n"

definition end_slot :: "('h, 'e) slot \<Rightarrow> 'e list \<Rightarrow> ('h, 'e) slot" where
  "end_slot s xs = (if xs = [] then s else ElemNext (last xs))"

definition tq_rep :: "('h, 'e) tq_mem \<Rightarrow> 'h \<Rightarrow> 'e list \<Rightarrow> bool" where
  "tq_rep m h xs \<longleftrightarrow>
     tq_heads m h = Some \<lparr>tqh_first = hd_or xs None, tqh_last = Some (end_slot (HeadFirst h) xs)\<rparr> \<and>
     tq_chain (tq_elems m) (HeadFirst h) xs None \<and> distinct xs"

text \<open>All queues of the memory at once: \<open>q h\<close> is the content of the queue at \<open>h\<close>.\<close>

definition tq_family :: "('h, 'e) tq_mem \<Rightarrow> ('h \<Rightarrow> 'e list) \<Rightarrow> bool" where
  "tq_family m q \<longleftrightarrow>
     (\<forall>h \<in> dom (tq_heads m). tq_rep m h (q h)) \<and>
     (\<forall>h \<in> dom (tq_heads m). \<forall>h' \<in> dom (tq_heads m). h \<noteq> h' \<longrightarrow> set (q h) \<inter> set (q h') = {})"

text \<open>What an operation on one queue leaves alone.\<close>

definition tq_frame ::
  "'h \<Rightarrow> 'e set \<Rightarrow> ('h, 'e) tq_mem \<Rightarrow> ('h, 'e) tq_mem \<Rightarrow> bool" where
  "tq_frame h es m m' \<longleftrightarrow>
     (\<forall>h'. h' \<noteq> h \<longrightarrow> tq_heads m' h' = tq_heads m h') \<and>
     (\<forall>e. e \<notin> es \<longrightarrow> tq_elems m' e = tq_elems m e) \<and>
     dom (tq_heads m') = dom (tq_heads m) \<and> dom (tq_elems m') = dom (tq_elems m)"

lemmas tq_access_defs [fault_simps] =
  get_head_def put_head_def get_elem_def put_elem_def get_first_def set_first_def get_last_def
  set_last_def get_next_def set_next_def get_prev_def set_prev_def rd_slot_def wr_slot_def
  cast_last_def

lemma end_slot_Nil [simp]: "end_slot s [] = s"
  by (simp add: end_slot_def)

lemma end_slot_Cons [simp]: "end_slot s (x # xs) = end_slot (ElemNext x) xs"
  by (simp add: end_slot_def)

lemma end_slot_append [simp]: "end_slot s (xs @ ys) = end_slot (end_slot s xs) ys"
  by (simp add: end_slot_def)

lemma tq_chain_append [simp]:
  "tq_chain E s (xs @ ys) n \<longleftrightarrow>
     tq_chain E s xs (hd_or ys n) \<and> tq_chain E (end_slot s xs) ys n"
  by (induction xs arbitrary: s) (auto simp: hd_or_append)

lemma tq_chain_cong:
  "(\<And>x. x \<in> set xs \<Longrightarrow> E' x = E x) \<Longrightarrow> tq_chain E' s xs n = tq_chain E s xs n"
  by (induction xs arbitrary: s) auto

lemma tq_chain_upd [simp]:
  "x \<notin> set xs \<Longrightarrow> tq_chain (E(x := v)) s xs n = tq_chain E s xs n"
  by (rule tq_chain_cong) auto

lemma tq_chain_allocated: "tq_chain E s xs n \<Longrightarrow> x \<in> set xs \<Longrightarrow> x \<in> dom E"
  by (induction xs arbitrary: s) auto

lemma tq_rep_frame:
  "tq_rep m h' ys \<Longrightarrow> tq_frame h es m m' \<Longrightarrow> h' \<noteq> h \<Longrightarrow> set ys \<inter> es = {} \<Longrightarrow> tq_rep m' h' ys"
  using tq_chain_cong [of ys "tq_elems m'" "tq_elems m" "HeadFirst h'" None]
  by (auto simp: tq_rep_def tq_frame_def disjoint_iff)

lemma tq_family_update:
  assumes "tq_family m q" and "tq_frame h es m m'" and "tq_rep m' h xs'" and "set xs' \<subseteq> es"
    and "\<And>h'. h' \<in> dom (tq_heads m) \<Longrightarrow> h' \<noteq> h \<Longrightarrow> set (q h') \<inter> es = {}"
  shows "tq_family m' (q(h := xs'))"
proof -
  have dm: "dom (tq_heads m') = dom (tq_heads m)"
    using assms(2) by (simp add: tq_frame_def)
  have "tq_rep m' h' (q h')" if "h' \<in> dom (tq_heads m)" "h' \<noteq> h" for h'
    using assms that by (intro tq_rep_frame [OF _ assms(2)]) (auto simp: tq_family_def)
  moreover have "set (q h') \<inter> set xs' = {}" if "h' \<in> dom (tq_heads m)" "h' \<noteq> h" for h'
    using assms(4) assms(5) [OF that] by blast
  ultimately show ?thesis
    using assms(1,3) unfolding tq_family_def dm by (auto simp: Int_commute)
qed

lemma tq_family_rep: "tq_family m q \<Longrightarrow> h \<in> dom (tq_heads m) \<Longrightarrow> tq_rep m h (q h)"
  by (simp add: tq_family_def)

lemma tq_family_disjoint:
  "tq_family m q \<Longrightarrow> h \<in> dom (tq_heads m) \<Longrightarrow> h' \<in> dom (tq_heads m) \<Longrightarrow> h' \<noteq> h \<Longrightarrow>
     set (q h') \<inter> set (q h) = {}"
  by (auto simp: tq_family_def)

lemma tq_rep_head: "tq_rep m h xs \<Longrightarrow> h \<in> dom (tq_heads m)"
  by (auto simp: tq_rep_def)

section \<open>Each macro refines a list operation\<close>

lemma TAILQ_INIT_rep:
  assumes "h \<in> dom (tq_heads m)"
  shows "\<exists>m'. TAILQ_INIT h m = Inr m' \<and> tq_rep m' h [] \<and> tq_frame h {} m m'"
  using assms by (auto simp: TAILQ_INIT_def fault_simps tq_rep_def tq_frame_def)

lemma TAILQ_FIRST_rep: "tq_rep m h xs \<Longrightarrow> TAILQ_FIRST h m = Inr (hd_or xs None)"
  by (simp add: TAILQ_FIRST_def fault_simps tq_rep_def)

lemma TAILQ_EMPTY_rep: "tq_rep m h xs \<Longrightarrow> TAILQ_EMPTY h m = Inr (xs = [])"
  by (simp add: TAILQ_EMPTY_def TAILQ_FIRST_rep TAILQ_END_def)

lemma TAILQ_NEXT_rep:
  "tq_rep m h (xs @ e # ys) \<Longrightarrow> TAILQ_NEXT (Some e) m = Inr (hd_or ys None)"
  by (simp add: TAILQ_NEXT_def fault_simps tq_rep_def)

lemma rd_slot_rep:
  assumes "tq_rep m h (xs @ ys)"
  shows "rd_slot (Some (end_slot (HeadFirst h) xs)) m = Inr (hd_or ys None)"
proof (cases xs rule: rev_cases)
  case Nil
  with assms show ?thesis by (simp add: fault_simps tq_rep_def)
next
  case (snoc zs z)
  with assms show ?thesis by (simp add: fault_simps tq_rep_def)
qed

lemma cast_last_rep:
  assumes "tq_rep m h (xs @ y # ys)"
  shows "cast_last (Some (ElemNext y)) m = Inr (Some (end_slot (HeadFirst h) xs))"
  using assms by (simp add: fault_simps tq_rep_def)

lemma TAILQ_LAST_rep:
  assumes "tq_rep m h xs"
  shows "TAILQ_LAST h m = Inr (if xs = [] then None else Some (last xs))"
proof (cases xs rule: rev_cases)
  case Nil
  with assms show ?thesis by (simp add: TAILQ_LAST_def fault_simps tq_rep_def)
next
  case (snoc zs z)
  with assms rd_slot_rep [of m h zs "[z]"] cast_last_rep [of m h zs z "[]"]
  show ?thesis by (simp add: TAILQ_LAST_def get_last_def get_head_def tq_rep_def)
qed

lemma TAILQ_PREV_rep:
  assumes "tq_rep m h (xs @ e # ys)"
  shows "TAILQ_PREV (Some e) m = Inr (if xs = [] then None else Some (last xs))"
proof (cases xs rule: rev_cases)
  case Nil
  with assms rd_slot_rep [of m h "e # ys" "[]"] show ?thesis
    by (simp add: TAILQ_PREV_def get_prev_def get_elem_def cast_last_def get_last_def get_head_def
        tq_rep_def)
next
  case (snoc zs z)
  with assms rd_slot_rep [of m h zs "z # e # ys"] cast_last_rep [of m h zs z "e # ys"]
  show ?thesis by (simp add: TAILQ_PREV_def get_prev_def get_elem_def tq_rep_def)
qed

lemma TAILQ_INSERT_TAIL_rep:
  assumes rep: "tq_rep m h xs" and e: "e \<in> dom (tq_elems m)" "e \<notin> set xs"
  shows "\<exists>m'. TAILQ_INSERT_TAIL h (Some e) m = Inr m' \<and> tq_rep m' h (xs @ [e]) \<and>
    tq_frame h (insert e (set xs)) m m'"
proof (cases xs rule: rev_cases)
  case Nil
  with assms show ?thesis
    by (auto simp: TAILQ_INSERT_TAIL_def fault_simps tq_rep_def tq_frame_def)
next
  case (snoc zs z)
  with assms show ?thesis
    by (auto simp: TAILQ_INSERT_TAIL_def fault_simps tq_rep_def tq_frame_def)
qed

lemma TAILQ_INSERT_HEAD_rep:
  assumes rep: "tq_rep m h xs" and e: "e \<in> dom (tq_elems m)" "e \<notin> set xs"
  shows "\<exists>m'. TAILQ_INSERT_HEAD h (Some e) m = Inr m' \<and> tq_rep m' h (e # xs) \<and>
    tq_frame h (insert e (set xs)) m m'"
  using assms
  by (cases xs) (auto simp: TAILQ_INSERT_HEAD_def fault_simps tq_rep_def tq_frame_def)

lemma TAILQ_REMOVE_rep:
  assumes rep: "tq_rep m h (xs @ e # ys)"
  shows "\<exists>m'. TAILQ_REMOVE h (Some e) m = Inr m' \<and> tq_rep m' h (xs @ ys) \<and>
    tq_frame h (set (xs @ e # ys)) m m' \<and> tq_elems m' e = tq_elems m e"
  using assms
  by (cases xs rule: rev_cases; cases ys)
     (auto simp: TAILQ_REMOVE_def fault_simps tq_rep_def tq_frame_def)

lemma TAILQ_INSERT_AFTER_rep:
  assumes rep: "tq_rep m h (xs @ a # ys)" and e: "e \<in> dom (tq_elems m)" "e \<notin> set (xs @ a # ys)"
  shows "\<exists>m'. TAILQ_INSERT_AFTER h (Some a) (Some e) m = Inr m' \<and> tq_rep m' h (xs @ a # e # ys) \<and>
    tq_frame h (insert e (set (xs @ a # ys))) m m'"
  using assms
  by (cases ys) (auto simp: TAILQ_INSERT_AFTER_def fault_simps tq_rep_def tq_frame_def)

lemma TAILQ_INSERT_BEFORE_rep:
  assumes rep: "tq_rep m h (xs @ a # ys)" and e: "e \<in> dom (tq_elems m)" "e \<notin> set (xs @ a # ys)"
  shows "\<exists>m'. TAILQ_INSERT_BEFORE (Some a) (Some e) m = Inr m' \<and> tq_rep m' h (xs @ e # a # ys) \<and>
    tq_frame h (insert e (set (xs @ a # ys))) m m'"
  using assms
  by (cases xs rule: rev_cases)
    (auto simp: TAILQ_INSERT_BEFORE_def fault_simps tq_rep_def tq_frame_def)

lemma TAILQ_REPLACE_rep:
  assumes rep: "tq_rep m h (xs @ a # ys)" and e: "e \<in> dom (tq_elems m)" "e \<notin> set (xs @ a # ys)"
  shows "\<exists>m'. TAILQ_REPLACE h (Some a) (Some e) m = Inr m' \<and> tq_rep m' h (xs @ e # ys) \<and>
    tq_frame h (insert e (set (xs @ a # ys))) m m'"
  using assms
  by (cases xs rule: rev_cases; cases ys)
    (auto simp: TAILQ_REPLACE_def fault_simps tq_rep_def tq_frame_def)

lemma foreach_from_walk:
  assumes "\<And>as e bs. xs = as @ e # bs \<Longrightarrow> step (Some e) = Inr (hd_or bs None)"
    and "xs = as @ bs"
  shows "foreach_from step (hd_or bs None) acc = Some (Inr (rev acc @ bs))"
  using assms(2)
proof (induction bs arbitrary: as acc)
  case Nil
  show ?case by (simp add: foreach_from.simps)
next
  case (Cons e bs)
  have "foreach_from step (Some e) acc = foreach_from step (hd_or bs None) (e # acc)"
    using assms(1) [OF Cons.prems] by (subst foreach_from.simps) simp
  with Cons.IH [of "as @ [e]" "e # acc"] Cons.prems show ?case by simp
qed

lemma TAILQ_FOREACH_rep:
  assumes "tq_rep m h xs"
  shows "TAILQ_FOREACH h m = Inr xs"
proof -
  have "foreach_from (\<lambda>p. TAILQ_NEXT p m) (hd_or xs None) [] = Some (Inr (rev [] @ xs))"
    using assms by (intro foreach_from_walk [of xs]) (auto dest: TAILQ_NEXT_rep)
  with assms show ?thesis by (simp add: TAILQ_FOREACH_def TAILQ_FIRST_rep)
qed

lemma TAILQ_FOREACH_REVERSE_rep:
  assumes "tq_rep m h xs"
  shows "TAILQ_FOREACH_REVERSE h m = Inr (rev xs)"
proof -
  have "TAILQ_PREV (Some e) m = Inr (hd_or bs None)" if "rev xs = as @ e # bs" for as e bs
  proof -
    from that have "xs = rev bs @ e # rev as" by (simp add: rev_swap)
    with assms TAILQ_PREV_rep [of m h "rev bs" e "rev as"] show ?thesis
      by (cases bs) auto
  qed
  then have "foreach_from (\<lambda>p. TAILQ_PREV p m) (hd_or (rev xs) None) [] =
      Some (Inr (rev [] @ rev xs))"
    by (intro foreach_from_walk [of "rev xs"]) auto
  with assms show ?thesis
    by (cases xs rule: rev_cases) (auto simp: TAILQ_FOREACH_REVERSE_def TAILQ_LAST_rep)
qed

section \<open>Removing an element that is no longer linked\<close>

text \<open>
  \<open>TAILQ_REMOVE\<close> leaves the link fields of the element it takes out as they were. Applied again to
  such an element it writes through the stale fields. These are the exact effects for an element
  that had been alone in the queue at \<open>h0\<close>.
\<close>

definition stale_entry :: "'h \<Rightarrow> ('h, 'e) tq_entry" where
  "stale_entry h0 = \<lparr>tqe_next = None, tqe_prev = Some (HeadFirst h0)\<rparr>"

lemma TAILQ_REMOVE_leaves_stale:
  assumes "tq_rep m h [e]"
  shows "\<exists>m'. TAILQ_REMOVE h (Some e) m = Inr m' \<and> tq_elems m' e = Some (stale_entry h) \<and>
    tq_rep m' h []"
  using TAILQ_REMOVE_rep [of m h "[]" e "[]"] assms by (auto simp: stale_entry_def tq_rep_def)

lemma TAILQ_REMOVE_stale:
  assumes "tq_elems m e = Some (stale_entry h0)" and "h \<in> dom (tq_heads m)"
    and "h0 \<in> dom (tq_heads m)"
  shows "TAILQ_REMOVE h (Some e) m =
    Inr (m\<lparr>tq_heads := (tq_heads m)
        (h \<mapsto> (the (tq_heads m h))\<lparr>tqh_last := Some (HeadFirst h0)\<rparr>,
         h0 \<mapsto> (if h = h0 then the (tq_heads m h)\<lparr>tqh_last := Some (HeadFirst h0)\<rparr>
               else the (tq_heads m h0))\<lparr>tqh_first := None\<rparr>)\<rparr>)"
  using assms by (auto simp: TAILQ_REMOVE_def fault_simps stale_entry_def)

lemma TAILQ_REMOVE_stale_same:
  assumes "tq_elems m e = Some (stale_entry h)" and "h \<in> dom (tq_heads m)"
  shows "\<exists>m'. TAILQ_REMOVE h (Some e) m = Inr m' \<and> tq_rep m' h [] \<and> tq_frame h {} m m'"
  using assms by (auto simp: TAILQ_REMOVE_stale tq_rep_def tq_frame_def)

section \<open>No macro allocates or frees\<close>

definition same_blocks :: "('h, 'e) tq_mem \<Rightarrow> ('h, 'e) tq_mem \<Rightarrow> bool" where
  "same_blocks m m' \<longleftrightarrow>
     dom (tq_heads m') = dom (tq_heads m) \<and> dom (tq_elems m') = dom (tq_elems m)"

lemma same_blocks_refl [simp]: "same_blocks m m"
  by (simp add: same_blocks_def)

lemma same_blocks_trans: "same_blocks m m' \<Longrightarrow> same_blocks m' m'' \<Longrightarrow> same_blocks m m''"
  by (simp add: same_blocks_def)

lemma set_first_blocks: "set_first h v m = Inr m' \<Longrightarrow> same_blocks m m'"
  by (auto simp: fault_simps same_blocks_def bnd_eq_Inr split: option.splits if_splits)

lemma set_last_blocks: "set_last h v m = Inr m' \<Longrightarrow> same_blocks m m'"
  by (auto simp: fault_simps same_blocks_def bnd_eq_Inr split: option.splits if_splits)

lemma set_next_blocks: "set_next p v m = Inr m' \<Longrightarrow> same_blocks m m'"
  by (auto simp: fault_simps same_blocks_def bnd_eq_Inr split: option.splits if_splits)

lemma set_prev_blocks: "set_prev p v m = Inr m' \<Longrightarrow> same_blocks m m'"
  by (auto simp: fault_simps same_blocks_def bnd_eq_Inr split: option.splits if_splits)

lemma wr_slot_blocks: "wr_slot sl v m = Inr m' \<Longrightarrow> same_blocks m m'"
  by (auto simp: wr_slot_def split: option.splits slot.splits
      intro: set_first_blocks set_next_blocks)

lemmas setter_blocks = set_first_blocks set_last_blocks set_next_blocks set_prev_blocks wr_slot_blocks

lemma TAILQ_INIT_blocks: "TAILQ_INIT h m = Inr m' \<Longrightarrow> same_blocks m m'"
  unfolding TAILQ_INIT_def
  by (auto elim!: bnd_InrE dest!: setter_blocks intro: same_blocks_trans)

lemma TAILQ_INSERT_TAIL_blocks: "TAILQ_INSERT_TAIL h e m = Inr m' \<Longrightarrow> same_blocks m m'"
  unfolding TAILQ_INSERT_TAIL_def
  by (auto elim!: bnd_InrE dest!: setter_blocks intro: same_blocks_trans)

lemma TAILQ_REMOVE_blocks: "TAILQ_REMOVE h e m = Inr m' \<Longrightarrow> same_blocks m m'"
  unfolding TAILQ_REMOVE_def
  by (auto elim!: bnd_InrE dest!: setter_blocks intro: same_blocks_trans split: if_splits)

section \<open>The faults of the macros are bad memory accesses\<close>

definition mem_fault :: "fault \<Rightarrow> bool" where
  "mem_fault f \<longleftrightarrow> f \<in> {NullDeref, Dangling, OutOfBounds}"

lemma mem_fault_simps [simp]:
  "mem_fault NullDeref" "mem_fault Dangling" "mem_fault OutOfBounds"
  "\<not> mem_fault SignedOverflow" "\<not> mem_fault (Exit n)" "\<not> mem_fault Hang"
  by (simp_all add: mem_fault_def)

lemma get_first_fault: "get_first h m = Inl f \<Longrightarrow> mem_fault f"
  by (auto simp: fault_simps split: option.splits)

lemma set_first_fault: "set_first h v m = Inl f \<Longrightarrow> mem_fault f"
  by (auto simp: fault_simps split: option.splits)

lemma get_last_fault: "get_last h m = Inl f \<Longrightarrow> mem_fault f"
  by (auto simp: fault_simps split: option.splits)

lemma set_last_fault: "set_last h v m = Inl f \<Longrightarrow> mem_fault f"
  by (auto simp: fault_simps split: option.splits)

lemma get_next_fault: "get_next p m = Inl f \<Longrightarrow> mem_fault f"
  by (auto simp: fault_simps split: option.splits)

lemma set_next_fault: "set_next p v m = Inl f \<Longrightarrow> mem_fault f"
  by (auto simp: fault_simps split: option.splits)

lemma get_prev_fault: "get_prev p m = Inl f \<Longrightarrow> mem_fault f"
  by (auto simp: fault_simps split: option.splits)

lemma set_prev_fault: "set_prev p v m = Inl f \<Longrightarrow> mem_fault f"
  by (auto simp: fault_simps split: option.splits)

lemma wr_slot_fault: "wr_slot sl v m = Inl f \<Longrightarrow> mem_fault f"
  by (auto simp: wr_slot_def split: option.splits slot.splits dest: set_first_fault set_next_fault)

lemmas access_faults = get_first_fault set_first_fault get_last_fault set_last_fault get_next_fault
  set_next_fault get_prev_fault set_prev_fault wr_slot_fault

lemma TAILQ_FIRST_fault: "TAILQ_FIRST h m = Inl f \<Longrightarrow> mem_fault f"
  unfolding TAILQ_FIRST_def by (rule get_first_fault)

lemma TAILQ_INSERT_TAIL_fault: "TAILQ_INSERT_TAIL h e m = Inl f \<Longrightarrow> mem_fault f"
  unfolding TAILQ_INSERT_TAIL_def bnd_eq_Inl by (elim disjE exE conjE; erule access_faults)

lemma TAILQ_REMOVE_fault: "TAILQ_REMOVE h e m = Inl f \<Longrightarrow> mem_fault f"
  unfolding TAILQ_REMOVE_def bnd_eq_Inl
  by (elim disjE exE conjE; (erule access_faults)?)
    (auto simp: bnd_eq_Inl split: if_splits dest: access_faults)

section \<open>The interface of the wait queues\<close>

text \<open>
  What the library relies on: a family of queues, appending to one, looking at its first element
  and unlinking an element, with the lists \<open>q\<close> as the abstract content.
\<close>

locale wait_queues =
  fixes rep :: "'m \<Rightarrow> ('h \<Rightarrow> 'e list) \<Rightarrow> bool"
    and head_ok :: "'m \<Rightarrow> 'h \<Rightarrow> bool"
    and elem_ok :: "'m \<Rightarrow> 'e \<Rightarrow> bool"
    and first :: "'h \<Rightarrow> 'm \<Rightarrow> fault + 'e option"
    and enq :: "'h \<Rightarrow> 'e option \<Rightarrow> 'm \<Rightarrow> fault + 'm"
    and unlink :: "'h \<Rightarrow> 'e option \<Rightarrow> 'm \<Rightarrow> fault + 'm"
  assumes first_law: "rep m q \<Longrightarrow> head_ok m h \<Longrightarrow> first h m = Inr (hd_or (q h) None)"
    and enq_law: "rep m q \<Longrightarrow> head_ok m h \<Longrightarrow> elem_ok m e \<Longrightarrow>
      (\<And>h'. head_ok m h' \<Longrightarrow> e \<notin> set (q h')) \<Longrightarrow>
      \<exists>m'. enq h (Some e) m = Inr m' \<and> rep m' (q(h := q h @ [e])) \<and>
        head_ok m' = head_ok m \<and> elem_ok m' = elem_ok m"
    and unlink_law: "rep m q \<Longrightarrow> head_ok m h \<Longrightarrow> q h = xs @ e # ys \<Longrightarrow>
      \<exists>m'. unlink h (Some e) m = Inr m' \<and> rep m' (q(h := xs @ ys)) \<and>
        head_ok m' = head_ok m \<and> elem_ok m' = elem_ok m"
begin

text \<open>Taking the first element, as the event loop does.\<close>

lemma dequeue:
  assumes "rep m q" and "head_ok m h" and "q h = e # ys"
  shows "first h m = Inr (Some e) \<and>
    (\<exists>m'. unlink h (Some e) m = Inr m' \<and> rep m' (q(h := ys)) \<and>
      head_ok m' = head_ok m \<and> elem_ok m' = elem_ok m)"
  using first_law [OF assms(1,2)] unlink_law [OF assms(1,2), of "[]" e ys] assms(3) by auto

text \<open>Appending an element and unlinking it again changes no queue.\<close>

lemma enq_unlink:
  assumes "rep m q" and "head_ok m h" and "elem_ok m e"
    and "\<And>h'. head_ok m h' \<Longrightarrow> e \<notin> set (q h')"
  shows "\<exists>m'. bnd (enq h (Some e) m) (unlink h (Some e)) = Inr m' \<and> rep m' q"
proof -
  obtain m1 where m1: "enq h (Some e) m = Inr m1" "rep m1 (q(h := q h @ [e]))"
      "head_ok m1 = head_ok m"
    using enq_law [OF assms] by auto
  then show ?thesis using unlink_law [OF m1(2), of h "q h" e "[]"] assms(2) by auto
qed

text \<open>Appending distinct new elements one after the other appends them in this order.\<close>

lemma enq_list:
  assumes "rep m q" and "head_ok m h" and "distinct es" and "\<And>e. e \<in> set es \<Longrightarrow> elem_ok m e"
    and "\<And>e h'. e \<in> set es \<Longrightarrow> head_ok m h' \<Longrightarrow> e \<notin> set (q h')"
  shows "\<exists>m'. foldE (\<lambda>e. enq h (Some e)) es m = Inr m' \<and> rep m' (q(h := q h @ es)) \<and>
    head_ok m' = head_ok m \<and> elem_ok m' = elem_ok m"
  using assms
proof (induction es arbitrary: m q)
  case Nil
  then show ?case by auto
next
  case (Cons e es)
  obtain m1 where m1: "enq h (Some e) m = Inr m1" "rep m1 (q(h := q h @ [e]))"
      "head_ok m1 = head_ok m" "elem_ok m1 = elem_ok m"
    using enq_law [of m q h e] Cons.prems by auto
  have "\<exists>m'. foldE (\<lambda>e. enq h (Some e)) es m1 = Inr m' \<and>
      rep m' ((q(h := q h @ [e]))(h := (q(h := q h @ [e])) h @ es)) \<and>
      head_ok m' = head_ok m1 \<and> elem_ok m' = elem_ok m1"
  proof (rule Cons.IH)
    show "rep m1 (q(h := q h @ [e]))" by (rule m1(2))
  qed (use Cons.prems m1 in \<open>auto split: if_splits\<close>)
  moreover have "(q(h := q h @ [e]))(h := (q(h := q h @ [e])) h @ es) = q(h := q h @ e # es)"
    by simp
  ultimately show ?case using m1 by (auto simp del: fun_upd_apply)
qed

text \<open>Draining a queue from its front empties it.\<close>

lemma drain:
  assumes "rep m q" and "head_ok m h" and "q h = es @ ys"
  shows "\<exists>m'. foldE (\<lambda>e. unlink h (Some e)) es m = Inr m' \<and> rep m' (q(h := ys)) \<and>
    head_ok m' = head_ok m"
  using assms
proof (induction es arbitrary: m q)
  case Nil
  then have "q(h := ys) = q" by auto
  with Nil show ?case by auto
next
  case (Cons e es)
  obtain m1 where m1: "unlink h (Some e) m = Inr m1" "rep m1 (q(h := es @ ys))"
      "head_ok m1 = head_ok m"
    using unlink_law [OF Cons.prems(1,2), of "[]" e "es @ ys"] Cons.prems(3) by auto
  with Cons.IH [OF m1(2)] Cons.prems(2) fun_upd_same [of q h "es @ ys"] show ?case
    by (auto simp del: fun_upd_apply)
qed

end

lemma TAILQ_FIRST_family:
  "tq_family m q \<Longrightarrow> h \<in> dom (tq_heads m) \<Longrightarrow> TAILQ_FIRST h m = Inr (hd_or (q h) None)"
  by (rule TAILQ_FIRST_rep) (rule tq_family_rep)

lemma TAILQ_INSERT_TAIL_family:
  assumes "tq_family m q" and "h \<in> dom (tq_heads m)" and "e \<in> dom (tq_elems m)"
    and new: "\<And>h'. h' \<in> dom (tq_heads m) \<Longrightarrow> e \<notin> set (q h')"
  shows "\<exists>m'. TAILQ_INSERT_TAIL h (Some e) m = Inr m' \<and> tq_family m' (q(h := q h @ [e])) \<and>
    dom (tq_heads m') = dom (tq_heads m) \<and> dom (tq_elems m') = dom (tq_elems m)"
proof -
  obtain m' where m': "TAILQ_INSERT_TAIL h (Some e) m = Inr m'" "tq_rep m' h (q h @ [e])"
      "tq_frame h (insert e (set (q h))) m m'"
    using TAILQ_INSERT_TAIL_rep [OF tq_family_rep [OF assms(1,2)] assms(3) new [OF assms(2)]]
    by auto
  have "tq_family m' (q(h := q h @ [e]))"
    using assms m' by (intro tq_family_update [OF assms(1) m'(3)]) (auto simp: tq_family_def)
  with m' show ?thesis by (auto simp: tq_frame_def)
qed

lemma TAILQ_REMOVE_family:
  assumes "tq_family m q" and "h \<in> dom (tq_heads m)" and "q h = xs @ e # ys"
  shows "\<exists>m'. TAILQ_REMOVE h (Some e) m = Inr m' \<and> tq_family m' (q(h := xs @ ys)) \<and>
    dom (tq_heads m') = dom (tq_heads m) \<and> dom (tq_elems m') = dom (tq_elems m)"
proof -
  obtain m' where m': "TAILQ_REMOVE h (Some e) m = Inr m'" "tq_rep m' h (xs @ ys)"
      "tq_frame h (set (q h)) m m'"
    using TAILQ_REMOVE_rep [of m h xs e ys] tq_family_rep [OF assms(1,2)] assms(3) by auto
  have "tq_family m' (q(h := xs @ ys))"
    using m' assms(3) tq_family_disjoint [OF assms(1,2)]
    by (intro tq_family_update [OF assms(1) m'(3)]) auto
  with m' show ?thesis by (auto simp: tq_frame_def)
qed

interpretation tq: wait_queues tq_family "\<lambda>m h. h \<in> dom (tq_heads m)"
  "\<lambda>m e. e \<in> dom (tq_elems m)" TAILQ_FIRST TAILQ_INSERT_TAIL TAILQ_REMOVE
proof unfold_locales
  fix m :: "('h, 'e) tq_mem" and q h
  assume "tq_family m q" "h \<in> dom (tq_heads m)"
  then show "TAILQ_FIRST h m = Inr (hd_or (q h) None)" by (rule TAILQ_FIRST_family)
next
  fix m :: "('h, 'e) tq_mem" and q h e
  assume "tq_family m q" "h \<in> dom (tq_heads m)" "e \<in> dom (tq_elems m)"
    "\<And>h'. h' \<in> dom (tq_heads m) \<Longrightarrow> e \<notin> set (q h')"
  then show "\<exists>m'. TAILQ_INSERT_TAIL h (Some e) m = Inr m' \<and> tq_family m' (q(h := q h @ [e])) \<and>
      (\<lambda>h. h \<in> dom (tq_heads m')) = (\<lambda>h. h \<in> dom (tq_heads m)) \<and>
      (\<lambda>e. e \<in> dom (tq_elems m')) = (\<lambda>e. e \<in> dom (tq_elems m))"
    by (metis TAILQ_INSERT_TAIL_family)
next
  fix m :: "('h, 'e) tq_mem" and q h xs e ys
  assume "tq_family m q" "h \<in> dom (tq_heads m)" "q h = xs @ e # ys"
  then show "\<exists>m'. TAILQ_REMOVE h (Some e) m = Inr m' \<and> tq_family m' (q(h := xs @ ys)) \<and>
      (\<lambda>h. h \<in> dom (tq_heads m')) = (\<lambda>h. h \<in> dom (tq_heads m)) \<and>
      (\<lambda>e. e \<in> dom (tq_elems m')) = (\<lambda>e. e \<in> dom (tq_elems m))"
    by (metis TAILQ_REMOVE_family)
qed

section \<open>Properties\<close>

text \<open>A queue that holds 1 and 2; 3 is in no queue.\<close>

definition ex_queue :: "(unit, nat) tq_mem" where
  "ex_queue =
     \<lparr>tq_heads = [() \<mapsto> \<lparr>tqh_first = Some 1, tqh_last = Some (ElemNext 2)\<rparr>],
      tq_elems = [1 \<mapsto> \<lparr>tqe_next = Some 2, tqe_prev = Some (HeadFirst ())\<rparr>,
                  2 \<mapsto> \<lparr>tqe_next = None, tqe_prev = Some (ElemNext 1)\<rparr>,
                  3 \<mapsto> \<lparr>tqe_next = None, tqe_prev = None\<rparr>]\<rparr>"

lemma ex_queue_rep: "tq_rep ex_queue () [1, 2]"
  by (simp add: tq_rep_def ex_queue_def)

text \<open>
  C31: Forward traversal yields the list of the queue, backward traversal its reverse, and
  TAILQ_FIRST, TAILQ_LAST and TAILQ_EMPTY its first element, its last element and whether it is
  empty.
\<close>

theorem traversals_agree:
  assumes "tq_rep m h xs"
  shows "TAILQ_FOREACH h m = Inr xs \<and> TAILQ_FOREACH_REVERSE h m = Inr (rev xs) \<and>
    TAILQ_FIRST h m = Inr (hd_or xs None) \<and>
    TAILQ_LAST h m = Inr (if xs = [] then None else Some (last xs)) \<and>
    TAILQ_EMPTY h m = Inr (xs = [])"
  by (intro conjI TAILQ_FOREACH_rep TAILQ_FOREACH_REVERSE_rep TAILQ_FIRST_rep TAILQ_LAST_rep
      TAILQ_EMPTY_rep assms)

theorem traversals_agree_witness:
  "TAILQ_FOREACH () ex_queue = Inr [1, 2] \<and> TAILQ_FOREACH_REVERSE () ex_queue = Inr [2, 1]"
  using traversals_agree [OF ex_queue_rep] by simp

end
