(* ===== verification/CoTypes.thy ===== *)
theory CoTypes
  imports Tailq "HOL-Library.Word" "HOL-Library.Signed_Division"
begin

text \<open>
  The data of the library (\<open>include/coroutine.h\<close>) and the memory it lives in: coroutine control
  blocks, thread environments, the table of environments and the links of the wait queues. The
  services of the operating system are the fields of a record \<open>os\<close> over an abstract kernel state,
  so that every theorem holds for any behaviour of the kernel unless it names a hypothesis. The
  last sections give the checked accesses to the memory, the well-formedness invariant and the
  generic lemmas that show an update keeps it.
\<close>

unbundle bit_operations_syntax

section \<open>Constants\<close>

definition NR_TASKS :: nat where
  "NR_TASKS = 10240"

definition STACK_SIZE :: nat where
  "STACK_SIZE = 1024 * 128"

definition MAX_FD :: nat where
  "MAX_FD = 1024"

definition MAX_THREAD_NUM :: nat where
  "MAX_THREAD_NUM = 10240"

datatype co_status = COROUTINE_RUNNING | COROUTINE_SLEEP | COROUTINE_WAIT | COROUTINE_EXIT

text \<open>The event bits of \<open>sys/epoll.h\<close> and \<open>limits.h\<close>'s bounds of \<open>int\<close>.\<close>

abbreviation EPOLLIN :: "32 word" where
  "EPOLLIN \<equiv> 1"

abbreviation EPOLLOUT :: "32 word" where
  "EPOLLOUT \<equiv> 4"

definition fits_int :: "int \<Rightarrow> bool" where
  "fits_int x \<longleftrightarrow> - (2 ^ 31) \<le> x \<and> x < 2 ^ 31"

section \<open>Data\<close>

text \<open>Addresses of control blocks and of thread environments; a pointer is \<open>None\<close> when NULL.\<close>

type_synonym taskp = nat
type_synonym envp = nat
type_synonym voidp = "64 word"

text \<open>
  A machine word on a coroutine stack or in a register: a number, the address of a control block,
  the address of the function \<open>start\<close>, or an address inside the stack of a coroutine (given by the
  index of the word, which for a created coroutine is the index into its \<open>stack\<close> array).
\<close>

datatype val = Vnum "64 word" | Vtask taskp | Vstart | Vsp taskp int

record epoll_event =
  ev_events :: "32 word"
  ev_fd :: int

text \<open>\<open>struct task_struct_t\<close>; its \<open>block_entry\<close> is kept with the queues, see \<open>queues\<close> below.\<close>

record task_struct_t =
  tsk_id :: nat
  wakeuptime :: "32 word"
  esp :: val
  co_fn :: voidp
  arg :: voidp
  thread_env :: "envp option"
  status :: co_status
  fds_idx :: nat
  fds :: "nat \<Rightarrow> int"
  events :: "nat \<Rightarrow> epoll_event"
  revents :: "nat \<Rightarrow> 32 word"
  stack :: "nat \<Rightarrow> val"

text \<open>\<open>struct thread_env_t\<close>; \<open>epfd\<close> is \<open>epoll.epfd\<close>, and \<open>epoll.block_queue\<close> is kept in \<open>queues\<close>.\<close>

record thread_env_t =
  task_count :: int
  current :: "taskp option"
  epfd :: int
  task :: "nat \<Rightarrow> taskp option"

text \<open>
  The process: live control blocks and environments by address, the global table of
  environments, the queue heads \<open>block_queue[fd]\<close> of every environment together with the
  \<open>block_entry\<close> fields of the control blocks, the next fresh address and the kernel.
\<close>

record 'k co_state =
  heap :: "taskp \<Rightarrow> task_struct_t option"
  envs :: "envp \<Rightarrow> thread_env_t option"
  g_thread_env_arr :: "nat \<Rightarrow> envp option"
  queues :: "(envp \<times> int, taskp) tq_mem"
  brk :: nat
  kst :: 'k

section \<open>The operating system\<close>

record timeval =
  tv_sec :: int
  tv_usec :: int

datatype ctl_op = EPOLL_CTL_ADD | EPOLL_CTL_MOD | EPOLL_CTL_DEL

datatype arch = X86_64 | I386

text \<open>
  What the library calls: \<open>gettimeofday\<close> (\<open>None\<close> is a failure), whether \<open>calloc\<close> finds memory,
  \<open>epoll_create\<close>, \<open>epoll_ctl\<close>, \<open>epoll_wait\<close> (\<open>None\<close> is a negative return), and \<open>accept\<close>,
  \<open>read\<close> and \<open>write\<close> on a descriptor. The field \<open>arch\<close> is the processor the library is built
  for.
\<close>

record 'k os =
  os_arch :: arch
  os_gettimeofday :: "'k \<Rightarrow> timeval option \<times> 'k"
  os_calloc :: "'k \<Rightarrow> bool \<times> 'k"
  os_epoll_create :: "'k \<Rightarrow> int \<times> 'k"
  os_epoll_ctl :: "int \<Rightarrow> ctl_op \<Rightarrow> int \<Rightarrow> epoll_event option \<Rightarrow> 'k \<Rightarrow> int \<times> 'k"
  os_epoll_wait :: "int \<Rightarrow> 'k \<Rightarrow> epoll_event list option \<times> 'k"
  os_accept :: "int \<Rightarrow> 'k \<Rightarrow> int \<times> 'k"
  os_read :: "int \<Rightarrow> nat \<Rightarrow> 'k \<Rightarrow> int \<times> 'k"
  os_write :: "int \<Rightarrow> nat \<Rightarrow> 'k \<Rightarrow> int \<times> 'k"

text \<open>A call whose result and effect are the kernel's.\<close>

definition syscall :: "('k \<Rightarrow> 'r \<times> 'k) \<Rightarrow> 'k co_state \<Rightarrow> 'r \<times> 'k co_state" where
  "syscall f s = (case f (kst s) of (r, k) \<Rightarrow> (r, s\<lparr>kst := k\<rparr>))"

section \<open>Checked memory accesses\<close>

definition nonnull :: "'a option \<Rightarrow> fault + 'a" where
  "nonnull p = (case p of None \<Rightarrow> Inl NullDeref | Some x \<Rightarrow> Inr x)"

definition get_task :: "taskp \<Rightarrow> 'k co_state \<Rightarrow> fault + task_struct_t" where
  "get_task p s = (case heap s p of None \<Rightarrow> Inl Dangling | Some t \<Rightarrow> Inr t)"

definition mod_task ::
  "taskp \<Rightarrow> (task_struct_t \<Rightarrow> task_struct_t) \<Rightarrow> 'k co_state \<Rightarrow> fault + 'k co_state" where
  "mod_task p f s = bnd (get_task p s) (\<lambda>t. Inr (s\<lparr>heap := (heap s)(p \<mapsto> f t)\<rparr>))"

definition get_env :: "envp \<Rightarrow> 'k co_state \<Rightarrow> fault + thread_env_t" where
  "get_env ep s = (case envs s ep of None \<Rightarrow> Inl Dangling | Some env \<Rightarrow> Inr env)"

definition mod_env ::
  "envp \<Rightarrow> (thread_env_t \<Rightarrow> thread_env_t) \<Rightarrow> 'k co_state \<Rightarrow> fault + 'k co_state" where
  "mod_env ep f s = bnd (get_env ep s) (\<lambda>env. Inr (s\<lparr>envs := (envs s)(ep \<mapsto> f env)\<rparr>))"

text \<open>An array index for the arrays of length \<open>MAX_FD\<close>.\<close>

definition fd_index :: "int \<Rightarrow> fault + nat" where
  "fd_index fd = (if 0 \<le> fd \<and> fd < int MAX_FD then Inr (nat fd) else Inl OutOfBounds)"

definition on_queues ::
  "((envp \<times> int, taskp) tq_mem \<Rightarrow> fault + (envp \<times> int, taskp) tq_mem) \<Rightarrow>
   'k co_state \<Rightarrow> fault + 'k co_state" where
  "on_queues f s = bnd (f (queues s)) (\<lambda>m. Inr (s\<lparr>queues := m\<rparr>))"

text \<open>
  \<open>calloc(1, sizeof(struct task_struct_t))\<close> and \<open>calloc(1, sizeof(struct thread_env_t))\<close>: a block
  of zeroes at a fresh address, or NULL. \<open>free\<close> takes the block out of the memory.
\<close>

definition zero_task :: task_struct_t where
  "zero_task =
     \<lparr>tsk_id = 0, wakeuptime = 0, esp = Vnum 0, co_fn = 0, arg = 0, thread_env = None,
      status = COROUTINE_RUNNING, fds_idx = 0, fds = (\<lambda>_. 0),
      events = (\<lambda>_. \<lparr>ev_events = 0, ev_fd = 0\<rparr>), revents = (\<lambda>_. 0), stack = (\<lambda>_. Vnum 0)\<rparr>"

definition zero_env :: thread_env_t where
  "zero_env = \<lparr>task_count = 0, current = None, epfd = 0, task = (\<lambda>_. None)\<rparr>"

definition calloc_task :: "'k os \<Rightarrow> 'k co_state \<Rightarrow> taskp option \<times> 'k co_state" where
  "calloc_task K s =
     (case syscall (os_calloc K) s of
        (ok, s) \<Rightarrow>
          if ok
          then (Some (brk s),
                s\<lparr>heap := (heap s)(brk s \<mapsto> zero_task),
                  queues := put_elem (brk s) \<lparr>tqe_next = None, tqe_prev = None\<rparr> (queues s),
                  brk := brk s + 1\<rparr>)
          else (None, s))"

definition calloc_env :: "'k os \<Rightarrow> 'k co_state \<Rightarrow> envp option \<times> 'k co_state" where
  "calloc_env K s =
     (case syscall (os_calloc K) s of
        (ok, s) \<Rightarrow>
          if ok
          then (Some (brk s),
                s\<lparr>envs := (envs s)(brk s \<mapsto> zero_env),
                  queues := (queues s)\<lparr>tq_heads := (\<lambda>(ep, fd).
                    if ep = brk s \<and> 0 \<le> fd \<and> fd < int MAX_FD
                    then Some \<lparr>tqh_first = None, tqh_last = None\<rparr>
                    else tq_heads (queues s) (ep, fd))\<rparr>,
                  brk := brk s + 1\<rparr>)
          else (None, s))"

definition free_task :: "taskp \<Rightarrow> 'k co_state \<Rightarrow> fault + 'k co_state" where
  "free_task p s =
     bnd (get_task p s) (\<lambda>t.
     Inr (s\<lparr>heap := (heap s)(p := None),
            queues := (queues s)\<lparr>tq_elems := (tq_elems (queues s))(p := None)\<rparr>\<rparr>))"

text \<open>The process before the first call of the library.\<close>

definition init_state :: "'k \<Rightarrow> 'k co_state" where
  "init_state k =
     \<lparr>heap = (\<lambda>_. None), envs = (\<lambda>_. None), g_thread_env_arr = (\<lambda>_. None),
      queues = \<lparr>tq_heads = (\<lambda>_. None), tq_elems = (\<lambda>_. None)\<rparr>, brk = 0, kst = k\<rparr>"

section \<open>Well-formed states\<close>

text \<open>
  A thread environment is sound when its current coroutine is a live entry of its table, every
  entry of the table is live, carries its index as \<open>id\<close> and points back to the environment, and
  \<open>task_count\<close> counts the entries.
\<close>

definition env_ok :: "'k co_state \<Rightarrow> envp \<Rightarrow> thread_env_t \<Rightarrow> bool" where
  "env_ok s ep env \<longleftrightarrow>
     (\<exists>c i. current env = Some c \<and> task env i = Some c) \<and>
     (\<forall>i p. task env i = Some p \<longrightarrow>
        i < NR_TASKS \<and> (\<exists>t. heap s p = Some t \<and> tsk_id t = i \<and> thread_env t = Some ep)) \<and>
     task_count env = int (card (dom (task env)))"

text \<open>A control block is registered when the table of its environment holds it under its \<open>id\<close>.\<close>

definition registered :: "'k co_state \<Rightarrow> taskp \<Rightarrow> task_struct_t \<Rightarrow> bool" where
  "registered s p t =
     (case thread_env t of
        None \<Rightarrow> False
      | Some ep \<Rightarrow> (case envs s ep of None \<Rightarrow> False | Some env \<Rightarrow> task env (tsk_id t) = Some p))"

text \<open>
  A state is sound when all its environments are, every live control block is registered in the
  table of its environment (none is leaked), the table of environments is injective, and the
  queue memory has exactly the heads and link entries that belong to live blocks.
\<close>

definition state_ok :: "'k co_state \<Rightarrow> bool" where
  "state_ok s \<longleftrightarrow>
     (\<forall>ep env. envs s ep = Some env \<longrightarrow> ep < brk s \<and> env_ok s ep env) \<and>
     (\<forall>p t. heap s p = Some t \<longrightarrow>
        p < brk s \<and> fds_idx t \<le> MAX_FD \<and>
        registered s p t) \<and>
     (\<forall>i ep. g_thread_env_arr s i = Some ep \<longrightarrow> i < MAX_THREAD_NUM \<and> ep \<in> dom (envs s)) \<and>
     (\<forall>i j ep. g_thread_env_arr s i = Some ep \<longrightarrow> g_thread_env_arr s j = Some ep \<longrightarrow> i = j) \<and>
     dom (tq_elems (queues s)) = dom (heap s) \<and>
     dom (tq_heads (queues s)) = dom (envs s) \<times> {0..<int MAX_FD}"

section \<open>Accesses and updates under the invariant\<close>

lemma fd_index_eq_Inr: "fd_index fd = Inr n \<longleftrightarrow> 0 \<le> fd \<and> fd < int MAX_FD \<and> n = nat fd"
  by (auto simp: fd_index_def)

lemma get_task_eq_Inr [simp]: "get_task p s = Inr t \<longleftrightarrow> heap s p = Some t"
  by (simp add: get_task_def split: option.splits)

lemma get_env_eq_Inr [simp]: "get_env ep s = Inr env \<longleftrightarrow> envs s ep = Some env"
  by (simp add: get_env_def split: option.splits)

lemma nonnull_eq_Inr [simp]: "nonnull p = Inr x \<longleftrightarrow> p = Some x"
  by (simp add: nonnull_def split: option.splits)

lemma mod_task_eq_Inr:
  "mod_task p f s = Inr s' \<longleftrightarrow>
     (\<exists>t. heap s p = Some t \<and> s' = s\<lparr>heap := (heap s)(p \<mapsto> f t)\<rparr>)"
  by (auto simp: mod_task_def bnd_eq_Inr)

lemma mod_env_eq_Inr:
  "mod_env ep f s = Inr s' \<longleftrightarrow>
     (\<exists>env. envs s ep = Some env \<and> s' = s\<lparr>envs := (envs s)(ep \<mapsto> f env)\<rparr>)"
  by (auto simp: mod_env_def bnd_eq_Inr)

lemma on_queues_eq_Inr:
  "on_queues f s = Inr s' \<longleftrightarrow> (\<exists>m. f (queues s) = Inr m \<and> s' = s\<lparr>queues := m\<rparr>)"
  by (auto simp: on_queues_def bnd_eq_Inr)

lemmas access_iffs = mod_task_eq_Inr mod_env_eq_Inr on_queues_eq_Inr fd_index_eq_Inr

lemma env_ok_mod_task:
  assumes "env_ok s ep env" and "heap s p = Some t"
    and "tsk_id t' = tsk_id t" and "thread_env t' = thread_env t"
  shows "env_ok (s\<lparr>heap := (heap s)(p \<mapsto> t')\<rparr>) ep env"
  using assms unfolding env_ok_def by (fastforce simp: fun_upd_apply)

lemma registered_cong:
  "tsk_id t' = tsk_id t \<Longrightarrow> thread_env t' = thread_env t \<Longrightarrow> registered s p t' = registered s p t"
  by (simp add: registered_def split: option.splits)

lemma registered_heap [simp]: "registered (s\<lparr>heap := H\<rparr>) p t = registered s p t"
  by (simp add: registered_def split: option.splits)

lemma registered_kst [simp]: "registered (s\<lparr>kst := k\<rparr>) p t = registered s p t"
  by (simp add: registered_def split: option.splits)

lemma registered_queues [simp]: "registered (s\<lparr>queues := m\<rparr>) p t = registered s p t"
  by (simp add: registered_def split: option.splits)

lemma registered_current:
  "envs s ep = Some env \<Longrightarrow>
     registered (s\<lparr>envs := (envs s)(ep \<mapsto> env\<lparr>current := c\<rparr>)\<rparr>) p t = registered s p t"
  by (simp add: registered_def split: option.splits)

lemma state_ok_mod_task [wf_intros]:
  assumes "state_ok s" and "mod_task p f s = Inr s'"
    and "\<And>t. tsk_id (f t) = tsk_id t" and "\<And>t. thread_env (f t) = thread_env t"
    and "\<And>t. fds_idx t \<le> MAX_FD \<Longrightarrow> fds_idx (f t) \<le> MAX_FD"
  shows "state_ok s'"
proof -
  obtain t where t: "heap s p = Some t" "s' = s\<lparr>heap := (heap s)(p \<mapsto> f t)\<rparr>"
    using assms(2) by (auto simp: mod_task_eq_Inr)
  then show ?thesis
    using assms(1,3-) env_ok_mod_task [OF _ t(1), of _ _ "f t"] registered_cong [of "f t" t s p]
    unfolding state_ok_def by (simp add: insert_absorb domI)
qed

lemma env_ok_kst [simp]: "env_ok (s\<lparr>kst := k\<rparr>) ep env = env_ok s ep env"
  by (simp add: env_ok_def)

lemma state_ok_kst [simp]: "state_ok (s\<lparr>kst := k\<rparr>) = state_ok s"
  by (simp add: state_ok_def)

lemma syscall_state: "syscall f s = (r, s') \<Longrightarrow> \<exists>k. s' = s\<lparr>kst := k\<rparr>"
  by (auto simp: syscall_def split: prod.splits)

lemma state_ok_syscall [wf_intros]: "syscall f s = (r, s') \<Longrightarrow> state_ok s \<Longrightarrow> state_ok s'"
  by (auto dest: syscall_state)

lemma env_ok_queues [simp]: "env_ok (s\<lparr>queues := m\<rparr>) ep env = env_ok s ep env"
  by (simp add: env_ok_def)

lemma state_ok_queues:
  "state_ok s \<Longrightarrow> same_blocks (queues s) m \<Longrightarrow> state_ok (s\<lparr>queues := m\<rparr>)"
  by (simp add: state_ok_def same_blocks_def)

lemma state_ok_on_queues [wf_intros]:
  "state_ok s \<Longrightarrow> on_queues f s = Inr s' \<Longrightarrow>
     (\<And>m m'. f m = Inr m' \<Longrightarrow> same_blocks m m') \<Longrightarrow> state_ok s'"
  by (auto simp: on_queues_eq_Inr intro: state_ok_queues)

lemma env_ok_envs [simp]: "env_ok (s\<lparr>envs := E\<rparr>) ep env = env_ok s ep env"
  by (simp add: env_ok_def)

lemma state_ok_set_current [wf_intros]:
  assumes "state_ok s" and "mod_env ep (\<lambda>env. env\<lparr>current := Some c\<rparr>) s = Inr s'"
    and "envs s ep = Some env" and "task env i = Some c"
  shows "state_ok s'"
proof -
  have s': "s' = s\<lparr>envs := (envs s)(ep \<mapsto> env\<lparr>current := Some c\<rparr>)\<rparr>"
    using assms(2,3) by (auto simp: mod_env_eq_Inr)
  have "env_ok s ep (env\<lparr>current := Some c\<rparr>)"
    using assms(1,3,4) by (auto simp: state_ok_def env_ok_def)
  then show ?thesis
    using assms(1,3) unfolding state_ok_def s'
    by (simp add: insert_absorb domI registered_current)
qed

lemma state_ok_env: "state_ok s \<Longrightarrow> envs s ep = Some env \<Longrightarrow> ep < brk s \<and> env_ok s ep env"
  unfolding state_ok_def by blast

lemma state_ok_heap:
  "state_ok s \<Longrightarrow> heap s p = Some t \<Longrightarrow> p < brk s \<and> fds_idx t \<le> MAX_FD \<and> registered s p t"
  unfolding state_ok_def by blast

lemma state_ok_slot:
  "state_ok s \<Longrightarrow> g_thread_env_arr s i = Some ep \<Longrightarrow>
     i < MAX_THREAD_NUM \<and> (\<exists>env. envs s ep = Some env)"
  unfolding state_ok_def by blast

lemma state_ok_slot_inj:
  "state_ok s \<Longrightarrow> g_thread_env_arr s i = Some ep \<Longrightarrow> g_thread_env_arr s j = Some ep \<Longrightarrow> i = j"
  unfolding state_ok_def by blast

lemma state_ok_blocks:
  "state_ok s \<Longrightarrow> dom (tq_elems (queues s)) = dom (heap s)"
  "state_ok s \<Longrightarrow> dom (tq_heads (queues s)) = dom (envs s) \<times> {0..<int MAX_FD}"
  unfolding state_ok_def by blast+

lemma state_ok_current:
  assumes "state_ok s" and "envs s ep = Some env"
  obtains c t where "current env = Some c" and "heap s c = Some t" and "thread_env t = Some ep"
    and "task env (tsk_id t) = Some c" and "tsk_id t < NR_TASKS"
  using assms unfolding state_ok_def env_ok_def by metis

lemma state_ok_entry:
  assumes "state_ok s" and "envs s ep = Some env" and "task env i = Some p"
  obtains t where "heap s p = Some t" and "tsk_id t = i" and "thread_env t = Some ep"
    and "i < NR_TASKS"
  using assms unfolding state_ok_def env_ok_def by metis

lemma state_ok_task:
  assumes "state_ok s" and "heap s p = Some t"
  obtains ep env where "thread_env t = Some ep" and "envs s ep = Some env"
    and "task env (tsk_id t) = Some p" and "tsk_id t < NR_TASKS"
proof -
  from assms have "registered s p t" by (simp add: state_ok_def)
  then obtain ep env where "thread_env t = Some ep" "envs s ep = Some env"
    "task env (tsk_id t) = Some p" by (auto simp: registered_def split: option.splits)
  with assms that show thesis by (metis state_ok_entry)
qed

text \<open>Changing the control blocks in place, up to their identity.\<close>

definition same_tasks :: "'k co_state \<Rightarrow> 'k co_state \<Rightarrow> bool" where
  "same_tasks s s' \<longleftrightarrow>
     envs s' = envs s \<and> g_thread_env_arr s' = g_thread_env_arr s \<and> brk s' = brk s \<and>
     same_blocks (queues s) (queues s') \<and> dom (heap s') = dom (heap s) \<and>
     (\<forall>p t t'. heap s p = Some t \<longrightarrow> heap s' p = Some t' \<longrightarrow>
        tsk_id t' = tsk_id t \<and> thread_env t' = thread_env t \<and>
        (fds_idx t \<le> MAX_FD \<longrightarrow> fds_idx t' \<le> MAX_FD))"

lemma same_tasks_back:
  assumes "same_tasks s s'" and "heap s' p = Some t'"
  obtains t where "heap s p = Some t" "tsk_id t' = tsk_id t" "thread_env t' = thread_env t"
    "fds_idx t \<le> MAX_FD \<longrightarrow> fds_idx t' \<le> MAX_FD"
proof -
  have "p \<in> dom (heap s)" using assms by (auto simp: same_tasks_def)
  then obtain t where "heap s p = Some t" by auto
  with assms that show thesis unfolding same_tasks_def by blast
qed

lemma same_tasks_forth:
  assumes "same_tasks s s'" and "heap s p = Some t"
  obtains t' where "heap s' p = Some t'" "tsk_id t' = tsk_id t" "thread_env t' = thread_env t"
proof -
  have "p \<in> dom (heap s')" using assms by (auto simp: same_tasks_def)
  then obtain t' where "heap s' p = Some t'" by auto
  with assms that show thesis unfolding same_tasks_def by blast
qed

lemma same_tasks_refl: "same_tasks s s"
  by (auto simp: same_tasks_def)

lemma same_tasks_trans:
  assumes "same_tasks s s'" and "same_tasks s' s''"
  shows "same_tasks s s''"
proof -
  have "tsk_id t'' = tsk_id t \<and> thread_env t'' = thread_env t \<and>
      (fds_idx t \<le> MAX_FD \<longrightarrow> fds_idx t'' \<le> MAX_FD)"
    if T: "heap s p = Some t" and T'': "heap s'' p = Some t''" for p t t''
  proof -
    obtain t' where t': "heap s' p = Some t'" "tsk_id t'' = tsk_id t'" "thread_env t'' = thread_env t'"
      "fds_idx t' \<le> MAX_FD \<longrightarrow> fds_idx t'' \<le> MAX_FD"
      by (rule same_tasks_back [OF assms(2) T''])
    obtain t0 where "heap s p = Some t0" "tsk_id t' = tsk_id t0" "thread_env t' = thread_env t0"
      "fds_idx t0 \<le> MAX_FD \<longrightarrow> fds_idx t' \<le> MAX_FD"
      by (rule same_tasks_back [OF assms(1) t'(1)])
    with t' T show ?thesis by simp
  qed
  moreover have "same_blocks (queues s) (queues s'')"
    using assms same_blocks_trans unfolding same_tasks_def by blast
  moreover have "envs s'' = envs s" "g_thread_env_arr s'' = g_thread_env_arr s" "brk s'' = brk s"
    "dom (heap s'') = dom (heap s)"
    using assms unfolding same_tasks_def by metis+
  ultimately show ?thesis unfolding same_tasks_def by blast
qed

lemma same_tasks_queues:
  assumes "same_tasks s s'" and "same_blocks (queues s') m"
  shows "same_tasks s (s'\<lparr>queues := m\<rparr>)"
proof (rule same_tasks_trans [OF assms(1)])
  show "same_tasks s' (s'\<lparr>queues := m\<rparr>)" using assms(2) by (auto simp: same_tasks_def)
qed

lemma same_tasks_upd:
  assumes "heap s p = Some t" and "tsk_id t' = tsk_id t" and "thread_env t' = thread_env t"
    and "fds_idx t \<le> MAX_FD \<Longrightarrow> fds_idx t' \<le> MAX_FD"
  shows "same_tasks s (s\<lparr>heap := (heap s)(p \<mapsto> t')\<rparr>)"
  using assms by (auto simp: same_tasks_def)

lemma state_ok_same_tasks:
  assumes sim: "same_tasks s s'" and ok: "state_ok s"
  shows "state_ok s'"
proof -
  have fr: "envs s' = envs s" "g_thread_env_arr s' = g_thread_env_arr s" "brk s' = brk s"
    "same_blocks (queues s) (queues s')" "dom (heap s') = dom (heap s)"
    using sim by (auto simp: same_tasks_def)
  have "env_ok s' ep env" if "env_ok s ep env" for ep env
  proof -
    have "\<exists>t'. heap s' p = Some t' \<and> tsk_id t' = i \<and> thread_env t' = Some ep"
      if p: "task env i = Some p" for i p
    proof -
      obtain t where "heap s p = Some t" "tsk_id t = i" "thread_env t = Some ep"
        using p \<open>env_ok s ep env\<close> unfolding env_ok_def by blast
      then show ?thesis by (auto elim: same_tasks_forth [OF sim])
    qed
    with that show ?thesis unfolding env_ok_def by blast
  qed
  moreover have "p < brk s \<and> fds_idx t' \<le> MAX_FD \<and> registered s' p t'" if t': "heap s' p = Some t'" for p t'
  proof -
    obtain t where t: "heap s p = Some t" "tsk_id t' = tsk_id t" "thread_env t' = thread_env t"
      "fds_idx t \<le> MAX_FD \<longrightarrow> fds_idx t' \<le> MAX_FD"
      by (rule same_tasks_back [OF sim t'])
    have "registered s' p t' = registered s p t"
      using t by (simp add: registered_def fr split: option.splits)
    with state_ok_heap [OF ok t(1)] t(4) show ?thesis by simp
  qed
  ultimately show ?thesis
    using ok fr(4,5) unfolding state_ok_def same_blocks_def fr(1-3) by simp
qed

lemma state_ok_init: "state_ok (init_state k)"
  by (simp add: state_ok_def init_state_def)

end
