(* ===== verification/ThreadEnv.thy ===== *)
theory ThreadEnv
  imports CoTypes
begin

text \<open>
  The thread environment (\<open>co_get_thread_env\<close> in \<open>src/coroutine.c\<close>): looked up in the global table
  by the thread id, and created with the main coroutine and the empty wait queues on the first
  call of a thread.
\<close>

section \<open>The operation\<close>

text \<open>The index \<open>tid % MAX_THREAD_NUM\<close>, with C's remainder.\<close>

definition tid_slot :: "int \<Rightarrow> fault + nat" where
  "tid_slot tid =
     (let r = tid smod int MAX_THREAD_NUM in if r < 0 then Inl OutOfBounds else Inr (nat r))"

definition init_queues :: "envp \<Rightarrow> 'k co_state \<Rightarrow> fault + 'k co_state" where
  "init_queues ep = foldE (\<lambda>i. on_queues (TAILQ_INIT (ep, int i))) [0..<MAX_FD]"

definition co_get_thread_env :: "'k os \<Rightarrow> int \<Rightarrow> 'k co_state \<Rightarrow> fault + (envp \<times> 'k co_state)" where
  "co_get_thread_env K tid s =
     bnd (tid_slot tid) (\<lambda>slot.
     case g_thread_env_arr s slot of
       Some ep \<Rightarrow> Inr (ep, s)
     | None \<Rightarrow>
         (case calloc_env K s of (p, s) \<Rightarrow>
         bnd (nonnull p) (\<lambda>ep.
         bnd (mod_env ep (\<lambda>env. env\<lparr>task_count := 1\<rparr>) s) (\<lambda>s.
         case calloc_task K s of (q, s) \<Rightarrow>
         bnd (nonnull q) (\<lambda>init_task.
         bnd (mod_task init_task (\<lambda>t. t\<lparr>thread_env := Some ep, status := COROUTINE_RUNNING\<rparr>) s) (\<lambda>s.
         bnd (mod_env ep (\<lambda>env. env\<lparr>task := (task env)(0 \<mapsto> init_task), current := Some init_task\<rparr>) s) (\<lambda>s.
         case syscall (os_epoll_create K) s of (fd, s) \<Rightarrow>
         bnd (mod_env ep (\<lambda>env. env\<lparr>epfd := fd\<rparr>) s) (\<lambda>s.
         bnd (init_queues ep s) (\<lambda>s.
         Inr (ep, s\<lparr>g_thread_env_arr := (g_thread_env_arr s)(slot \<mapsto> ep)\<rparr>))))))))))"

text \<open>\<open>co_get_current\<close> of \<open>src/sched.c\<close>.\<close>

definition co_get_current :: "'k os \<Rightarrow> int \<Rightarrow> 'k co_state \<Rightarrow> fault + (taskp option \<times> 'k co_state)" where
  "co_get_current K tid s =
     bnd (co_get_thread_env K tid s) (\<lambda>(ep, s).
     bnd (get_env ep s) (\<lambda>env. Inr (current env, s)))"

text \<open>The thread \<open>tid\<close> has the environment \<open>ep\<close>.\<close>

definition thread_has :: "'k co_state \<Rightarrow> int \<Rightarrow> envp \<Rightarrow> bool" where
  "thread_has s tid ep \<longleftrightarrow> (\<exists>slot. tid_slot tid = Inr slot \<and> g_thread_env_arr s slot = Some ep)"

section \<open>Slots\<close>

lemma tid_slot_nonneg: "0 \<le> tid \<Longrightarrow> tid_slot tid = Inr (nat tid mod MAX_THREAD_NUM)"
  by (cases "tid = 0")
    (simp_all add: tid_slot_def signed_modulo_int_def Let_def MAX_THREAD_NUM_def nat_mod_distrib
      sgn_if not_less)

lemma tid_slot_bound: "tid_slot tid = Inr slot \<Longrightarrow> slot < MAX_THREAD_NUM"
  by (auto simp: tid_slot_def Let_def MAX_THREAD_NUM_def signed_modulo_int_def sgn_if
      split: if_splits)

lemma thread_has_get [simp]: "thread_has s tid ep \<Longrightarrow> co_get_thread_env K tid s = Inr (ep, s)"
  by (auto simp: thread_has_def co_get_thread_env_def)

lemma thread_has_unique: "thread_has s tid ep \<Longrightarrow> thread_has s tid ep' \<Longrightarrow> ep = ep'"
  by (auto simp: thread_has_def)

lemma thread_has_env: "state_ok s \<Longrightarrow> thread_has s tid ep \<Longrightarrow> \<exists>env. envs s ep = Some env"
  by (auto simp: thread_has_def state_ok_def)

section \<open>The loop that initialises the wait queues\<close>

lemma init_queues_loop:
  assumes "\<And>i. i \<in> set xs \<Longrightarrow> (ep, int i) \<in> dom (tq_heads (queues s))"
  shows "foldE (\<lambda>i. on_queues (TAILQ_INIT (ep, int i))) xs s =
    Inr (s\<lparr>queues := (queues s)\<lparr>tq_heads := (\<lambda>h.
      if h \<in> (\<lambda>i. (ep, int i)) ` set xs
      then Some \<lparr>tqh_first = None, tqh_last = Some (HeadFirst h)\<rparr>
      else tq_heads (queues s) h)\<rparr>\<rparr>)"
  using assms
proof (induction xs arbitrary: s)
  case Nil
  then show ?case by simp
next
  case (Cons x xs)
  obtain H where H: "tq_heads (queues s) (ep, int x) = Some H" using Cons.prems by force
  let ?m = "(queues s)\<lparr>tq_heads := (tq_heads (queues s))
    ((ep, int x) \<mapsto> \<lparr>tqh_first = None, tqh_last = Some (HeadFirst (ep, int x))\<rparr>)\<rparr>"
  have step: "on_queues (TAILQ_INIT (ep, int x)) s = Inr (s\<lparr>queues := ?m\<rparr>)"
    using H by (cases H) (simp add: on_queues_def TAILQ_INIT_def fault_simps)
  have pre: "(ep, int i) \<in> dom (tq_heads (queues (s\<lparr>queues := ?m\<rparr>)))" if "i \<in> set xs" for i
    using Cons.prems [of i] that by (simp add: domIff)
  have "foldE (\<lambda>i. on_queues (TAILQ_INIT (ep, int i))) xs (s\<lparr>queues := ?m\<rparr>) =
    Inr (s\<lparr>queues := ?m, queues := (queues (s\<lparr>queues := ?m\<rparr>))\<lparr>tq_heads := (\<lambda>h.
      if h \<in> (\<lambda>i. (ep, int i)) ` set xs
      then Some \<lparr>tqh_first = None, tqh_last = Some (HeadFirst h)\<rparr>
      else tq_heads (queues (s\<lparr>queues := ?m\<rparr>)) h)\<rparr>\<rparr>)"
    by (rule Cons.IH) (rule pre)
  with step show ?case by (auto simp: fun_eq_iff)
qed

text \<open>The heads of a new environment, all initialised to the empty queue.\<close>

definition fresh_heads ::
  "envp \<Rightarrow> (envp \<times> int \<Rightarrow> (envp \<times> int, taskp) tq_head option) \<Rightarrow>
   envp \<times> int \<Rightarrow> (envp \<times> int, taskp) tq_head option" where
  "fresh_heads ep H = (\<lambda>h.
     if fst h = ep \<and> 0 \<le> snd h \<and> snd h < int MAX_FD
     then Some \<lparr>tqh_first = None, tqh_last = Some (HeadFirst h)\<rparr>
     else H h)"

lemma fresh_heads_absorb [simp]:
  "fresh_heads ep (\<lambda>(e, fd). if e = ep \<and> 0 \<le> fd \<and> fd < int MAX_FD then v else H (e, fd)) =
     fresh_heads ep H"
  by (auto simp: fresh_heads_def fun_eq_iff)

lemma init_queues_heads:
  assumes "\<And>fd. 0 \<le> fd \<Longrightarrow> fd < int MAX_FD \<Longrightarrow> (ep, fd) \<in> dom (tq_heads (queues s))"
  shows "init_queues ep s =
    Inr (s\<lparr>queues := (queues s)\<lparr>tq_heads := fresh_heads ep (tq_heads (queues s))\<rparr>\<rparr>)"
proof -
  have "(\<lambda>h. if h \<in> (\<lambda>i. (ep, int i)) ` set [0..<MAX_FD]
      then Some \<lparr>tqh_first = None, tqh_last = Some (HeadFirst h)\<rparr>
      else tq_heads (queues s) h) = fresh_heads ep (tq_heads (queues s))"
  proof (rule ext)
    fix h :: "envp \<times> int"
    have "h \<in> (\<lambda>i. (ep, int i)) ` set [0..<MAX_FD] \<longleftrightarrow>
        fst h = ep \<and> 0 \<le> snd h \<and> snd h < int MAX_FD"
      by (cases h) (auto simp: image_iff intro!: bexI [of _ "nat (snd h)"])
    then show "(if h \<in> (\<lambda>i. (ep, int i)) ` set [0..<MAX_FD]
      then Some \<lparr>tqh_first = None, tqh_last = Some (HeadFirst h)\<rparr>
      else tq_heads (queues s) h) = fresh_heads ep (tq_heads (queues s)) h"
      by (simp add: fresh_heads_def)
  qed
  with init_queues_loop [of "[0..<MAX_FD]" ep s] assms show ?thesis
    by (simp add: init_queues_def)
qed

section \<open>Creating an environment\<close>

text \<open>The state after the first call of a thread: \<open>fd\<close> is the new epoll descriptor.\<close>

definition with_new_env :: "nat \<Rightarrow> int \<Rightarrow> 'k \<Rightarrow> 'k co_state \<Rightarrow> 'k co_state" where
  "with_new_env slot fd k s =
     s\<lparr>heap := (heap s)(brk s + 1 \<mapsto> zero_task\<lparr>thread_env := Some (brk s)\<rparr>),
       envs := (envs s)(brk s \<mapsto> \<lparr>task_count = 1, current = Some (brk s + 1), epfd = fd,
         task = [0 \<mapsto> brk s + 1]\<rparr>),
       g_thread_env_arr := (g_thread_env_arr s)(slot \<mapsto> brk s),
       queues := \<lparr>tq_heads = fresh_heads (brk s) (tq_heads (queues s)),
         tq_elems = (tq_elems (queues s))(brk s + 1 \<mapsto> \<lparr>tqe_next = None, tqe_prev = None\<rparr>)\<rparr>,
       brk := brk s + 2, kst := k\<rparr>"

lemma co_get_thread_env_new:
  assumes "tid_slot tid = Inr slot" and "g_thread_env_arr s slot = None"
    and "co_get_thread_env K tid s = Inr (ep, s')"
  shows "\<exists>fd k. ep = brk s \<and> s' = with_new_env slot fd k s"
proof -
  obtain ok1 k1 where k1: "os_calloc K (kst s) = (ok1, k1)" by fastforce
  obtain ok2 k2 where k2: "os_calloc K k1 = (ok2, k2)" by fastforce
  obtain fd k3 where k3: "os_epoll_create K k2 = (fd, k3)" by fastforce
  have ok: "ok1" "ok2"
    using assms k1 k2
    by (auto simp: co_get_thread_env_def calloc_env_def calloc_task_def syscall_def nonnull_def
        mod_env_def get_env_def put_elem_def split: if_splits)
  show ?thesis
    using assms k1 k2 k3 ok
    by (simp add: co_get_thread_env_def calloc_env_def calloc_task_def syscall_def put_elem_def
      nonnull_def mod_env_def mod_task_def get_env_def get_task_def init_queues_heads dom_def)
     (intro conjI exI [of _ fd] exI [of _ k3]; clarsimp simp: with_new_env_def zero_env_def zero_task_def)
qed

lemma co_get_thread_env_cases:
  assumes "co_get_thread_env K tid s = Inr (ep, s')"
  obtains (known) "thread_has s tid ep" "s' = s"
  | (created) slot fd k where "tid_slot tid = Inr slot" "g_thread_env_arr s slot = None"
      "ep = brk s" "s' = with_new_env slot fd k s"
proof -
  obtain slot where slot: "tid_slot tid = Inr slot"
    using assms by (auto simp: co_get_thread_env_def bnd_eq_Inr)
  show thesis
  proof (cases "g_thread_env_arr s slot")
    case None
    obtain fd k where "ep = brk s" "s' = with_new_env slot fd k s"
      using co_get_thread_env_new [OF slot None assms] by (elim exE conjE)
    then show thesis by (rule created [OF slot None])
  next
    case (Some e)
    with slot have "thread_has s tid e" by (simp add: thread_has_def)
    from thread_has_get [OF this, of K] assms have "e = ep" "s' = s" by simp_all
    with \<open>thread_has s tid e\<close> show thesis by (intro known) simp_all
  qed
qed

lemma co_get_thread_env_has:
  assumes "co_get_thread_env K tid s = Inr (ep, s')"
  shows "thread_has s' tid ep"
  using assms by (cases rule: co_get_thread_env_cases) (auto simp: thread_has_def with_new_env_def)

lemma dom_fresh_heads [simp]:
  "dom (fresh_heads ep H) = dom H \<union> {ep} \<times> {0..<int MAX_FD}"
  by (auto simp: fresh_heads_def split: if_splits)

lemma env_ok_fresh:
  assumes "env_ok s e env" and "\<And>p. p \<in> dom (heap s) \<Longrightarrow> p < n" and "n \<le> q"
  shows "env_ok (s\<lparr>heap := (heap s)(q \<mapsto> t)\<rparr>) e env"
proof -
  have "p \<noteq> q" if "heap s p = Some t'" for p t'
    using assms(2) [of p] assms(3) that by (auto simp: domIff)
  then show ?thesis using assms(1) unfolding env_ok_def by (simp add: fun_upd_apply) metis
qed

lemma state_ok_new_env:
  assumes ok: "state_ok s" and free: "g_thread_env_arr s slot = None" "slot < MAX_THREAD_NUM"
  shows "state_ok (with_new_env slot fd k s)" (is "state_ok ?s'")
proof -
  let ?t = "zero_task\<lparr>thread_env := Some (brk s)\<rparr>"
  have env_old: "ep < brk s" "env_ok s ep env" if "envs s ep = Some env" for ep env
    using state_ok_env [OF ok that] by simp_all
  have old: "p < brk s" "fds_idx t \<le> MAX_FD" "registered s p t" if "heap s p = Some t" for p t
    using state_ok_heap [OF ok that] by simp_all
  have bound: "p < brk s" if "p \<in> dom (heap s)" for p using that old by auto
  have "env_ok ?s' ep env" if "envs s ep = Some env" for ep env
    using env_ok_fresh [OF env_old(2) [OF that] bound, of "brk s + 1" ?t]
    by (simp add: with_new_env_def env_ok_def)
  moreover have "env_ok ?s' (brk s) \<lparr>task_count = 1, current = Some (brk s + 1), epfd = fd,
      task = [0 \<mapsto> brk s + 1]\<rparr>"
    by (auto simp: env_ok_def with_new_env_def zero_task_def NR_TASKS_def)
  ultimately have 1: "\<forall>ep env. envs ?s' ep = Some env \<longrightarrow> ep < brk ?s' \<and> env_ok ?s' ep env"
    using env_old by (auto simp: with_new_env_def split: if_splits) fastforce+
  have 2: "p < brk ?s' \<and> fds_idx t \<le> MAX_FD \<and> registered ?s' p t" if "heap ?s' p = Some t" for p t
  proof (cases "p = brk s + 1")
    case True
    with that show ?thesis by (auto simp: with_new_env_def registered_def zero_task_def)
  next
    case False
    with that have "heap s p = Some t" by (simp add: with_new_env_def)
    with old [OF this] env_old show ?thesis
      by (fastforce simp: with_new_env_def registered_def split: option.splits)
  qed
  have slot: "i < MAX_THREAD_NUM \<and> ep < brk s \<and> ep \<in> dom (envs s)"
    if "g_thread_env_arr s i = Some ep" for i ep
    using state_ok_slot [OF ok that] env_old by auto
  have 3: "i < MAX_THREAD_NUM \<and> ep \<in> dom (envs ?s')" if "g_thread_env_arr ?s' i = Some ep" for i ep
    using that slot free by (auto simp: with_new_env_def split: if_splits)
  have 4: "i = j" if "g_thread_env_arr ?s' i = Some ep" "g_thread_env_arr ?s' j = Some ep" for i j ep
    using that slot [of i ep] slot [of j ep] state_ok_slot_inj [OF ok, of i ep j]
    by (auto simp: with_new_env_def split: if_splits)
  have "dom (tq_elems (queues ?s')) = dom (heap ?s')"
    "dom (tq_heads (queues ?s')) = dom (envs ?s') \<times> {0..<int MAX_FD}"
    using state_ok_blocks [OF ok] by (auto simp: with_new_env_def)
  with 1 2 3 4 show ?thesis unfolding state_ok_def by blast
qed

lemma state_ok_get_thread_env [wf_intros]:
  assumes "co_get_thread_env K tid s = Inr (ep, s')" and "state_ok s"
  shows "state_ok s'"
  using assms
  by (cases rule: co_get_thread_env_cases) (auto intro: state_ok_new_env tid_slot_bound)

text \<open>The queues of a new environment are empty, those of the others are what they were.\<close>

lemma with_new_env_family:
  assumes ok: "state_ok s" and q: "tq_family (queues s) q"
  shows "tq_family (queues (with_new_env slot fd k s)) (\<lambda>h. if fst h = brk s then [] else q h)"
    (is "tq_family ?m ?q")
proof -
  have old: "fst h \<noteq> brk s" if "h \<in> dom (tq_heads (queues s))" for h
  proof -
    have "fst h \<in> dom (envs s)" using that state_ok_blocks(2) [OF ok] by auto
    then show ?thesis using state_ok_env [OF ok, of "fst h"] by auto
  qed
  have live: "p \<noteq> brk s + 1" if "h \<in> dom (tq_heads (queues s))" "p \<in> set (q h)" for h p
  proof -
    have "tq_rep (queues s) h (q h)" by (rule tq_family_rep [OF q that(1)])
    then have "p \<in> dom (tq_elems (queues s))"
      using that(2) tq_chain_allocated [of "tq_elems (queues s)" "HeadFirst h" "q h" None p]
      by (simp add: tq_rep_def)
    then obtain t where "heap s p = Some t" using state_ok_blocks(1) [OF ok] by auto
    then show ?thesis using state_ok_heap [OF ok] by fastforce
  qed
  have dm: "h \<in> dom (tq_heads (queues s))" if "h \<in> dom (tq_heads ?m)" "fst h \<noteq> brk s" for h
    using that by (auto simp: with_new_env_def)
  have rep: "tq_rep ?m h (?q h)" if h: "h \<in> dom (tq_heads ?m)" for h
  proof (cases "fst h = brk s")
    case True
    then have "tq_heads (queues s) h = None"
      using old [of h] by (cases "tq_heads (queues s) h") auto
    with True h show ?thesis
      by (auto simp: tq_rep_def with_new_env_def fresh_heads_def split: if_splits)
  next
    case False
    note h' = dm [OF h False]
    have "tq_rep (queues s) h (q h)" by (rule tq_family_rep [OF q h'])
    moreover have "tq_chain (tq_elems ?m) (HeadFirst h) (q h) None =
        tq_chain (tq_elems (queues s)) (HeadFirst h) (q h) None"
      using live [OF h'] by (intro tq_chain_cong) (auto simp: with_new_env_def)
    ultimately show ?thesis using False
      by (simp add: tq_rep_def with_new_env_def fresh_heads_def)
  qed
  have "set (?q h) \<inter> set (?q h') = {}"
    if "h \<in> dom (tq_heads ?m)" "h' \<in> dom (tq_heads ?m)" "h \<noteq> h'" for h h'
    using that dm [OF that(1)] dm [OF that(2)] tq_family_disjoint [OF q, of h h']
    by (cases "fst h = brk s \<or> fst h' = brk s") auto
  with rep show ?thesis unfolding tq_family_def by blast
qed

section \<open>A concrete process\<close>

text \<open>
  A concrete operating system and a concrete process. The witnesses of the properties apply them
  here, which shows that the hypotheses of the properties can hold together.
\<close>

text \<open>
  The kernel state counts the readings of the clock: every reading is one second later than the one
  before, up to second 1000. There is always memory, \<open>epoll_ctl\<close> succeeds, and descriptor 5 is always readable.
\<close>

definition ex_os :: "nat os" where
  "ex_os =
     \<lparr>os_arch = X86_64,
      os_gettimeofday = (\<lambda>k. (Some \<lparr>tv_sec = min (int k) 1000, tv_usec = 0\<rparr>, k + 1)),
      os_calloc = (\<lambda>k. (True, k)),
      os_epoll_create = (\<lambda>k. (3, k)),
      os_epoll_ctl = (\<lambda>_ _ _ _ k. (0, k)),
      os_epoll_wait = (\<lambda>_ k. (Some [\<lparr>ev_events = EPOLLIN, ev_fd = 5\<rparr>], k)),
      os_accept = (\<lambda>_ k. (7, k)),
      os_read = (\<lambda>_ n k. (int n, k)),
      os_write = (\<lambda>_ n k. (int n, k))\<rparr>"

text \<open>The process after the thread 1 has called the library for the first time.\<close>

definition ex0 :: "nat co_state" where
  "ex0 = with_new_env 1 3 0 (init_state 0)"

definition ex0_env :: thread_env_t where
  "ex0_env = \<lparr>task_count = 1, current = Some 1, epfd = 3, task = [0 \<mapsto> 1]\<rparr>"

definition ex0_main :: task_struct_t where
  "ex0_main = zero_task\<lparr>thread_env := Some 0\<rparr>"

lemma tid_slot_1: "tid_slot 1 = Inr 1"
  by (simp add: tid_slot_nonneg MAX_THREAD_NUM_def)

lemma ex0_ok: "state_ok ex0"
  unfolding ex0_def
  by (rule state_ok_new_env [OF state_ok_init]) (simp_all add: init_state_def MAX_THREAD_NUM_def)

lemma ex0_thread: "thread_has ex0 1 0"
  by (simp add: thread_has_def tid_slot_1 ex0_def with_new_env_def init_state_def)

lemma ex0_fields:
  "envs ex0 = [0 \<mapsto> ex0_env]" "heap ex0 = [1 \<mapsto> ex0_main]" "brk ex0 = 2" "kst ex0 = 0"
  by (simp_all add: ex0_def with_new_env_def init_state_def ex0_env_def ex0_main_def)

lemma ex0_created:
  "co_get_thread_env ex_os 1 (init_state 0) = Inr (0, ex0)"
proof -
  have "\<exists>ep s'. co_get_thread_env ex_os 1 (init_state 0) = Inr (ep, s')"
    by (simp add: co_get_thread_env_def tid_slot_1 init_state_def calloc_env_def calloc_task_def
        syscall_def ex_os_def nonnull_def mod_env_def mod_task_def get_env_def get_task_def
        put_elem_def init_queues_heads dom_def)
  then obtain ep s' where r: "co_get_thread_env ex_os 1 (init_state 0) = Inr (ep, s')" by auto
  obtain fd k where "ep = brk (init_state (0 :: nat))" "s' = with_new_env 1 fd k (init_state 0)"
    using co_get_thread_env_new [OF tid_slot_1 _ r] by (auto simp: init_state_def)
  then show ?thesis
    using r by (simp add: co_get_thread_env_def tid_slot_1 init_state_def calloc_env_def calloc_task_def
        syscall_def ex_os_def nonnull_def mod_env_def mod_task_def get_env_def get_task_def
        put_elem_def init_queues_heads dom_def ex0_def with_new_env_def zero_env_def zero_task_def)
qed

lemma ex0_queues: "tq_family (queues ex0) (\<lambda>_. [])"
proof -
  have "tq_family (queues (init_state 0)) (\<lambda>_. [])" by (simp add: tq_family_def init_state_def)
  from with_new_env_family [OF state_ok_init this] show ?thesis
    unfolding ex0_def by (simp cong: if_cong)
qed

lemma ex0_heads: "(0, fd) \<in> dom (tq_heads (queues ex0)) \<longleftrightarrow> 0 \<le> fd \<and> fd < int MAX_FD"
  by (simp add: ex0_def with_new_env_def init_state_def)

section \<open>The first call and the next ones\<close>

text \<open>
  co_get_thread_env returns the environment of the thread: an existing one unchanged, or a
  fresh one with a runnable main coroutine at index 0 and empty queues; a second call returns
  the same one and changes nothing.
\<close>

lemma thread_env_created_once:
  assumes "state_ok s" and "tq_family (queues s) q" and "co_get_thread_env K tid s = Inr (ep, s')"
  shows "state_ok s' \<and> co_get_thread_env K tid s' = Inr (ep, s') \<and>
    (s' = s \<or>
     (\<exists>env main t. envs s ep = None \<and> envs s' = (envs s)(ep \<mapsto> env) \<and> task_count env = 1 \<and>
        current env = Some main \<and> task env = [0 \<mapsto> main] \<and> heap s main = None \<and>
        heap s' = (heap s)(main \<mapsto> t) \<and> tsk_id t = 0 \<and> status t = COROUTINE_RUNNING \<and>
        tq_family (queues s') (\<lambda>h. if fst h = ep then [] else q h)))"
  using assms(3)
proof (cases rule: co_get_thread_env_cases)
  case known
  with assms(1,3) show ?thesis by auto
next
  case (created slot fd k)
  have free: "envs s (brk s) = None" "heap s (brk s + 1) = None"
  proof -
    show "envs s (brk s) = None"
      using state_ok_env [OF assms(1), of "brk s"] by (cases "envs s (brk s)") auto
    show "heap s (brk s + 1) = None"
      using state_ok_heap [OF assms(1), of "brk s + 1"] by (cases "heap s (brk s + 1)") auto
  qed
  have "thread_has s' tid ep" by (rule co_get_thread_env_has [OF assms(3)])
  moreover have "state_ok s'" by (rule state_ok_get_thread_env [OF assms(3,1)])
  moreover have "tq_family (queues s') (\<lambda>h. if fst h = ep then [] else q h)"
    using with_new_env_family [OF assms(1,2)] created by simp
  moreover have "\<exists>env main t. envs s ep = None \<and> envs s' = (envs s)(ep \<mapsto> env) \<and> task_count env = 1 \<and>
        current env = Some main \<and> task env = [0 \<mapsto> main] \<and> heap s main = None \<and>
        heap s' = (heap s)(main \<mapsto> t) \<and> tsk_id t = 0 \<and> status t = COROUTINE_RUNNING"
    unfolding created
    by (intro exI [of _ "\<lparr>task_count = 1, current = Some (brk s + 1), epfd = fd, task = [0 \<mapsto> brk s + 1]\<rparr>"]
        exI [of _ "brk s + 1"] exI [of _ "zero_task\<lparr>thread_env := Some (brk s)\<rparr>"])
      (use free in \<open>simp add: with_new_env_def zero_task_def\<close>)
  ultimately show ?thesis by (auto intro: thread_has_get)
qed

text \<open>
  Two threads whose ids are equal modulo MAX_THREAD_NUM share one environment.
\<close>

lemma threads_share_env:
  assumes "thread_has s tid ep" and "0 \<le> tid" and "0 \<le> tid'"
    and "tid' mod int MAX_THREAD_NUM = tid mod int MAX_THREAD_NUM"
  shows "co_get_thread_env K tid' s = Inr (ep, s)"
proof -
  have "nat tid' mod MAX_THREAD_NUM = nat tid mod MAX_THREAD_NUM"
    using assms(2-4) nat_mod_distrib [of tid "int MAX_THREAD_NUM"]
      nat_mod_distrib [of tid' "int MAX_THREAD_NUM"] by simp
  with assms(1-3) have "thread_has s tid' ep" by (simp add: thread_has_def tid_slot_nonneg)
  then show ?thesis by (rule thread_has_get)
qed

end
