(* ===== verification/Ring.thy ===== *)
theory Ring
  imports CoPrelude
begin

text \<open>
  The order in which the scheduler looks at its table: around the ring of indices, starting after
  the current one. \<open>ring_next\<close> is the reference definition that \<open>pick\<close> is compared with, and the
  locale \<open>round_robin\<close> states its contract (the nearest runnable index is chosen) and derives
  that no index that stays runnable is passed over.
\<close>

definition ring_list :: "nat \<Rightarrow> nat \<Rightarrow> nat list" where
  "ring_list N c = map (\<lambda>k. (c + k) mod N) [1..<N]"

definition ring_next :: "nat \<Rightarrow> nat \<Rightarrow> (nat \<Rightarrow> bool) \<Rightarrow> nat option" where
  "ring_next N c R = find R (ring_list N c)"

text \<open>The number of steps forward from \<open>c\<close> to \<open>j\<close> around a ring of \<open>N\<close>.\<close>

definition ring_dist :: "nat \<Rightarrow> nat \<Rightarrow> nat \<Rightarrow> nat" where
  "ring_dist N c j = (if c \<le> j then j - c else j + N - c)"

lemma ring_dist_bound: "c < N \<Longrightarrow> j < N \<Longrightarrow> ring_dist N c j < N"
  by (auto simp: ring_dist_def)

lemma ring_dist_zero: "c < N \<Longrightarrow> j < N \<Longrightarrow> ring_dist N c j = 0 \<longleftrightarrow> j = c"
  by (auto simp: ring_dist_def)

lemma ring_dist_step:
  "c < N \<Longrightarrow> i < N \<Longrightarrow> j < N \<Longrightarrow> ring_dist N c i \<le> ring_dist N c j \<Longrightarrow>
     ring_dist N i j = ring_dist N c j - ring_dist N c i"
  by (auto simp: ring_dist_def split: if_splits)

lemma ring_dist_mod: "c < N \<Longrightarrow> k < N \<Longrightarrow> ring_dist N c ((c + k) mod N) = k"
  by (auto simp: ring_dist_def mod_if)

lemma mod_ring_dist: "c < N \<Longrightarrow> j < N \<Longrightarrow> (c + ring_dist N c j) mod N = j"
  by (auto simp: ring_dist_def mod_if)

lemma ring_next_None:
  assumes "c < N"
  shows "ring_next N c R = None \<longleftrightarrow> (\<forall>j < N. j \<noteq> c \<longrightarrow> \<not> R j)"
proof -
  have "j \<in> set (ring_list N c) \<longleftrightarrow> j < N \<and> j \<noteq> c" for j
  proof
    assume "j \<in> set (ring_list N c)"
    then obtain k where k: "j = (c + k) mod N" "1 \<le> k" "k < N" by (auto simp: ring_list_def)
    then have "ring_dist N c j = k" using assms ring_dist_mod by simp
    with k assms show "j < N \<and> j \<noteq> c" by (auto simp: ring_dist_def)
  next
    assume j: "j < N \<and> j \<noteq> c"
    then have "ring_dist N c j \<in> {1..<N}"
      using assms ring_dist_bound [of c N j] ring_dist_zero [of c N j] by auto
    moreover have "j = (c + ring_dist N c j) mod N" using j assms by (simp add: mod_ring_dist)
    ultimately show "j \<in> set (ring_list N c)" unfolding ring_list_def by auto
  qed
  then show ?thesis by (auto simp: ring_next_def find_None_iff)
qed

lemma ring_next_Some:
  assumes "c < N" and "ring_next N c R = Some i"
  shows "i < N \<and> i \<noteq> c \<and> R i \<and> (\<forall>j < N. j \<noteq> c \<longrightarrow> R j \<longrightarrow> ring_dist N c i \<le> ring_dist N c j)"
proof -
  obtain n where n: "n < N - 1" "R ((c + Suc n) mod N)" "i = (c + Suc n) mod N"
    and least: "\<And>m. m < n \<Longrightarrow> \<not> R ((c + Suc m) mod N)"
    using assms(2) by (auto simp: ring_next_def ring_list_def find_Some_iff)
  have d: "ring_dist N c i = Suc n" using ring_dist_mod [OF assms(1), of "Suc n"] n by simp
  have "ring_dist N c i \<le> ring_dist N c j" if j: "j < N" "j \<noteq> c" "R j" for j
  proof (rule ccontr)
    assume "\<not> ring_dist N c i \<le> ring_dist N c j"
    moreover obtain m where "ring_dist N c j = Suc m"
      using ring_dist_zero [OF assms(1) j(1)] j(2) by (cases "ring_dist N c j") auto
    ultimately show False
      using d least [of m] mod_ring_dist [OF assms(1) j(1)] j(3) by simp
  qed
  moreover have "i < N" "i \<noteq> c" using n d assms(1) ring_dist_zero [of c N i] by auto
  ultimately show ?thesis using n by blast
qed

section \<open>Round robin\<close>

locale round_robin =
  fixes N :: nat
    and nxt :: "nat \<Rightarrow> (nat \<Rightarrow> bool) \<Rightarrow> nat option"
  assumes nxt_Some: "c < N \<Longrightarrow> nxt c R = Some i \<Longrightarrow>
      i < N \<and> i \<noteq> c \<and> R i \<and> (\<forall>j < N. j \<noteq> c \<longrightarrow> R j \<longrightarrow> ring_dist N c i \<le> ring_dist N c j)"
    and nxt_None: "c < N \<Longrightarrow> nxt c R = None \<Longrightarrow> \<forall>j < N. j \<noteq> c \<longrightarrow> \<not> R j"
begin

text \<open>Each choice brings the turn of a runnable index \<open>j\<close> closer.\<close>

lemma closer:
  assumes "c < N" and "j < N" and "R j" and "c \<noteq> j"
  obtains i where "nxt c R = Some i" and "i < N" and "ring_dist N i j < ring_dist N c j"
proof -
  obtain i where i: "nxt c R = Some i"
    using nxt_None [OF assms(1), of R] assms by (cases "nxt c R") auto
  note s = nxt_Some [OF assms(1) i]
  have "ring_dist N c i \<le> ring_dist N c j" using s assms by auto
  moreover have "0 < ring_dist N c i"
    using s ring_dist_zero [OF assms(1), of i] by auto
  ultimately have "ring_dist N i j < ring_dist N c j"
    using ring_dist_step [OF assms(1) _ assms(2), of i] s by auto
  with i s that show thesis by blast
qed

text \<open>
  A sequence of turns: the next current index is the chosen one, or the same one when there is
  no choice. An index that is runnable at every turn becomes current within one round.
\<close>

lemma no_starvation:
  assumes "cur 0 < N" and "j < N"
    and "\<And>n. cur (Suc n) = (case nxt (cur n) (R n) of None \<Rightarrow> cur n | Some i \<Rightarrow> i)"
    and "\<And>n. R n j"
  shows "\<exists>m < N. cur m = j"
proof -
  have "\<exists>m \<le> ring_dist N (cur k) j. cur (k + m) = j" if "cur k < N" for k
    using that
  proof (induction "ring_dist N (cur k) j" arbitrary: k rule: less_induct)
    case less
    show ?case
    proof (cases "cur k = j")
      case True
      then show ?thesis by auto
    next
      case False
      obtain i where i: "nxt (cur k) (R k) = Some i" "i < N"
        "ring_dist N i j < ring_dist N (cur k) j"
        using closer [OF less.prems assms(2), where R = "R k"] assms(4) False by blast
      then have "cur (Suc k) = i" using assms(3) [of k] by simp
      with less.hyps [of "Suc k"] i obtain m where "m \<le> ring_dist N i j" "cur (Suc k + m) = j"
        by auto
      with i(3) show ?thesis by (intro exI [of _ "Suc m"]) auto
    qed
  qed
  from this [OF assms(1)] obtain m where "m \<le> ring_dist N (cur 0) j" "cur m = j" by auto
  with ring_dist_bound [OF assms(1,2)] show ?thesis by (intro exI [of _ m]) simp
qed

end

interpretation rr: round_robin N "ring_next N" for N
  by unfold_locales (auto simp: ring_next_None dest: ring_next_Some)

end
