(* ===== verification/Sched.thy ===== *)
theory Sched
  imports ThreadEnv Ring
begin

text \<open>
  The scheduler (\<open>src/sched.c\<close>): the millisecond clock, waking the sleepers, the search for the
  next runnable coroutine around the table, the switch of the current coroutine and
  \<open>co_sleep\<close>. The \<open>goto repeat\<close> of \<open>pick\<close> is a loop that need not end; its model is a
  \<open>partial_function\<close> whose value \<open>None\<close> is "never returns", reported as the fault \<open>Hang\<close>.
\<close>

section \<open>The operations\<close>

definition getmstime :: "'k os \<Rightarrow> 'k co_state \<Rightarrow> fault + (32 word \<times> 'k co_state)" where
  "getmstime K s =
     (case syscall (os_gettimeofday K) s of
        (None, s) \<Rightarrow> Inl (Exit (-1))
      | (Some tv, s) \<Rightarrow> Inr (word_of_int (tv_sec tv * 1000 + tv_usec tv sdiv 1000), s))"

text \<open>\<open>task[i]\<close> with its control block, when the entry is not NULL.\<close>

definition task_at ::
  "envp \<Rightarrow> nat \<Rightarrow> 'k co_state \<Rightarrow> fault + (taskp \<times> task_struct_t) option" where
  "task_at ep i s =
     bnd (get_env ep s) (\<lambda>env.
     case task env i of
       None \<Rightarrow> Inr None
     | Some p \<Rightarrow> bnd (get_task p s) (\<lambda>t. Inr (Some (p, t))))"

text \<open>The first loop of \<open>pick\<close>: every sleeper whose time is over becomes runnable.\<close>

definition wake_one :: "'k os \<Rightarrow> envp \<Rightarrow> nat \<Rightarrow> 'k co_state \<Rightarrow> fault + 'k co_state" where
  "wake_one K ep i s =
     bnd (task_at ep i s) (\<lambda>e.
     case e of
       None \<Rightarrow> Inr s
     | Some (p, t) \<Rightarrow>
         if status t = COROUTINE_SLEEP
         then bnd (getmstime K s) (\<lambda>(now, s).
              if wakeuptime t < now
              then mod_task p (\<lambda>t. t\<lparr>status := COROUTINE_RUNNING\<rparr>) s
              else Inr s)
         else Inr s)"

definition wake_sleepers :: "'k os \<Rightarrow> envp \<Rightarrow> 'k co_state \<Rightarrow> fault + 'k co_state" where
  "wake_sleepers K ep = foldE (wake_one K ep) [0..<NR_TASKS]"

text \<open>
  The inner \<open>while(1)\<close>: the next runnable entry after \<open>i\<close> around the table, or \<open>None\<close> when the
  search is back at \<open>current_id\<close>.
\<close>

partial_function (option) scan_ring ::
  "envp \<Rightarrow> 'k co_state \<Rightarrow> nat \<Rightarrow> nat \<Rightarrow> (fault + taskp option) option" where
  "scan_ring ep s current_id i =
     (let i = (i + 1) mod NR_TASKS in
      if i = current_id then Some (Inr None)
      else
        (case task_at ep i s of
           Inl f \<Rightarrow> Some (Inl f)
         | Inr None \<Rightarrow> scan_ring ep s current_id i
         | Inr (Some (p, t)) \<Rightarrow>
             if status t = COROUTINE_RUNNING then Some (Inr (Some p))
             else scan_ring ep s current_id i))"

text \<open>From the label \<open>repeat\<close> on.\<close>

partial_function (option) pick_loop ::
  "'k os \<Rightarrow> envp \<Rightarrow> taskp \<Rightarrow> nat \<Rightarrow> 'k co_state \<Rightarrow> (fault + (taskp \<times> 'k co_state)) option" where
  "pick_loop K ep cur current_id s =
     (case wake_sleepers K ep s of
        Inl f \<Rightarrow> Some (Inl f)
      | Inr s \<Rightarrow>
          (case scan_ring ep s current_id current_id of
             None \<Rightarrow> None
           | Some (Inl f) \<Rightarrow> Some (Inl f)
           | Some (Inr (Some next)) \<Rightarrow> Some (Inr (next, s))
           | Some (Inr None) \<Rightarrow>
               (case get_task cur s of
                  Inl f \<Rightarrow> Some (Inl f)
                | Inr t \<Rightarrow>
                    if status t = COROUTINE_RUNNING then Some (Inr (cur, s))
                    else pick_loop K ep cur current_id s)))"

definition pick :: "'k os \<Rightarrow> int \<Rightarrow> 'k co_state \<Rightarrow> fault + (taskp \<times> 'k co_state)" where
  "pick K tid s =
     bnd (co_get_thread_env K tid s) (\<lambda>(ep, s).
     bnd (get_env ep s) (\<lambda>env.
     bnd (nonnull (current env)) (\<lambda>cur.
     bnd (get_task cur s) (\<lambda>t.
     case pick_loop K ep cur (tsk_id t) s of
       None \<Rightarrow> Inl Hang
     | Some r \<Rightarrow> r))))"

text \<open>
  \<open>co_switch_to\<close>: afterwards the thread runs \<open>current\<close>. The exchange of registers and stacks
  (\<open>switch_to\<close>) is the subject of the theory \<open>Switch\<close>.
\<close>

definition co_switch_to :: "taskp \<Rightarrow> 'k co_state \<Rightarrow> fault + 'k co_state" where
  "co_switch_to next s =
     bnd (get_task next s) (\<lambda>t.
     bnd (nonnull (thread_env t)) (\<lambda>ep.
     bnd (get_env ep s) (\<lambda>env.
     if current env = Some next then Inr s
     else mod_env ep (\<lambda>env. env\<lparr>current := Some next\<rparr>) s)))"

definition schedule :: "'k os \<Rightarrow> int \<Rightarrow> 'k co_state \<Rightarrow> fault + 'k co_state" where
  "schedule K tid s = bnd (pick K tid s) (\<lambda>(next, s). co_switch_to next s)"

text \<open>\<open>1000*seconds\<close> is a product of two \<open>int\<close>s; the sum is unsigned and wraps around.\<close>

definition co_sleep :: "'k os \<Rightarrow> int \<Rightarrow> int \<Rightarrow> 'k co_state \<Rightarrow> fault + 'k co_state" where
  "co_sleep K tid seconds s =
     bnd (co_get_thread_env K tid s) (\<lambda>(ep, s).
     bnd (getmstime K s) (\<lambda>(now, s).
     if \<not> fits_int (1000 * seconds) then Inl SignedOverflow else
     bnd (get_env ep s) (\<lambda>env.
     bnd (nonnull (current env)) (\<lambda>cur.
     bnd (mod_task cur (\<lambda>t. t\<lparr>wakeuptime := now + word_of_int (1000 * seconds),
                            status := COROUTINE_SLEEP\<rparr>) s) (\<lambda>s.
     schedule K tid s)))))"

section \<open>The clock\<close>

text \<open>
  The kernel state after \<open>n\<close> readings of the clock, and the \<open>n\<close>-th reading in milliseconds.
\<close>

fun clock_after :: "'k os \<Rightarrow> 'k \<Rightarrow> nat \<Rightarrow> 'k" where
  "clock_after K k 0 = k"
| "clock_after K k (Suc n) = clock_after K (snd (os_gettimeofday K k)) n"

definition ms_at :: "'k os \<Rightarrow> 'k \<Rightarrow> nat \<Rightarrow> 32 word option" where
  "ms_at K k n =
     map_option (\<lambda>tv. word_of_int (tv_sec tv * 1000 + tv_usec tv sdiv 1000))
       (fst (os_gettimeofday K (clock_after K k n)))"

lemma clock_after_add: "clock_after K (clock_after K k n) m = clock_after K k (n + m)"
  by (induction n arbitrary: k) auto

lemma ms_at_after: "ms_at K (clock_after K k n) m = ms_at K k (n + m)"
  by (simp add: ms_at_def clock_after_add)

lemma getmstime_eq:
  "getmstime K s =
     (case ms_at K (kst s) 0 of
        None \<Rightarrow> Inl (Exit (-1))
      | Some now \<Rightarrow> Inr (now, s\<lparr>kst := clock_after K (kst s) 1\<rparr>))"
  by (simp add: getmstime_def ms_at_def syscall_def split: prod.splits option.splits)

section \<open>Waking the sleepers\<close>

text \<open>
  What \<open>n\<close> readings of the clock may have done: some sleepers of the environment were made
  runnable, each because a reading was past its wake-up time; nothing else changed.
\<close>

definition woken :: "'k os \<Rightarrow> envp \<Rightarrow> nat \<Rightarrow> 'k co_state \<Rightarrow> 'k co_state \<Rightarrow> bool" where
  "woken K ep n s s' \<longleftrightarrow>
     envs s' = envs s \<and> g_thread_env_arr s' = g_thread_env_arr s \<and> queues s' = queues s \<and>
     brk s' = brk s \<and> kst s' = clock_after K (kst s) n \<and>
     dom (heap s') = dom (heap s) \<and>
     (\<forall>p t. heap s p = Some t \<longrightarrow>
        heap s' p = Some t \<or>
        (thread_env t = Some ep \<and> status t = COROUTINE_SLEEP \<and>
         heap s' p = Some (t\<lparr>status := COROUTINE_RUNNING\<rparr>) \<and>
         (\<exists>j < n. \<exists>now. ms_at K (kst s) j = Some now \<and> wakeuptime t < now)))"

lemma woken_refl: "woken K ep 0 s s"
  by (simp add: woken_def)

lemma woken_taskE:
  assumes "woken K ep n s s'" and "heap s p = Some t"
  obtains (same) "heap s' p = Some t"
    | (woke) "thread_env t = Some ep" "status t = COROUTINE_SLEEP"
        "heap s' p = Some (t\<lparr>status := COROUTINE_RUNNING\<rparr>)"
        "\<exists>j < n. \<exists>now. ms_at K (kst s) j = Some now \<and> wakeuptime t < now"
  using assms unfolding woken_def by blast

lemma woken_trans:
  assumes 1: "woken K ep n s s'" and 2: "woken K ep m s' s''"
  shows "woken K ep (n + m) s s''"
proof -
  have k: "kst s' = clock_after K (kst s) n" using 1 by (simp add: woken_def)
  have "heap s'' p = Some t \<or>
      (thread_env t = Some ep \<and> status t = COROUTINE_SLEEP \<and>
       heap s'' p = Some (t\<lparr>status := COROUTINE_RUNNING\<rparr>) \<and>
       (\<exists>j < n + m. \<exists>now. ms_at K (kst s) j = Some now \<and> wakeuptime t < now))"
    if t: "heap s p = Some t" for p t
  proof (cases "heap s' p = Some t")
    case True
    then have "heap s'' p = Some t \<or>
      (thread_env t = Some ep \<and> status t = COROUTINE_SLEEP \<and>
       heap s'' p = Some (t\<lparr>status := COROUTINE_RUNNING\<rparr>) \<and>
       (\<exists>j < m. \<exists>now. ms_at K (kst s) (n + j) = Some now \<and> wakeuptime t < now))"
      using 2 by (simp add: woken_def k ms_at_after)
    then show ?thesis using nat_add_left_cancel_less by blast
  next
    case False
    with 1 t have w: "thread_env t = Some ep" "status t = COROUTINE_SLEEP"
        "heap s' p = Some (t\<lparr>status := COROUTINE_RUNNING\<rparr>)"
        "\<exists>j < n. \<exists>now. ms_at K (kst s) j = Some now \<and> wakeuptime t < now"
      by (auto simp: woken_def)
    from 2 w(3) have "heap s'' p = Some (t\<lparr>status := COROUTINE_RUNNING\<rparr>)"
      by (rule woken_taskE) simp_all
    with w show ?thesis using trans_less_add1 by blast
  qed
  with 1 2 show ?thesis by (simp add: woken_def clock_after_add)
qed

lemma woken_same_tasks:
  assumes "woken K ep n s s'"
  shows "same_tasks s s'"
proof -
  have "tsk_id t' = tsk_id t \<and> thread_env t' = thread_env t \<and>
      (fds_idx t \<le> MAX_FD \<longrightarrow> fds_idx t' \<le> MAX_FD)"
    if "heap s p = Some t" "heap s' p = Some t'" for p t t'
    using assms that(1) by (rule woken_taskE) (use that(2) in simp_all)
  moreover have "envs s' = envs s" "g_thread_env_arr s' = g_thread_env_arr s" "brk s' = brk s"
      "same_blocks (queues s) (queues s')" "dom (heap s') = dom (heap s)"
    using assms by (simp_all add: woken_def)
  ultimately show ?thesis unfolding same_tasks_def by blast
qed

lemma woken_state_ok [wf_intros]: "woken K ep n s s' \<Longrightarrow> state_ok s \<Longrightarrow> state_ok s'"
  by (rule state_ok_same_tasks [OF woken_same_tasks])

lemma task_at_ok:
  assumes "state_ok s" and "envs s ep = Some env"
  shows "task_at ep i s = Inr (map_option (\<lambda>p. (p, the (heap s p))) (task env i))"
  using assms
  by (auto simp: task_at_def get_env_def get_task_def split: option.splits elim: state_ok_entry)

lemma wake_one_cases:
  assumes "state_ok s" and "envs s ep = Some env"
  shows "wake_one K ep i s =
    (case task env i of
       None \<Rightarrow> Inr s
     | Some p \<Rightarrow>
         if status (the (heap s p)) \<noteq> COROUTINE_SLEEP then Inr s
         else (case ms_at K (kst s) 0 of
                 None \<Rightarrow> Inl (Exit (-1))
               | Some now \<Rightarrow> Inr (s\<lparr>kst := clock_after K (kst s) 1,
                   heap := (if wakeuptime (the (heap s p)) < now
                     then (heap s)(p \<mapsto> (the (heap s p))\<lparr>status := COROUTINE_RUNNING\<rparr>)
                     else heap s)\<rparr>)))"
  using assms
  by (auto simp: wake_one_def task_at_ok getmstime_eq mod_task_def get_task_def
      split: option.splits elim: state_ok_entry)

lemma wake_one_woken:
  assumes ok: "state_ok s" "envs s ep = Some env" and w: "wake_one K ep i s = Inr s'"
  shows "\<exists>n. woken K ep n s s' \<and>
    (\<forall>p t. task env i = Some p \<longrightarrow> heap s p = Some t \<longrightarrow> status t = COROUTINE_SLEEP \<longrightarrow>
       n = 1 \<and> (\<exists>now. ms_at K (kst s) 0 = Some now \<and>
         heap s' p = Some (if wakeuptime t < now then t\<lparr>status := COROUTINE_RUNNING\<rparr> else t)))"
proof (cases "task env i")
  case None
  with w show ?thesis by (auto simp: wake_one_cases [OF ok] intro: woken_refl)
next
  case (Some p)
  with state_ok_entry [OF ok] obtain t where t: "heap s p = Some t" "thread_env t = Some ep"
    by metis
  show ?thesis
  proof (cases "status t = COROUTINE_SLEEP")
    case True
    with w Some t obtain now where "ms_at K (kst s) 0 = Some now"
      by (auto simp: wake_one_cases [OF ok] split: option.splits)
    with w Some t True show ?thesis
      by (intro exI [of _ 1])
        (auto simp: wake_one_cases [OF ok] woken_def insert_absorb split: if_splits)
  next
    case False
    with w Some t show ?thesis by (auto simp: wake_one_cases [OF ok] intro: woken_refl)
  qed
qed

lemma wake_one_others:
  assumes "state_ok s" and "envs s ep = Some env" and "wake_one K ep i s = Inr s'"
    and "heap s p = Some t" and "tsk_id t \<noteq> i"
  shows "heap s' p = Some t"
  using assms(3-) state_ok_entry [OF assms(1,2), of i]
  by (fastforce simp: wake_one_cases [OF assms(1,2)] split: option.splits if_splits)

lemma wake_loop:
  assumes "state_ok s" and "envs s ep = Some env" and "distinct xs"
    and "foldE (wake_one K ep) xs s = Inr s'"
  shows "\<exists>n. woken K ep n s s' \<and>
    (\<forall>p t. heap s p = Some t \<longrightarrow> tsk_id t \<notin> set xs \<longrightarrow> heap s' p = Some t) \<and>
    (\<forall>i p t. i \<in> set xs \<longrightarrow> task env i = Some p \<longrightarrow> heap s p = Some t \<longrightarrow>
       status t = COROUTINE_SLEEP \<longrightarrow>
       (\<exists>j < n. \<exists>now. ms_at K (kst s) j = Some now \<and>
          heap s' p = Some (if wakeuptime t < now then t\<lparr>status := COROUTINE_RUNNING\<rparr> else t)))"
  using assms
proof (induction xs arbitrary: s)
  case Nil
  then show ?case by (auto intro: woken_refl)
next
  case (Cons x xs)
  note ok = Cons.prems(1,2)
  obtain s1 where s1: "wake_one K ep x s = Inr s1" "foldE (wake_one K ep) xs s1 = Inr s'"
    using Cons.prems(4) by (auto elim: bnd_InrE)
  obtain m where m: "woken K ep m s s1" and x: "\<And>p t. task env x = Some p \<Longrightarrow> heap s p = Some t \<Longrightarrow>
      status t = COROUTINE_SLEEP \<Longrightarrow> m = 1 \<and> (\<exists>now. ms_at K (kst s) 0 = Some now \<and>
         heap s1 p = Some (if wakeuptime t < now then t\<lparr>status := COROUTINE_RUNNING\<rparr> else t))"
    using wake_one_woken [OF ok s1(1)] by blast
  have ok1: "state_ok s1" "envs s1 ep = Some env" "kst s1 = clock_after K (kst s) m"
    using woken_state_ok [OF m] ok m by (auto simp: woken_def)
  obtain n where n: "woken K ep n s1 s'"
    and others: "\<And>p t. heap s1 p = Some t \<Longrightarrow> tsk_id t \<notin> set xs \<Longrightarrow> heap s' p = Some t"
    and rest: "\<And>i p t. i \<in> set xs \<Longrightarrow> task env i = Some p \<Longrightarrow> heap s1 p = Some t \<Longrightarrow>
       status t = COROUTINE_SLEEP \<Longrightarrow>
       \<exists>j < n. \<exists>now. ms_at K (kst s1) j = Some now \<and>
          heap s' p = Some (if wakeuptime t < now then t\<lparr>status := COROUTINE_RUNNING\<rparr> else t)"
    using Cons.IH [OF ok1(1,2) _ s1(2)] Cons.prems(3) by auto
  have "heap s' p = Some t" if "heap s p = Some t" "tsk_id t \<notin> set (x # xs)" for p t
    using that others [of p t] wake_one_others [OF ok s1(1) that(1)] by simp
  moreover have "\<exists>j < m + n. \<exists>now. ms_at K (kst s) j = Some now \<and>
      heap s' p = Some (if wakeuptime t < now then t\<lparr>status := COROUTINE_RUNNING\<rparr> else t)"
    if i: "i \<in> set (x # xs)" "task env i = Some p" "heap s p = Some t" "status t = COROUTINE_SLEEP"
    for i p t
  proof -
    have id: "tsk_id t = i" using state_ok_entry [OF ok i(2)] i(3) by auto
    show ?thesis
    proof (cases "i = x")
      case True
      then obtain now where now: "m = 1" "ms_at K (kst s) 0 = Some now"
        "heap s1 p = Some (if wakeuptime t < now then t\<lparr>status := COROUTINE_RUNNING\<rparr> else t)"
        using x i by blast
      with others [OF now(3)] id True Cons.prems(3) show ?thesis
        by (intro exI [of _ 0] conjI exI [of _ now]) auto
    next
      case False
      then have "i \<in> set xs" using i by simp
      moreover have "heap s1 p = Some t" using wake_one_others [OF ok s1(1) i(3)] id False by simp
      ultimately obtain j now where "j < n" "ms_at K (kst s1) j = Some now"
        "heap s' p = Some (if wakeuptime t < now then t\<lparr>status := COROUTINE_RUNNING\<rparr> else t)"
        using rest i by blast
      then show ?thesis
        by (intro exI [of _ "m + j"] conjI exI [of _ now]) (simp_all add: ok1(3) ms_at_after)
    qed
  qed
  ultimately show ?case using woken_trans [OF m n] by blast
qed

lemma wake_sleepers_woken:
  assumes "state_ok s" and "envs s ep = Some env" and "wake_sleepers K ep s = Inr s'"
  obtains n where "woken K ep n s s'"
    and "\<And>i p t. task env i = Some p \<Longrightarrow> heap s p = Some t \<Longrightarrow> status t = COROUTINE_SLEEP \<Longrightarrow>
       \<exists>j < n. \<exists>now. ms_at K (kst s) j = Some now \<and>
          heap s' p = Some (if wakeuptime t < now then t\<lparr>status := COROUTINE_RUNNING\<rparr> else t)"
proof -
  have "i \<in> set [0..<NR_TASKS]" if "task env i = Some p" for i p
    using that state_ok_entry [OF assms(1,2) that] by auto
  note inside = this
  have run: "foldE (wake_one K ep) [0..<NR_TASKS] s = Inr s'"
    using assms(3) by (simp add: wake_sleepers_def)
  obtain n where n: "woken K ep n s s'"
    and all: "\<And>i p t. i \<in> set [0..<NR_TASKS] \<Longrightarrow> task env i = Some p \<Longrightarrow> heap s p = Some t \<Longrightarrow>
       status t = COROUTINE_SLEEP \<Longrightarrow>
       \<exists>j < n. \<exists>now. ms_at K (kst s) j = Some now \<and>
          heap s' p = Some (if wakeuptime t < now then t\<lparr>status := COROUTINE_RUNNING\<rparr> else t)"
    using wake_loop [OF assms(1,2) distinct_upt run] by blast
  show thesis by (rule that [OF n]) (use all inside in blast)
qed

lemma woken_sleeping_before:
  assumes "woken K ep n s s'" and "heap s' p = Some t" and "status t = COROUTINE_SLEEP"
  shows "heap s p = Some t"
proof -
  obtain t0 where t0: "heap s p = Some t0"
    using same_tasks_back [OF woken_same_tasks [OF assms(1)] assms(2)] by blast
  from assms(1) t0 have "t0 = t" by (rule woken_taskE) (use assms(2,3) in auto)
  with t0 show ?thesis by simp
qed

lemma wake_loop_fault:
  assumes "state_ok s" and "envs s ep = Some env"
    and "foldE (wake_one K ep) xs s = Inl f"
  shows "f = Exit (-1) \<and> (\<exists>j. ms_at K (kst s) j = None) \<and>
    (\<exists>i p t. task env i = Some p \<and> heap s p = Some t \<and> status t = COROUTINE_SLEEP)"
  using assms
proof (induction xs arbitrary: s)
  case Nil
  then show ?case by simp
next
  case (Cons x xs)
  note ok = Cons.prems(1,2)
  show ?case
  proof (cases "wake_one K ep x s")
    case (Inl e)
    obtain p where p: "task env x = Some p"
      using Inl by (auto simp: wake_one_cases [OF ok] split: option.splits)
    obtain t where t: "heap s p = Some t" by (rule state_ok_entry [OF ok p])
    have "status t = COROUTINE_SLEEP" "e = Exit (-1)" "ms_at K (kst s) 0 = None"
      using Inl p t by (auto simp: wake_one_cases [OF ok] split: option.splits if_splits)
    with p t Inl Cons.prems(3) show ?thesis by auto
  next
    case (Inr s1)
    then obtain m where m: "woken K ep m s s1" using wake_one_woken [OF ok] by blast
    then have s1: "state_ok s1" "envs s1 ep = Some env" "kst s1 = clock_after K (kst s) m"
      using woken_state_ok [OF m] ok by (auto simp: woken_def)
    have "foldE (wake_one K ep) xs s1 = Inl f" using Cons.prems(3) Inr by simp
    from Cons.IH [OF s1(1,2) this] show ?thesis
      unfolding s1(3) ms_at_after using woken_sleeping_before [OF m] by blast
  qed
qed

lemma wake_sleepers_fault:
  assumes "state_ok s" and "envs s ep = Some env" and "wake_sleepers K ep s = Inl f"
  shows "f = Exit (-1) \<and> (\<exists>j. ms_at K (kst s) j = None) \<and>
    (\<exists>i p t. task env i = Some p \<and> heap s p = Some t \<and> status t = COROUTINE_SLEEP)"
  using wake_loop_fault assms unfolding wake_sleepers_def by blast


section \<open>The search around the table\<close>

definition running_at :: "'k co_state \<Rightarrow> envp \<Rightarrow> nat \<Rightarrow> bool" where
  "running_at s ep i =
     (case task_at ep i s of
        Inr (Some (p, t)) \<Rightarrow> status t = COROUTINE_RUNNING
      | _ \<Rightarrow> False)"

lemma running_at_ok:
  assumes "state_ok s" and "envs s ep = Some env"
  shows "running_at s ep i \<longleftrightarrow>
    (\<exists>p t. task env i = Some p \<and> heap s p = Some t \<and> status t = COROUTINE_RUNNING)"
  using state_ok_entry [OF assms, of i]
  by (fastforce simp: running_at_def task_at_ok [OF assms] split: option.splits)

lemma scan_ring_step:
  assumes ok: "state_ok s" "envs s ep = Some env" and i: "(i + 1) mod NR_TASKS = j"
  shows "scan_ring ep s cid i =
    (if j = cid then Some (Inr None)
     else if running_at s ep j then Some (Inr (task env j))
     else scan_ring ep s cid j)"
  using i by (subst scan_ring.simps)
    (auto simp: running_at_def task_at_ok [OF ok] split: option.splits)

lemma scan_ring_find:
  assumes ok: "state_ok s" "envs s ep = Some env" and "cid < NR_TASKS" and "d < NR_TASKS"
  shows "scan_ring ep s cid ((cid + d) mod NR_TASKS) =
    Some (Inr (Option.bind
      (find (running_at s ep) (map (\<lambda>k. (cid + k) mod NR_TASKS) [Suc d..<NR_TASKS])) (task env)))"
  using assms(4)
proof (induction "NR_TASKS - d" arbitrary: d)
  case 0
  then show ?case by simp
next
  case (Suc n)
  let ?j = "(cid + Suc d) mod NR_TASKS"
  have j: "((cid + d) mod NR_TASKS + 1) mod NR_TASKS = ?j" by (simp add: mod_Suc_eq)
  show ?case
  proof (cases "Suc d = NR_TASKS")
    case True
    then have "?j = cid" using assms(3) by (simp add: mod_if)
    with True show ?thesis by (subst scan_ring_step [OF ok j]) simp
  next
    case False
    then have d: "Suc d < NR_TASKS" using Suc.prems by simp
    have "?j \<noteq> cid" using ring_dist_mod [OF assms(3) d] ring_dist_zero [OF assms(3,3)] by auto
    moreover have "[Suc d..<NR_TASKS] = Suc d # [Suc (Suc d)..<NR_TASKS]"
      using d by (rule upt_conv_Cons)
    moreover have "scan_ring ep s cid ?j = Some (Inr (Option.bind (find (running_at s ep)
        (map (\<lambda>k. (cid + k) mod NR_TASKS) [Suc (Suc d)..<NR_TASKS])) (task env)))"
      using Suc.hyps(2) d by (intro Suc.hyps(1)) auto
    ultimately show ?thesis by (subst scan_ring_step [OF ok j]) simp
  qed
qed

lemma scan_ring_ok:
  assumes "state_ok s" and "envs s ep = Some env" and "cid < NR_TASKS"
  shows "scan_ring ep s cid cid =
    Some (Inr (Option.bind (ring_next NR_TASKS cid (running_at s ep)) (task env)))"
  using scan_ring_find [OF assms, of 0] assms(3) by (simp add: ring_next_def ring_list_def)

section \<open>What \<open>pick\<close> returns\<close>

text \<open>
  The choice as a function of the table: the next runnable entry around the ring, else the current
  coroutine if it is runnable, else none.
\<close>

definition choice :: "'k co_state \<Rightarrow> envp \<Rightarrow> thread_env_t \<Rightarrow> nat \<Rightarrow> taskp option" where
  "choice s ep env cid =
     (case ring_next NR_TASKS cid (running_at s ep) of
        Some i \<Rightarrow> task env i
      | None \<Rightarrow> if running_at s ep cid then task env cid else None)"

text \<open>The current coroutine \<open>cur\<close> of the environment \<open>ep\<close>, with its control block.\<close>

definition is_current :: "'k co_state \<Rightarrow> envp \<Rightarrow> thread_env_t \<Rightarrow> taskp \<Rightarrow> task_struct_t \<Rightarrow> bool" where
  "is_current s ep env cur t \<longleftrightarrow>
     envs s ep = Some env \<and> current env = Some cur \<and> heap s cur = Some t"

lemma is_current_ok:
  assumes "state_ok s" and "is_current s ep env cur t"
  shows "tsk_id t < NR_TASKS \<and> task env (tsk_id t) = Some cur \<and> thread_env t = Some ep"
  using assms by (auto simp: is_current_def elim: state_ok_current)

lemma is_currentD:
  assumes "state_ok s" and "is_current s ep env cur t"
  shows "envs s ep = Some env" "current env = Some cur" "heap s cur = Some t"
    "tsk_id t < NR_TASKS" "task env (tsk_id t) = Some cur" "thread_env t = Some ep"
  using is_current_ok [OF assms] assms(2) by (simp_all add: is_current_def)

lemma choice_SomeD:
  assumes ok: "state_ok s" "envs s ep = Some env" and cid: "cid < NR_TASKS"
    and "choice s ep env cid = Some p"
  obtains i t where "task env i = Some p" and "heap s p = Some t" and "tsk_id t = i"
    and "status t = COROUTINE_RUNNING" and "thread_env t = Some ep" and "i < NR_TASKS"
proof -
  obtain i where i: "task env i = Some p" "running_at s ep i"
    using assms(4) ring_next_Some [OF cid] by (auto simp: choice_def split: option.splits if_splits)
  obtain t where t: "heap s p = Some t" "tsk_id t = i" "thread_env t = Some ep" "i < NR_TASKS"
    by (rule state_ok_entry [OF ok i(1)])
  with i have "status t = COROUTINE_RUNNING" by (simp add: running_at_ok [OF ok])
  with that i t show thesis by blast
qed

text \<open>One round of the loop, for any continuation \<open>again\<close> at the \<open>goto\<close>.\<close>

lemma pick_round:
  assumes ok: "state_ok s" "envs s ep = Some env" and cid: "cid < NR_TASKS"
    and cur: "task env cid = Some cur"
  shows "(case wake_sleepers K ep s of
        Inl f \<Rightarrow> Some (Inl f)
      | Inr s \<Rightarrow>
          (case scan_ring ep s cid cid of
             None \<Rightarrow> None
           | Some (Inl f) \<Rightarrow> Some (Inl f)
           | Some (Inr (Some next)) \<Rightarrow> Some (Inr (next, s))
           | Some (Inr None) \<Rightarrow>
               (case get_task cur s of
                  Inl f \<Rightarrow> Some (Inl f)
                | Inr t \<Rightarrow> if status t = COROUTINE_RUNNING then Some (Inr (cur, s)) else again s))) =
    (case wake_sleepers K ep s of
       Inl f \<Rightarrow> Some (Inl f)
     | Inr s1 \<Rightarrow> (case choice s1 ep env cid of Some p \<Rightarrow> Some (Inr (p, s1)) | None \<Rightarrow> again s1))"
proof (cases "wake_sleepers K ep s")
  case (Inl f)
  then show ?thesis by simp
next
  case (Inr s1)
  obtain n where n: "woken K ep n s s1" by (rule wake_sleepers_woken [OF ok Inr])
  have ok1: "state_ok s1" "envs s1 ep = Some env"
    using woken_state_ok [OF n ok(1)] ok(2) n by (auto simp: woken_def)
  obtain t where t: "heap s1 cur = Some t" by (rule state_ok_entry [OF ok1 cur])
  have run: "running_at s1 ep cid \<longleftrightarrow> status t = COROUTINE_RUNNING"
    using cur t by (simp add: running_at_ok [OF ok1])
  show ?thesis
  proof (cases "ring_next NR_TASKS cid (running_at s1 ep)")
    case None
    then show ?thesis
      using Inr cur t run by (simp add: scan_ring_ok [OF ok1 cid] choice_def get_task_def)
  next
    case (Some i)
    then have "running_at s1 ep i" using ring_next_Some [OF cid] by blast
    then obtain p where "task env i = Some p" by (auto simp: running_at_ok [OF ok1])
    with Some Inr show ?thesis by (simp add: scan_ring_ok [OF ok1 cid] choice_def)
  qed
qed

lemma pick_loop_step:
  assumes "state_ok s" and "envs s ep = Some env" and "cid < NR_TASKS" and "task env cid = Some cur"
  shows "pick_loop K ep cur cid s =
    (case wake_sleepers K ep s of
       Inl f \<Rightarrow> Some (Inl f)
     | Inr s1 \<Rightarrow>
         (case choice s1 ep env cid of
            Some p \<Rightarrow> Some (Inr (p, s1))
          | None \<Rightarrow> pick_loop K ep cur cid s1))"
  by (subst pick_loop.simps) (rule pick_round [OF assms])

text \<open>How \<open>pick\<close> can return: with the choice after some readings of the clock, or without a clock.\<close>

definition pick_outcome ::
  "'k os \<Rightarrow> envp \<Rightarrow> thread_env_t \<Rightarrow> nat \<Rightarrow> 'k co_state \<Rightarrow> fault + (taskp \<times> 'k co_state) \<Rightarrow> bool" where
  "pick_outcome K ep env cid s r \<longleftrightarrow>
     (case r of
        Inl f \<Rightarrow> f = Exit (-1) \<and> (\<exists>j. ms_at K (kst s) j = None) \<and>
          (\<exists>i p t. task env i = Some p \<and> heap s p = Some t \<and> status t = COROUTINE_SLEEP)
      | Inr (p, s') \<Rightarrow> (\<exists>n. woken K ep n s s') \<and> choice s' ep env cid = Some p)"

lemma pick_outcome_woken:
  assumes n: "woken K ep n s s1" and r: "pick_outcome K ep env cid s1 r"
  shows "pick_outcome K ep env cid s r"
proof (cases r)
  case (Inl f)
  have "kst s1 = clock_after K (kst s) n" using n by (simp add: woken_def)
  with r Inl obtain i p t j where o: "f = Exit (-1)" "ms_at K (kst s) (n + j) = None"
    "task env i = Some p" "heap s1 p = Some t" "status t = COROUTINE_SLEEP"
    by (auto simp: pick_outcome_def ms_at_after)
  have "heap s p = Some t" using woken_sleeping_before [OF n o(4,5)] .
  with o show ?thesis unfolding pick_outcome_def Inl sum.case by metis
next
  case (Inr ps)
  with r woken_trans [OF n] show ?thesis by (cases ps) (auto simp: pick_outcome_def)
qed

lemma pick_loop_outcome:
  fixes K :: "'k os"
  assumes ret: "pick_loop K ep cur cid s = Some r"
    and ok: "state_ok s" "envs s ep = Some env" and cid: "cid < NR_TASKS"
    and cur: "task env cid = Some cur"
  shows "pick_outcome K ep env cid s r"
proof -
  let ?P = "\<lambda>(K :: 'k os) ep cur cid s r. \<forall>env. state_ok s \<longrightarrow> envs s ep = Some env \<longrightarrow>
    task env cid = Some cur \<longrightarrow> cid < NR_TASKS \<longrightarrow> pick_outcome K ep env cid s r"
  have "?P K ep cur cid s r"
  proof (rule pick_loop.raw_induct [where P = ?P, OF _ ret], intro allI impI)
    fix again and K :: "'k os" and ep cur cid and s :: "'k co_state" and r env
    assume IH: "\<And>K ep cur cid s r. again K ep cur cid s = Some r \<Longrightarrow> ?P K ep cur cid s r"
      and ok: "state_ok s" "envs s ep = Some env" and cur: "task env cid = Some cur"
      and cid: "cid < NR_TASKS"
    assume "(case wake_sleepers K ep s of
        Inl f \<Rightarrow> Some (Inl f)
      | Inr s \<Rightarrow>
          (case scan_ring ep s cid cid of
             None \<Rightarrow> None
           | Some (Inl f) \<Rightarrow> Some (Inl f)
           | Some (Inr (Some next)) \<Rightarrow> Some (Inr (next, s))
           | Some (Inr None) \<Rightarrow>
               (case get_task cur s of
                  Inl f \<Rightarrow> Some (Inl f)
                | Inr t \<Rightarrow>
                    if status t = COROUTINE_RUNNING then Some (Inr (cur, s))
                    else again K ep cur cid s))) = Some r"
    then have eq: "(case wake_sleepers K ep s of
       Inl f \<Rightarrow> Some (Inl f)
     | Inr s1 \<Rightarrow> (case choice s1 ep env cid of
          Some p \<Rightarrow> Some (Inr (p, s1)) | None \<Rightarrow> again K ep cur cid s1)) = Some r"
      by (simp only: pick_round [OF ok cid cur])
    show "pick_outcome K ep env cid s r"
    proof (cases "wake_sleepers K ep s")
      case (Inl f)
      with eq have "r = Inl f" by simp
      with wake_sleepers_fault [OF ok Inl] show ?thesis by (simp add: pick_outcome_def)
    next
      case (Inr s1)
      obtain n where n: "woken K ep n s s1" by (rule wake_sleepers_woken [OF ok Inr])
      have ok1: "state_ok s1" "envs s1 ep = Some env"
        using woken_state_ok [OF n ok(1)] ok(2) n by (auto simp: woken_def)
      consider "again K ep cur cid s1 = Some r" | p where "choice s1 ep env cid = Some p" "r = Inr (p, s1)"
        using eq Inr by (cases "choice s1 ep env cid") simp_all
      then show ?thesis
      proof cases
        case 1
        with IH ok1 cur cid have "pick_outcome K ep env cid s1 r" by blast
        with n show ?thesis by (rule pick_outcome_woken)
      next
        case 2
        with n show ?thesis by (auto simp: pick_outcome_def)
      qed
    qed
  qed
  with ok cid cur show ?thesis by blast
qed

lemmas pick_loop_returns = pick_loop_outcome [unfolded pick_outcome_def]

lemma choice_None:
  assumes ok: "state_ok s" "envs s ep = Some env" and cid: "cid < NR_TASKS"
    and cur: "task env cid = Some cur" and none: "choice s ep env cid = None"
  shows "\<not> running_at s ep i"
proof
  assume run: "running_at s ep i"
  then obtain p where p: "task env i = Some p" by (auto simp: running_at_ok [OF ok])
  have i: "i < NR_TASKS" by (rule state_ok_entry [OF ok p])
  have "ring_next NR_TASKS cid (running_at s ep) = None"
  proof (rule ccontr)
    assume "ring_next NR_TASKS cid (running_at s ep) \<noteq> None"
    then obtain j where j: "ring_next NR_TASKS cid (running_at s ep) = Some j" by auto
    with ring_next_Some [OF cid j] obtain q where "task env j = Some q"
      by (auto simp: running_at_ok [OF ok])
    with j none show False by (simp add: choice_def)
  qed
  moreover have "\<not> running_at s ep cid" using none calculation cur by (auto simp: choice_def)
  ultimately show False using run i by (auto simp: ring_next_None [OF cid])
qed

lemma woken_running:
  assumes ok: "state_ok s" "envs s ep = Some env" and w: "woken K e n s s'" and "running_at s ep i"
  shows "running_at s' ep i"
proof -
  have ok': "state_ok s'" "envs s' ep = Some env"
    using woken_state_ok [OF w ok(1)] ok(2) w by (auto simp: woken_def)
  from assms(4) show ?thesis
    by (auto simp: running_at_ok [OF ok] running_at_ok [OF ok'] elim: woken_taskE [OF w])
qed

text \<open>
  The loop ends when some coroutine of the thread is runnable, and also when one sleeps and the
  clock passes its wake-up time for good.
\<close>

definition will_wake :: "'k os \<Rightarrow> 'k co_state \<Rightarrow> thread_env_t \<Rightarrow> nat \<Rightarrow> bool" where
  "will_wake K s env N \<longleftrightarrow>
     (\<exists>i p t. task env i = Some p \<and> heap s p = Some t \<and> status t = COROUTINE_SLEEP \<and>
        (\<forall>j \<ge> N. \<exists>now. ms_at K (kst s) j = Some now \<and> wakeuptime t < now))"

lemma pick_loop_terminates:
  assumes "state_ok s" and "envs s ep = Some env" and "cid < NR_TASKS" and "task env cid = Some cur"
    and "\<And>j. ms_at K (kst s) j \<noteq> None"
    and "(\<exists>i. running_at s ep i) \<or> will_wake K s env N"
  shows "\<exists>p s'. pick_loop K ep cur cid s = Some (Inr (p, s'))"
  using assms
proof (induction N arbitrary: s rule: less_induct)
  case (less N)
  note ok = less.prems(1,2) and cid = less.prems(3) and cur = less.prems(4)
  obtain s1 where s1: "wake_sleepers K ep s = Inr s1"
    using wake_sleepers_fault [OF ok, of K] less.prems(5) by (cases "wake_sleepers K ep s") auto
  obtain n where n: "woken K ep n s s1"
    and wake: "\<And>i p t. task env i = Some p \<Longrightarrow> heap s p = Some t \<Longrightarrow> status t = COROUTINE_SLEEP \<Longrightarrow>
       \<exists>j < n. \<exists>now. ms_at K (kst s) j = Some now \<and>
          heap s1 p = Some (if wakeuptime t < now then t\<lparr>status := COROUTINE_RUNNING\<rparr> else t)"
    by (rule wake_sleepers_woken [OF ok s1]) blast
  have ok1: "state_ok s1" "envs s1 ep = Some env" "kst s1 = clock_after K (kst s) n"
    using woken_state_ok [OF n ok(1)] ok(2) n by (auto simp: woken_def)
  show ?case
  proof (cases "choice s1 ep env cid")
    case (Some p)
    then show ?thesis by (simp add: pick_loop_step [OF ok cid cur] s1)
  next
    case None
    note idle = choice_None [OF ok1(1,2) cid cur None]
    then have "will_wake K s env N" using less.prems(6) woken_running [OF ok n] by blast
    then obtain i p t where t: "task env i = Some p" "heap s p = Some t" "status t = COROUTINE_SLEEP"
      and late: "\<And>j. j \<ge> N \<Longrightarrow> \<exists>now. ms_at K (kst s) j = Some now \<and> wakeuptime t < now"
      unfolding will_wake_def by blast
    obtain j now where j: "j < n" "ms_at K (kst s) j = Some now"
      "heap s1 p = Some (if wakeuptime t < now then t\<lparr>status := COROUTINE_RUNNING\<rparr> else t)"
      using wake [OF t] by blast
    have "\<not> wakeuptime t < now" using idle [of i] t(1) j(3) by (auto simp: running_at_ok [OF ok1(1,2)])
    with j have still: "heap s1 p = Some t" and "j < N" using late [of j] by (auto simp: not_less [symmetric])
    have "will_wake K s1 env (N - n)"
      unfolding will_wake_def ok1(3) ms_at_after using t(1,3) still late by fastforce
    moreover have "N - n < N" using j \<open>j < N\<close> by simp
    ultimately have "\<exists>p s'. pick_loop K ep cur cid s1 = Some (Inr (p, s'))"
      using less.IH [OF _ ok1(1,2) cid cur] less.prems(5) by (auto simp: ok1(3) ms_at_after)
    with None show ?thesis by (simp add: pick_loop_step [OF ok cid cur] s1)
  qed
qed

text \<open>With no runnable and no sleeping coroutine in the table the loop never ends.\<close>

lemma pick_loop_stuck:
  assumes ok: "state_ok s" "envs s ep = Some env" and cid: "cid < NR_TASKS"
    and cur: "task env cid = Some cur"
    and stuck: "\<And>i p t. task env i = Some p \<Longrightarrow> heap s p = Some t \<Longrightarrow>
      status t \<noteq> COROUTINE_RUNNING \<and> status t \<noteq> COROUTINE_SLEEP"
  shows "pick_loop K ep cur cid s = None"
proof (rule ccontr)
  assume "pick_loop K ep cur cid s \<noteq> None"
  then obtain r where r: "pick_loop K ep cur cid s = Some r" by auto
  note ret = pick_loop_returns [OF r ok cid cur]
  show False
  proof (cases r)
    case (Inl f)
    with ret stuck show False by auto
  next
    case (Inr ps)
    then obtain p s' n where ps: "ps = (p, s')" and n: "woken K ep n s s'"
      and ch: "choice s' ep env cid = Some p"
      using ret by (cases ps) auto
    have ok': "state_ok s'" "envs s' ep = Some env"
      using woken_state_ok [OF n ok(1)] ok(2) n by (auto simp: woken_def)
    obtain i t where t: "task env i = Some p" "heap s' p = Some t" "status t = COROUTINE_RUNNING"
      by (rule choice_SomeD [OF ok' cid ch])
    obtain t0 where t0: "heap s p = Some t0" by (rule state_ok_entry [OF ok t(1)])
    with stuck [OF t(1) t0] t show False by (auto elim: woken_taskE [OF n])
  qed
qed


section \<open>\<open>pick\<close>, \<open>schedule\<close> and \<open>co_sleep\<close>\<close>

lemma pick_eq:
  assumes "thread_has s tid ep" and "is_current s ep env c tc"
  shows "pick K tid s =
    (case pick_loop K ep c (tsk_id tc) s of None \<Rightarrow> Inl Hang | Some r \<Rightarrow> r)"
  using assms by (simp add: pick_def is_current_def get_env_def get_task_def nonnull_def)

lemma pick_choice:
  assumes ok: "state_ok s" and th: "thread_has s tid ep" and cur: "is_current s ep env c tc"
    and "pick K tid s = Inr (p, s')"
  obtains n where "woken K ep n s s'" and "choice s' ep env (tsk_id tc) = Some p"
proof -
  have c: "envs s ep = Some env" "tsk_id tc < NR_TASKS" "task env (tsk_id tc) = Some c"
    using is_current_ok [OF ok cur] cur by (auto simp: is_current_def)
  have "pick_loop K ep c (tsk_id tc) s = Some (Inr (p, s'))"
    using assms(4) by (simp add: pick_eq [OF th cur] split: option.splits)
  from pick_loop_returns [OF this ok c] that show thesis by auto
qed

lemma co_switch_to_eq:
  assumes "heap s p = Some t" and "thread_env t = Some ep" and "envs s ep = Some env"
  shows "co_switch_to p s = Inr (s\<lparr>envs := (envs s)(ep \<mapsto> env\<lparr>current := Some p\<rparr>)\<rparr>)"
proof (cases "current env = Some p")
  case True
  then have "env\<lparr>current := Some p\<rparr> = env" by simp
  with assms True show ?thesis
    by (simp add: co_switch_to_def get_task_def get_env_def nonnull_def map_upd_triv)
next
  case False
  with assms show ?thesis
    by (simp add: co_switch_to_def get_task_def get_env_def nonnull_def mod_env_def)
qed

text \<open>
  What a call of \<open>schedule\<close> does for the thread with environment \<open>ep\<close>: sleepers may wake, and the
  runnable coroutine \<open>p\<close> that \<open>choice\<close> names becomes current.
\<close>

definition rescheduled ::
  "'k os \<Rightarrow> envp \<Rightarrow> thread_env_t \<Rightarrow> nat \<Rightarrow> 'k co_state \<Rightarrow> 'k co_state \<Rightarrow> taskp \<Rightarrow> bool" where
  "rescheduled K ep env cid s s' p \<longleftrightarrow>
     (\<exists>n s1. woken K ep n s s1 \<and> choice s1 ep env cid = Some p \<and>
        s' = s1\<lparr>envs := (envs s1)(ep \<mapsto> env\<lparr>current := Some p\<rparr>)\<rparr>)"

lemma schedule_rescheduled:
  assumes ok: "state_ok s" and th: "thread_has s tid ep" and cur: "is_current s ep env c tc"
    and "schedule K tid s = Inr s'"
  obtains p where "rescheduled K ep env (tsk_id tc) s s' p"
proof -
  obtain p s1 where ps: "pick K tid s = Inr (p, s1)" "co_switch_to p s1 = Inr s'"
    using assms(4) by (auto simp: schedule_def elim!: bnd_InrE)
  obtain n where n: "woken K ep n s s1" and ch: "choice s1 ep env (tsk_id tc) = Some p"
    by (rule pick_choice [OF ok th cur ps(1)])
  have ok1: "state_ok s1" "envs s1 ep = Some env"
    using woken_state_ok [OF n ok] n cur by (auto simp: woken_def is_current_def)
  obtain t where "heap s1 p = Some t" "thread_env t = Some ep"
    using is_current_ok [OF ok cur] choice_SomeD [OF ok1 _ ch] by metis
  with ps(2) ok1(2) have "s' = s1\<lparr>envs := (envs s1)(ep \<mapsto> env\<lparr>current := Some p\<rparr>)\<rparr>"
    by (simp add: co_switch_to_eq)
  with n ch that show thesis unfolding rescheduled_def by blast
qed

lemma rescheduled_ok:
  assumes ok: "state_ok s" and cur: "is_current s ep env c tc"
    and r: "rescheduled K ep env (tsk_id tc) s s' p"
  shows "state_ok s' \<and> (\<exists>t. is_current s' ep (env\<lparr>current := Some p\<rparr>) p t \<and>
    status t = COROUTINE_RUNNING \<and> thread_env t = Some ep)"
proof -
  obtain n s1 where n: "woken K ep n s s1" and ch: "choice s1 ep env (tsk_id tc) = Some p"
    and s': "s' = s1\<lparr>envs := (envs s1)(ep \<mapsto> env\<lparr>current := Some p\<rparr>)\<rparr>"
    using r unfolding rescheduled_def by blast
  have ok1: "state_ok s1" "envs s1 ep = Some env"
    using woken_state_ok [OF n ok] n cur by (auto simp: woken_def is_current_def)
  obtain i t where t: "task env i = Some p" "heap s1 p = Some t" "status t = COROUTINE_RUNNING"
    "thread_env t = Some ep"
    using is_current_ok [OF ok cur] choice_SomeD [OF ok1 _ ch] by metis
  have "mod_env ep (\<lambda>env. env\<lparr>current := Some p\<rparr>) s1 = Inr s'"
    using ok1(2) by (simp add: mod_env_def get_env_def s')
  from state_ok_set_current [OF ok1(1) this ok1(2) t(1)] t s' show ?thesis
    by (simp add: is_current_def)
qed

lemma rescheduled_frame:
  assumes "rescheduled K ep env cid s s' p"
  shows "queues s' = queues s \<and> brk s' = brk s \<and> g_thread_env_arr s' = g_thread_env_arr s \<and>
    (\<forall>e. e \<noteq> ep \<longrightarrow> envs s' e = envs s e) \<and>
    (\<forall>q t. heap s q = Some t \<longrightarrow> thread_env t \<noteq> Some ep \<or> status t \<noteq> COROUTINE_SLEEP \<longrightarrow>
       heap s' q = Some t)"
proof -
  obtain n s1 where n: "woken K ep n s s1"
    and s': "s' = s1\<lparr>envs := (envs s1)(ep \<mapsto> env\<lparr>current := Some p\<rparr>)\<rparr>"
    using assms unfolding rescheduled_def by blast
  have "heap s1 q = Some t" if "heap s q = Some t" "thread_env t \<noteq> Some ep \<or> status t \<noteq> COROUTINE_SLEEP"
    for q t
    using n that(1) by (rule woken_taskE) (use that(2) in auto)
  with n show ?thesis by (simp add: s' woken_def)
qed

text \<open>\<open>co_sleep\<close> is the update of the current coroutine followed by \<open>schedule\<close>.\<close>

lemma co_sleep_eq:
  assumes th: "thread_has s tid ep" and cur: "is_current s ep env c tc"
  shows "co_sleep K tid seconds s =
    (case ms_at K (kst s) 0 of
       None \<Rightarrow> Inl (Exit (-1))
     | Some now \<Rightarrow>
         if \<not> fits_int (1000 * seconds) then Inl SignedOverflow
         else schedule K tid (s\<lparr>kst := clock_after K (kst s) 1,
           heap := (heap s)(c \<mapsto> tc\<lparr>wakeuptime := now + word_of_int (1000 * seconds),
             status := COROUTINE_SLEEP\<rparr>)\<rparr>))"
  using cur
  by (simp add: co_sleep_def thread_has_get [OF th] getmstime_eq is_current_def get_env_def nonnull_def mod_task_def
      get_task_def split: option.splits)

lemma schedule_ok:
  assumes "state_ok s" and "thread_has s tid ep" and "is_current s ep env c tc"
    and "schedule K tid s = Inr s'"
  shows "state_ok s' \<and> (\<exists>env' p t. is_current s' ep env' p t \<and> status t = COROUTINE_RUNNING)"
proof -
  obtain p where "rescheduled K ep env (tsk_id tc) s s' p"
    by (rule schedule_rescheduled [OF assms])
  from rescheduled_ok [OF assms(1,3) this] show ?thesis by blast
qed

lemma schedule_ends:
  assumes "state_ok s" and "thread_has s tid ep" and "is_current s ep env c tc"
    and "\<forall>j. ms_at K (kst s) j \<noteq> None"
    and "(\<exists>i. running_at s ep i) \<or> will_wake K s env N"
  shows "\<exists>s'. schedule K tid s = Inr s'"
proof -
  have c: "envs s ep = Some env" "tsk_id tc < NR_TASKS" "task env (tsk_id tc) = Some c"
    using is_currentD [OF assms(1,3)] by simp_all
  obtain p s1 where p: "pick_loop K ep c (tsk_id tc) s = Some (Inr (p, s1))"
    using pick_loop_terminates [OF assms(1) c, of K N] assms(4,5) by auto
  then have "pick K tid s = Inr (p, s1)" by (simp add: pick_eq [OF assms(2,3)])
  moreover obtain n where n: "woken K ep n s s1" and ch: "choice s1 ep env (tsk_id tc) = Some p"
    by (rule pick_choice [OF assms(1-3) calculation])
  have ok: "state_ok s1" "envs s1 ep = Some env"
    using woken_state_ok [OF n assms(1)] n c by (auto simp: woken_def)
  obtain t where "heap s1 p = Some t" "thread_env t = Some ep"
    by (rule choice_SomeD [OF ok c(2) ch])
  ultimately show ?thesis using ok(2) by (simp add: schedule_def co_switch_to_eq)
qed

text \<open>The state in which \<open>co_sleep\<close> calls \<open>schedule\<close>.\<close>

definition asleep ::
  "'k os \<Rightarrow> 'k co_state \<Rightarrow> taskp \<Rightarrow> task_struct_t \<Rightarrow> 32 word \<Rightarrow> int \<Rightarrow> 'k co_state" where
  "asleep K s c tc now seconds = s\<lparr>kst := clock_after K (kst s) 1,
     heap := (heap s)(c \<mapsto> tc\<lparr>wakeuptime := now + word_of_int (1000 * seconds),
       status := COROUTINE_SLEEP\<rparr>)\<rparr>"

lemma asleep_ok:
  fixes K :: "'k os" and now :: "32 word" and seconds :: int
  assumes "state_ok s" and "thread_has s tid ep" and "is_current s ep env c tc"
  defines "s1 \<equiv> asleep K s c tc now seconds"
  shows "state_ok s1" "thread_has s1 tid ep"
    "is_current s1 ep env c (tc\<lparr>wakeuptime := now + word_of_int (1000 * seconds),
       status := COROUTINE_SLEEP\<rparr>)" "kst s1 = clock_after K (kst s) 1"
proof -
  have t: "heap s c = Some tc" using assms(3) by (simp add: is_current_def)
  have "same_tasks s s1"
    using t by (auto simp: same_tasks_def s1_def asleep_def)
  then show "state_ok s1" using assms(1) by (rule state_ok_same_tasks)
  show "thread_has s1 tid ep" using assms(2) by (simp add: thread_has_def s1_def asleep_def)
  show "is_current s1 ep env c (tc\<lparr>wakeuptime := now + word_of_int (1000 * seconds),
       status := COROUTINE_SLEEP\<rparr>)" "kst s1 = clock_after K (kst s) 1"
    using assms(3) by (simp_all add: is_current_def s1_def asleep_def)
qed

lemma co_sleep_asleep:
  assumes "thread_has s tid ep" and "is_current s ep env c tc" and "ms_at K (kst s) 0 = Some now"
    and "fits_int (1000 * seconds)"
  shows "co_sleep K tid seconds s = schedule K tid (asleep K s c tc now seconds)"
  using assms(3,4) unfolding co_sleep_eq [OF assms(1,2)] asleep_def by simp

lemma co_sleep_faults:
  assumes "thread_has s tid ep" and "is_current s ep env c tc" and "co_sleep K tid seconds s = Inr s'"
  shows "fits_int (1000 * seconds)"
  using assms(3) unfolding co_sleep_eq [OF assms(1,2)] by (simp split: option.splits if_splits)

lemma uint_wake:
  "uint (now + word_of_int (1000 * seconds) :: 32 word) = (uint now + 1000 * seconds) mod 2 ^ 32"
  by (simp add: uint_word_ariths uint_word_of_int mod_simps)

text \<open>Between two states of the kernel the clock is read at a value past \<open>w\<close>.\<close>

definition reads_past :: "'k os \<Rightarrow> int \<Rightarrow> 'k \<Rightarrow> 'k \<Rightarrow> bool" where
  "reads_past K w k k' \<longleftrightarrow>
     (\<exists>i j now. k' = clock_after K k i \<and> j < i \<and> ms_at K k j = Some now \<and> w < uint now)"

lemma reads_past_later:
  assumes "reads_past K w (clock_after K k n) k'"
  shows "reads_past K w k k'"
proof -
  obtain i j now where r: "k' = clock_after K k (n + i)" "j < i" "ms_at K k (n + j) = Some now" "w < uint now"
    using assms unfolding reads_past_def clock_after_add ms_at_after by blast
  then have "n + j < n + i" by simp
  with r show ?thesis unfolding reads_past_def by blast
qed

text \<open>A call of \<open>schedule\<close> leaves a sleeper asleep, or has read the clock past its wake-up time.\<close>

lemma schedule_sleeper:
  assumes "state_ok s" and "thread_has s tid ep" and "is_current s ep env c tc" and "schedule K tid s = Inr s'"
    and p: "heap s p = Some t" and "status t = COROUTINE_SLEEP"
  shows "heap s' p = Some t \<or> reads_past K (uint (wakeuptime t)) (kst s) (kst s')"
proof -
  obtain q where "rescheduled K ep env (tsk_id tc) s s' q" by (rule schedule_rescheduled [OF assms(1-4)])
  then obtain n s1 where n: "woken K ep n s s1" and s': "heap s' = heap s1" "kst s' = kst s1"
    unfolding rescheduled_def by auto
  have k: "kst s1 = clock_after K (kst s) n" using n by (simp add: woken_def)
  from n p show ?thesis
  proof (cases rule: woken_taskE)
    case same
    then show ?thesis by (simp add: s'(1))
  next
    case woke
    then have "reads_past K (uint (wakeuptime t)) (kst s) (kst s1)"
      unfolding reads_past_def word_less_def k by blast
    then show ?thesis by (simp add: s'(2))
  qed
qed

lemma sleeper_waits:
  assumes "heap (s' 0) c = Some t \<or> reads_past K (uint (wakeuptime t)) (kst (s 0)) (kst (s' 0))"
    and "status t = COROUTINE_SLEEP"
    and "\<And>n. n < N \<Longrightarrow> state_ok (s (Suc n)) \<and> thread_has (s (Suc n)) tid ep \<and>
      is_current (s (Suc n)) ep (env n) (cur n) (tn n) \<and> schedule K tid (s (Suc n)) = Inr (s' (Suc n)) \<and>
      heap (s (Suc n)) c = heap (s' n) c"
  shows "heap (s' N) c = Some t \<or> (\<exists>n \<le> N. reads_past K (uint (wakeuptime t)) (kst (s n)) (kst (s' n)))"
  using assms(3)
proof (induction N)
  case 0
  with assms(1) show ?case by auto
next
  case (Suc N)
  have "heap (s' N) c = Some t \<or> (\<exists>n \<le> N. reads_past K (uint (wakeuptime t)) (kst (s n)) (kst (s' n)))"
    by (rule Suc.IH) (rule Suc.prems, simp)
  then show ?case
  proof
    assume "heap (s' N) c = Some t"
    then have "heap (s (Suc N)) c = Some t" using Suc.prems [of N] by simp
    with Suc.prems [of N] schedule_sleeper [of "s (Suc N)" tid ep "env N" "cur N" "tn N" K "s' (Suc N)" c t] assms(2)
    show ?thesis by blast
  next
    assume "\<exists>n \<le> N. reads_past K (uint (wakeuptime t)) (kst (s n)) (kst (s' n))"
    then show ?thesis using le_SucI by blast
  qed
qed

text \<open>
  The comparison with the clock is strict: a coroutine whose wake-up time is the last value of the
  clock before it wraps is never woken, whatever the clock shows.
\<close>

lemma sleeps_for_ever:
  assumes ok: "state_ok s" and th: "thread_has s tid ep" and cur: "is_current s ep env c tc"
    and s': "schedule K tid s = Inr s'"
    and p: "heap s p = Some t" "status t = COROUTINE_SLEEP" "wakeuptime t = - 1"
  shows "heap s' p = Some t"
proof -
  obtain q where "rescheduled K ep env (tsk_id tc) s s' q" by (rule schedule_rescheduled [OF ok th cur s'])
  then obtain n s1 where n: "woken K ep n s s1"
    and eq: "s' = s1\<lparr>envs := (envs s1)(ep \<mapsto> env\<lparr>current := Some q\<rparr>)\<rparr>"
    unfolding rescheduled_def by blast
  have "\<not> wakeuptime t < now" for now unfolding p(3) by (simp add: not_less word_order.extremum)
  then have "heap s1 p = Some t" using n p(1) by (auto elim: woken_taskE)
  then show ?thesis by (simp add: eq)
qed

section \<open>Fairness\<close>

lemma choice_ring:
  assumes ok: "state_ok s" "envs s ep = Some env" and "choice s ep env cid = Some p"
    and t: "heap s p = Some t"
  shows "tsk_id t = (case ring_next NR_TASKS cid (running_at s ep) of None \<Rightarrow> cid | Some i \<Rightarrow> i)"
proof -
  have "tsk_id t = i" if i: "task env i = Some p" for i
  proof -
    obtain t' where "heap s p = Some t'" "tsk_id t' = i" by (rule state_ok_entry [OF ok i])
    with t show ?thesis by simp
  qed
  with assms(3) show ?thesis by (auto simp: choice_def split: option.splits if_splits)
qed

lemma schedule_ring:
  assumes ok: "state_ok s" and th: "thread_has s tid ep" and cur: "is_current s ep env c t"
    and s': "schedule K tid s = Inr s'" and cur': "is_current s' ep env' c' t'"
    and j: "running_at s ep j"
  shows "\<exists>R. R j \<and> tsk_id t' =
    (case ring_next NR_TASKS (tsk_id t) R of None \<Rightarrow> tsk_id t | Some i \<Rightarrow> i)"
proof -
  obtain p where "rescheduled K ep env (tsk_id t) s s' p"
    by (rule schedule_rescheduled [OF ok th cur s'])
  then obtain n s1 where n: "woken K ep n s s1" and ch: "choice s1 ep env (tsk_id t) = Some p"
    and eq: "s' = s1\<lparr>envs := (envs s1)(ep \<mapsto> env\<lparr>current := Some p\<rparr>)\<rparr>"
    unfolding rescheduled_def by blast
  have env: "envs s ep = Some env" using cur by (simp add: is_current_def)
  have ok1: "state_ok s1" "envs s1 ep = Some env"
    using woken_state_ok [OF n ok] n env by (auto simp: woken_def)
  have "c' = p" "heap s1 p = Some t'" using cur' eq by (auto simp: is_current_def)
  then have "tsk_id t' = (case ring_next NR_TASKS (tsk_id t) (running_at s1 ep) of
      None \<Rightarrow> tsk_id t | Some i \<Rightarrow> i)"
    using choice_ring [OF ok1 ch] by simp
  moreover have "running_at s1 ep j" by (rule woken_running [OF ok env n j])
  ultimately show ?thesis by blast
qed

text \<open>
  Along calls of \<open>schedule\<close> in which a coroutine stays runnable, it becomes current within one round
  of the table.
\<close>

lemma reaches_runnable:
  assumes "\<forall>n. state_ok (s n) \<and> thread_has (s n) tid ep \<and> is_current (s n) ep (env n) (c n) (t n) \<and>
      schedule K tid (s n) = Inr (s' n)"
    and "\<forall>n. is_current (s' n) ep (env' n) (c (Suc n)) (t' n) \<and> tsk_id (t (Suc n)) = tsk_id (t' n)"
    and "\<forall>n. task (env n) j = Some p \<and>
      (\<exists>tp. heap (s n) p = Some tp \<and> status tp = COROUTINE_RUNNING)"
  shows "\<exists>m < NR_TASKS. c m = p"
proof -
  have run: "running_at (s n) ep j" for n
    using assms(1,3) running_at_ok [of "s n" ep "env n" j] by (simp add: is_current_def)
  have "\<forall>n. \<exists>R. R j \<and> tsk_id (t (Suc n)) =
      (case ring_next NR_TASKS (tsk_id (t n)) R of None \<Rightarrow> tsk_id (t n) | Some i \<Rightarrow> i)"
    using assms(1,2) schedule_ring [OF _ _ _ _ _ run] by metis
  then obtain R where R: "\<And>n. R n j" "\<And>n. tsk_id (t (Suc n)) =
      (case ring_next NR_TASKS (tsk_id (t n)) (R n) of None \<Rightarrow> tsk_id (t n) | Some i \<Rightarrow> i)"
    by metis
  have bound: "tsk_id (t n) < NR_TASKS" "task (env n) (tsk_id (t n)) = Some (c n)" for n
    using is_currentD [of "s n" ep "env n" "c n" "t n"] assms(1) by blast+
  have "j < NR_TASKS"
    using assms(1,3) state_ok_entry [of "s 0" ep "env 0" j p] by (auto simp: is_current_def)
  then obtain m where m: "m < NR_TASKS" "tsk_id (t m) = j"
    using rr.no_starvation [of "\<lambda>n. tsk_id (t n)" NR_TASKS j R] bound(1) R by auto
  then have "c m = p" using bound(2) [of m] assms(3) by simp
  with m(1) show ?thesis by blast
qed

section \<open>A process that can be scheduled\<close>

lemma wake_sleepers_none:
  assumes ok: "state_ok s" "envs s ep = Some env"
    and none: "\<And>i p t. task env i = Some p \<Longrightarrow> heap s p = Some t \<Longrightarrow> status t \<noteq> COROUTINE_SLEEP"
  shows "wake_sleepers K ep s = Inr s"
proof -
  have "wake_one K ep i s = Inr s" for i
  proof (cases "task env i")
    case None
    then show ?thesis by (simp add: wake_one_cases [OF ok])
  next
    case (Some p)
    obtain t where "heap s p = Some t" by (rule state_ok_entry [OF ok Some])
    with Some none show ?thesis by (simp add: wake_one_cases [OF ok])
  qed
  then show ?thesis unfolding wake_sleepers_def by (intro foldE_id)
qed

text \<open>Without sleepers a call of \<open>schedule\<close> is the choice and the switch.\<close>

lemma schedule_awake:
  assumes ok: "state_ok s" and th: "thread_has s tid ep" and cur: "is_current s ep env c t"
    and none: "\<And>i p t. task env i = Some p \<Longrightarrow> heap s p = Some t \<Longrightarrow> status t \<noteq> COROUTINE_SLEEP"
    and ch: "choice s ep env (tsk_id t) = Some p"
  shows "schedule K tid s = Inr (s\<lparr>envs := (envs s)(ep \<mapsto> env\<lparr>current := Some p\<rparr>)\<rparr>)"
proof -
  note c = is_currentD [OF ok cur]
  have "pick_loop K ep c (tsk_id t) s = Some (Inr (p, s))"
    using pick_loop_step [OF ok c(1,4,5), of K] wake_sleepers_none [OF ok c(1) none] ch by simp
  then have "pick K tid s = Inr (p, s)" by (simp add: pick_eq [OF th cur])
  moreover obtain tp where "heap s p = Some tp" "thread_env tp = Some ep"
    by (rule choice_SomeD [OF ok c(1,4) ch])
  ultimately show ?thesis using c(1) by (simp add: schedule_def co_switch_to_eq)
qed

lemma choice_only_other:
  assumes "cid < NR_TASKS" and "j < NR_TASKS" and "j \<noteq> cid"
    and "\<And>i. i \<noteq> cid \<Longrightarrow> running_at s ep i \<longleftrightarrow> i = j"
  shows "choice s ep env cid = task env j"
proof (cases "ring_next NR_TASKS cid (running_at s ep)")
  case None
  with assms ring_next_None [OF assms(1)] show ?thesis by blast
next
  case (Some i)
  with ring_next_Some [OF assms(1) Some] assms(4) show ?thesis by (auto simp: choice_def)
qed

lemma ex0_current: "is_current ex0 0 ex0_env 1 ex0_main"
  by (simp add: is_current_def ex0_fields ex0_env_def)

lemma ex0_entry: "task ex0_env i = Some p \<longleftrightarrow> i = 0 \<and> p = 1"
  by (auto simp: ex0_env_def split: if_splits)

lemma ex0_main_fields:
  "status ex0_main = COROUTINE_RUNNING" "tsk_id ex0_main = 0" "thread_env ex0_main = Some 0"
  "fds_idx ex0_main = 0" "events ex0_main = (\<lambda>_. \<lparr>ev_events = 0, ev_fd = 0\<rparr>)"
  by (simp_all add: ex0_main_def zero_task_def)

lemma ex0_running: "running_at ex0 0 i \<longleftrightarrow> i = 0"
  using running_at_ok [OF ex0_ok, of 0 ex0_env i]
  by (auto simp: ex0_fields ex0_entry ex0_main_fields)

lemma ex0_pick: "pick K 1 ex0 = Inr (1, ex0)"
proof -
  note cur = is_currentD [OF ex0_ok ex0_current]
  have "wake_sleepers K 0 ex0 = Inr ex0"
    by (rule wake_sleepers_none [OF ex0_ok cur(1)]) (simp add: ex0_entry ex0_fields ex0_main_fields)
  moreover have "ring_next NR_TASKS 0 (running_at ex0 0) = None"
    by (simp add: ring_next_None NR_TASKS_def ex0_running)
  then have "choice ex0 0 ex0_env 0 = Some 1" by (simp add: choice_def ex0_running ex0_entry)
  ultimately have "pick_loop K 0 1 0 ex0 = Some (Inr (1, ex0))"
    using pick_loop_step [OF ex0_ok cur(1,4,5), of K] by (simp add: ex0_main_fields)
  then show ?thesis unfolding pick_eq [OF ex0_thread ex0_current] by (simp add: ex0_main_fields)
qed

lemma ex0_schedule: "schedule K 1 ex0 = Inr ex0"
  using is_currentD [OF ex0_ok ex0_current]
  by (simp add: schedule_def ex0_pick co_switch_to_def get_task_def get_env_def nonnull_def ex0_main_fields)

lemma ex_os_ms: "ms_at ex_os k n = Some (word_of_int (1000 * min (int (k + n)) 1000))"
proof -
  have "clock_after ex_os k n = k + n" by (induction n arbitrary: k) (simp_all add: ex_os_def)
  then show ?thesis by (simp add: ms_at_def) (simp add: ex_os_def signed_divide_int_def mult.commute)
qed

text \<open>A clock that stands still just before it wraps around.\<close>

definition ex_os_late :: "nat os" where
  "ex_os_late = ex_os\<lparr>os_gettimeofday := (\<lambda>k. (Some \<lparr>tv_sec = 4294967, tv_usec = 295000\<rparr>, k))\<rparr>"

section \<open>Properties\<close>

text \<open>
  C1: From a well-formed state, a call of schedule that returns leaves a well-formed state in
  which the current coroutine of the thread is runnable.
\<close>

theorem schedule_runs_runnable:
  assumes "state_ok s" and "thread_has s tid ep" and "is_current s ep env c tc"
    and "schedule K tid s = Inr s'"
  shows "state_ok s' \<and> (\<exists>env' p t. is_current s' ep env' p t \<and> status t = COROUTINE_RUNNING)"
  by (rule schedule_ok [OF assms])

theorem schedule_runs_runnable_witness:
  "state_ok ex0 \<and> (\<exists>env' p t. is_current ex0 0 env' p t \<and> status t = COROUTINE_RUNNING)"
  by (rule schedule_runs_runnable [OF ex0_ok ex0_thread ex0_current ex0_schedule])

text \<open>
  C2: pick returns a runnable coroutine of the table, and no other runnable coroutine is closer
  to the current one going forward around the ring of table indices; the current one is chosen
  only when no other is runnable.
\<close>

theorem pick_nearest_runnable:
  assumes "state_ok s" and "thread_has s tid ep" and "is_current s ep env c tc"
    and "pick K tid s = Inr (p, s')"
  shows "\<exists>t. heap s' p = Some t \<and> status t = COROUTINE_RUNNING \<and> task env (tsk_id t) = Some p \<and>
    (\<forall>j q tq. task env j = Some q \<and> heap s' q = Some tq \<and> status tq = COROUTINE_RUNNING \<and> q \<noteq> c \<longrightarrow>
       p \<noteq> c \<and> ring_dist NR_TASKS (tsk_id tc) (tsk_id t) \<le> ring_dist NR_TASKS (tsk_id tc) j)"
proof -
  obtain n where n: "woken K ep n s s'" and ch: "choice s' ep env (tsk_id tc) = Some p"
    by (rule pick_choice [OF assms])
  have ok: "state_ok s'" "envs s' ep = Some env"
    using woken_state_ok [OF n assms(1)] n assms(3) by (auto simp: woken_def is_current_def)
  note cid = is_current_ok [OF assms(1,3)]
  obtain i t where t: "task env i = Some p" "heap s' p = Some t" "tsk_id t = i"
      "status t = COROUTINE_RUNNING" "i < NR_TASKS"
    by (rule choice_SomeD [OF ok conjunct1 [OF cid] ch])
  have "p \<noteq> c \<and> ring_dist NR_TASKS (tsk_id tc) i \<le> ring_dist NR_TASKS (tsk_id tc) j"
    if j: "task env j = Some q" "heap s' q = Some tq" "status tq = COROUTINE_RUNNING" "q \<noteq> c" for j q tq
  proof -
    have "j < NR_TASKS" by (rule state_ok_entry [OF ok j(1)])
    moreover have "running_at s' ep j" using j by (auto simp: running_at_ok [OF ok])
    moreover have "j \<noteq> tsk_id tc" using j cid by auto
    ultimately have run: "running_at s' ep j" "j < NR_TASKS" "j \<noteq> tsk_id tc" by blast+
    then obtain k where k: "ring_next NR_TASKS (tsk_id tc) (running_at s' ep) = Some k"
      using ring_next_None cid by fastforce
    note nearest = ring_next_Some [OF conjunct1 [OF cid] k]
    have "task env k = Some p" using ch k by (simp add: choice_def)
    then obtain t' where "heap s' p = Some t'" "tsk_id t' = k" by (rule state_ok_entry [OF ok])
    then have "k = i" using t by simp
    moreover obtain tc' where "heap s' c = Some tc'" "tsk_id tc' = tsk_id tc"
      using state_ok_entry [OF ok, of "tsk_id tc" c] cid by blast
    ultimately show ?thesis using nearest run t by auto
  qed
  with t show ?thesis by blast
qed

theorem pick_nearest_runnable_witness:
  "\<exists>t. heap ex0 1 = Some t \<and> status t = COROUTINE_RUNNING \<and> task ex0_env (tsk_id t) = Some 1"
  using pick_nearest_runnable [OF ex0_ok ex0_thread ex0_current ex0_pick] by blast

text \<open>
  C3: Along any sequence of turns in which schedule is called with the coroutine the previous
  call made current, a coroutine that stays runnable becomes current within one round of the
  table.
\<close>

theorem schedule_fair:
  assumes "\<forall>n. state_ok (s n) \<and> thread_has (s n) tid ep \<and> is_current (s n) ep (env n) (c n) (t n) \<and>
      schedule K tid (s n) = Inr (s' n)"
    and "\<forall>n. is_current (s' n) ep (env' n) (c (Suc n)) (t' n) \<and> tsk_id (t (Suc n)) = tsk_id (t' n)"
    and "\<forall>n. task (env n) j = Some p \<and>
      (\<exists>tp. heap (s n) p = Some tp \<and> status tp = COROUTINE_RUNNING)"
  shows "\<exists>m < NR_TASKS. c m = p"
  by (rule reaches_runnable [OF assms])

text \<open>
  C4: schedule returns when the clock can be read and either some coroutine of the thread is
  runnable or some sleeper has a wake-up time that all late readings of the clock exceed.
\<close>

theorem schedule_terminates:
  assumes "state_ok s" and "thread_has s tid ep" and "is_current s ep env c tc"
    and "\<forall>j. ms_at K (kst s) j \<noteq> None"
    and "(\<exists>i. running_at s ep i) \<or> will_wake K s env N"
  shows "\<exists>s'. schedule K tid s = Inr s'"
  by (rule schedule_ends [OF assms])

theorem schedule_terminates_witness: "\<exists>s'. schedule ex_os 1 ex0 = Inr s'"
  by (rule schedule_terminates [OF ex0_ok ex0_thread ex0_current, of ex_os 0])
    (auto simp: ex_os_ms ex0_running)

text \<open>
  C5: When every coroutine of the thread waits for an event or has exited, schedule never
  returns: the event loop itself cannot run any more.
\<close>

theorem schedule_deadlock:
  assumes "state_ok s" and "thread_has s tid ep" and "is_current s ep env c tc"
    and "\<forall>i p t. task env i = Some p \<and> heap s p = Some t \<longrightarrow>
      status t = COROUTINE_WAIT \<or> status t = COROUTINE_EXIT"
  shows "schedule K tid s = Inl Hang"
proof -
  have c: "envs s ep = Some env" "tsk_id tc < NR_TASKS" "task env (tsk_id tc) = Some c"
    using is_currentD [OF assms(1,3)] by simp_all
  have "pick_loop K ep c (tsk_id tc) s = None"
    using assms(4) by (intro pick_loop_stuck [OF assms(1) c]) fastforce
  then show ?thesis by (simp add: schedule_def pick_eq [OF assms(2,3)])
qed

theorem schedule_deadlock_witness:
  "schedule ex_os 1 (ex0\<lparr>heap := (heap ex0)(1 \<mapsto> ex0_main\<lparr>status := COROUTINE_WAIT\<rparr>)\<rparr>) = Inl Hang"
proof (rule schedule_deadlock)
  let ?s = "ex0\<lparr>heap := (heap ex0)(1 \<mapsto> ex0_main\<lparr>status := COROUTINE_WAIT\<rparr>)\<rparr>"
  have "same_tasks ex0 ?s" by (rule same_tasks_upd) (simp_all add: ex0_fields)
  then show "state_ok ?s" using ex0_ok by (rule state_ok_same_tasks)
  show "thread_has ?s 1 0" using ex0_thread by (simp add: thread_has_def)
  show "is_current ?s 0 ex0_env 1 (ex0_main\<lparr>status := COROUTINE_WAIT\<rparr>)"
    using ex0_current by (simp add: is_current_def)
  show "\<forall>i p t. task ex0_env i = Some p \<and> heap ?s p = Some t \<longrightarrow>
      status t = COROUTINE_WAIT \<or> status t = COROUTINE_EXIT"
    by (simp add: ex0_entry)
qed

text \<open>
  C29: When a coroutine that called co_sleep with a number of seconds that is not negative is
  runnable again, after any number of further calls of schedule by the coroutines of its thread
  with arbitrary changes between these calls that leave its control block alone, the clock was
  read in co_sleep or in one of these calls at a value strictly past the start of the sleep plus
  1000 times the seconds, provided the sum does not wrap.
\<close>

theorem co_sleep_not_early:
  assumes "state_ok (s 0)" and "thread_has (s 0) tid ep" and "is_current (s 0) ep env0 c tc"
    and "co_sleep K tid seconds (s 0) = Inr (s' 0)" and "ms_at K (kst (s 0)) 0 = Some now"
    and "0 \<le> seconds" and "uint now + 1000 * seconds < 2 ^ 32"
    and "\<forall>n < N. state_ok (s (Suc n)) \<and> thread_has (s (Suc n)) tid ep \<and>
      is_current (s (Suc n)) ep (env n) (cur n) (tn n) \<and> schedule K tid (s (Suc n)) = Inr (s' (Suc n)) \<and>
      heap (s (Suc n)) c = heap (s' n) c"
    and "heap (s' N) c = Some t" and "status t = COROUTINE_RUNNING"
  shows "\<exists>n \<le> N. reads_past K (uint now + 1000 * seconds) (kst (s n)) (kst (s' n))"
proof -
  let ?s1 = "asleep K (s 0) c tc now seconds"
  note ok1 = asleep_ok [OF assms(1-3), of K now seconds]
  have sch: "schedule K tid ?s1 = Inr (s' 0)"
    using assms(4) unfolding co_sleep_asleep [OF assms(2,3,5) co_sleep_faults [OF assms(2,3,4)]] .
  obtain t1 where t1: "heap ?s1 c = Some t1" "status t1 = COROUTINE_SLEEP"
      "wakeuptime t1 = now + word_of_int (1000 * seconds)"
    using ok1(3) by (simp add: is_current_def)
  have w: "uint (wakeuptime t1) = uint now + 1000 * seconds"
    using assms(6,7) unfolding t1(3) uint_wake by simp
  have "heap (s' 0) c = Some t1 \<or> reads_past K (uint now + 1000 * seconds) (kst (s 0)) (kst (s' 0))"
    using schedule_sleeper [OF ok1(1-3) sch t1(1,2)] reads_past_later [where K = K and k = "kst (s 0)" and n = 1]
    unfolding ok1(4) w by (elim disjE) (rule disjI1, assumption, rule disjI2)
  then have "heap (s' N) c = Some t1 \<or> (\<exists>n \<le> N. reads_past K (uint now + 1000 * seconds) (kst (s n)) (kst (s' n)))"
    unfolding w [symmetric]
    by (rule sleeper_waits [where tid = tid and ep = ep and env = env and cur = cur and tn = tn])
      (use t1(2) assms(8) in blast)+
  moreover have "heap (s' N) c \<noteq> Some t1" using assms(9,10) t1(2) by auto
  ultimately show ?thesis by blast
qed

text \<open>
  C30: When the wake-up time wraps around 2^32 milliseconds the sleep ends at once, even with a
  clock that stands still.
\<close>

theorem co_sleep_wraps:
  assumes "state_ok s" and "thread_has s tid ep" and "is_current s ep env c tc"
    and "1000 * seconds < 2 ^ 31" and "2 ^ 32 \<le> uint now + 1000 * seconds"
    and "\<forall>j. ms_at K (kst s) j = Some now"
  shows "\<exists>s' t. co_sleep K tid seconds s = Inr s' \<and> heap s' c = Some t \<and>
    status t = COROUTINE_RUNNING"
proof -
  let ?s1 = "asleep K s c tc now seconds"
  let ?t1 = "tc\<lparr>wakeuptime := now + word_of_int (1000 * seconds), status := COROUTINE_SLEEP\<rparr>"
  note ok1 = asleep_ok [OF assms(1-3), of K now seconds]
  have const: "ms_at K (kst ?s1) j = Some now" for j
    using assms(6) unfolding ok1(4) ms_at_after by simp
  have "0 < 1000 * seconds" using assms(5) uint_bounded [of now] by simp
  with assms(4) have fits: "fits_int (1000 * seconds)" by (simp add: fits_int_def)
  have c: "envs ?s1 ep = Some env" "tsk_id tc < NR_TASKS" "task env (tsk_id tc) = Some c"
    and t1: "heap ?s1 c = Some ?t1"
    using is_currentD [OF ok1(1,3)] by simp_all
  have "(uint now + 1000 * seconds) mod 2 ^ 32 = uint now + 1000 * seconds - 2 ^ 32"
    using assms(4,5) uint_bounded [of now] by (intro mod_minus_once) simp_all
  then have early: "now + word_of_int (1000 * seconds) < now"
    using assms(4) unfolding word_less_def uint_wake by simp
  obtain s2 where s2: "wake_sleepers K ep ?s1 = Inr s2"
    using wake_sleepers_fault [OF ok1(1) c(1), of K] const
    by (cases "wake_sleepers K ep ?s1") auto
  obtain n where n: "woken K ep n ?s1 s2"
    and wake: "\<And>i p t. task env i = Some p \<Longrightarrow> heap ?s1 p = Some t \<Longrightarrow> status t = COROUTINE_SLEEP \<Longrightarrow>
       \<exists>j < n. \<exists>now. ms_at K (kst ?s1) j = Some now \<and>
          heap s2 p = Some (if wakeuptime t < now then t\<lparr>status := COROUTINE_RUNNING\<rparr> else t)"
    by (rule wake_sleepers_woken [OF ok1(1) c(1) s2]) blast
  have t2: "heap s2 c = Some (?t1\<lparr>status := COROUTINE_RUNNING\<rparr>)"
    using wake [OF c(3) t1] early const by auto
  have ok2: "state_ok s2" "envs s2 ep = Some env"
    using woken_state_ok [OF n ok1(1)] n c by (auto simp: woken_def)
  have "running_at s2 ep (tsk_id tc)" using c(3) t2 by (simp add: running_at_ok [OF ok2])
  then obtain p where p: "choice s2 ep env (tsk_id tc) = Some p"
    using choice_None [OF ok2 c(2,3)] by (cases "choice s2 ep env (tsk_id tc)") auto
  then have "pick K tid ?s1 = Inr (p, s2)"
    by (simp add: pick_eq [OF ok1(2,3)] pick_loop_step [OF ok1(1) c] s2)
  moreover obtain t where "heap s2 p = Some t" "thread_env t = Some ep"
    by (rule choice_SomeD [OF ok2 c(2) p])
  ultimately have "schedule K tid ?s1 =
      Inr (s2\<lparr>envs := (envs s2)(ep \<mapsto> env\<lparr>current := Some p\<rparr>)\<rparr>)"
    using ok2(2) by (simp add: schedule_def co_switch_to_eq)
  with t2 show ?thesis
    using co_sleep_asleep [OF assms(2,3) assms(6) [rule_format] fits] by simp
qed

theorem co_sleep_wraps_witness:
  "\<exists>s' t. co_sleep ex_os_late 1 1 ex0 = Inr s' \<and> heap s' 1 = Some t \<and> status t = COROUTINE_RUNNING"
proof (rule co_sleep_wraps [OF ex0_ok ex0_thread ex0_current])
  have "clock_after ex_os_late k n = k" for k n by (induction n) (simp_all add: ex_os_late_def)
  then show "\<forall>j. ms_at ex_os_late (kst ex0) j = Some 4294967295"
    by (simp add: ms_at_def) (simp add: ex_os_late_def signed_divide_int_def)
qed simp_all

end
