(* ===== verification/Coroutine.thy ===== *)
theory Coroutine
  imports Sched
begin

text \<open>
  Creating, finishing and joining coroutines (\<open>src/coroutine.c\<close>). \<open>co_create\<close> is one function.
  \<open>start\<close> and \<open>co_join\<close> call \<open>schedule\<close> in the middle: the code before the switch and the code
  after it are separate definitions, and the theory \<open>Machine\<close> runs them when the coroutine is
  resumed.
\<close>

section \<open>co\_create\<close>

text \<open>
  The frame on top of a new stack, for the two processors, as \<open>switch_to\<close> pops it, and the saved
  stack pointer.
\<close>

definition frame_x86_64 :: "taskp \<Rightarrow> (nat \<Rightarrow> val) \<Rightarrow> nat \<Rightarrow> val" where
  "frame_x86_64 tsk stk = stk(
     STACK_SIZE - 18 := Vnum 15,
     STACK_SIZE - 17 := Vnum 14,
     STACK_SIZE - 16 := Vnum 13,
     STACK_SIZE - 15 := Vnum 12,
     STACK_SIZE - 14 := Vnum 11,
     STACK_SIZE - 13 := Vnum 10,
     STACK_SIZE - 12 := Vnum 9,
     STACK_SIZE - 11 := Vnum 8,
     STACK_SIZE - 10 := Vnum 7,
     STACK_SIZE - 9 := Vnum 6,
     STACK_SIZE - 8 := Vnum 5,
     STACK_SIZE - 7 := Vnum 4,
     STACK_SIZE - 6 := Vnum 3,
     STACK_SIZE - 5 := Vnum 2,
     STACK_SIZE - 4 := Vtask tsk,
     STACK_SIZE - 3 := Vnum 0,
     STACK_SIZE - 2 := Vstart,
     STACK_SIZE - 1 := Vnum 100)"

definition frame_i386 :: "taskp \<Rightarrow> (nat \<Rightarrow> val) \<Rightarrow> nat \<Rightarrow> val" where
  "frame_i386 tsk stk = stk(
     STACK_SIZE - 11 := Vnum 7,
     STACK_SIZE - 10 := Vnum 6,
     STACK_SIZE - 9 := Vnum 5,
     STACK_SIZE - 8 := Vnum 4,
     STACK_SIZE - 7 := Vnum 3,
     STACK_SIZE - 6 := Vnum 2,
     STACK_SIZE - 5 := Vnum 1,
     STACK_SIZE - 4 := Vnum 0,
     STACK_SIZE - 3 := Vstart,
     STACK_SIZE - 2 := Vnum 100,
     STACK_SIZE - 1 := Vtask tsk)"

definition init_stack :: "arch \<Rightarrow> taskp \<Rightarrow> task_struct_t \<Rightarrow> task_struct_t" where
  "init_stack a tsk t =
     (case a of
        X86_64 \<Rightarrow> t\<lparr>esp := Vsp tsk (int (STACK_SIZE - 18)), stack := frame_x86_64 tsk (stack t)\<rparr>
      | I386 \<Rightarrow> t\<lparr>esp := Vsp tsk (int (STACK_SIZE - 11)), stack := frame_i386 tsk (stack t)\<rparr>)"

text \<open>The search for a free entry of the table.\<close>

function free_slot :: "thread_env_t \<Rightarrow> nat \<Rightarrow> nat" where
  "free_slot env i =
     (if i < NR_TASKS \<and> task env i \<noteq> None then free_slot env (i + 1) else i)"
  by pat_completeness auto
termination
  by (relation "measure (\<lambda>(env, i). NR_TASKS - i)") auto

declare free_slot.simps [simp del]

text \<open>
  The result is the return value, what is stored through \<open>cid\<close> (nothing when \<open>cid\<close> is NULL or the
  table is full) and the new state.
\<close>

definition co_create ::
  "'k os \<Rightarrow> int \<Rightarrow> bool \<Rightarrow> voidp \<Rightarrow> voidp \<Rightarrow> 'k co_state \<Rightarrow> fault + (int \<times> nat option \<times> 'k co_state)" where
  "co_create K tid cid_nonnull start_routine a s =
     bnd (co_get_thread_env K tid s) (\<lambda>(ep, s).
     bnd (get_env ep s) (\<lambda>env.
     let i = free_slot env 0 in
     if i = NR_TASKS then Inr (-1, None, s)
     else
       (case calloc_task K s of (p, s) \<Rightarrow>
       bnd (mod_env ep (\<lambda>env. env\<lparr>task := (task env)(i := p), task_count := task_count env + 1\<rparr>) s) (\<lambda>s.
       bnd (nonnull p) (\<lambda>tsk.
       bnd (mod_task tsk (\<lambda>t. init_stack (os_arch K) tsk
              (t\<lparr>tsk_id := i, co_fn := start_routine, arg := a, thread_env := Some ep,
                 wakeuptime := 0, status := COROUTINE_RUNNING, fds_idx := 0\<rparr>)) s) (\<lambda>s.
       Inr (0, if cid_nonnull then Some i else None, s)))))))"

section \<open>start\<close>

text \<open>One turn of the loop that takes the finished coroutine off its descriptors.\<close>

definition release_one :: "'k os \<Rightarrow> envp option \<Rightarrow> taskp \<Rightarrow> 'k co_state \<Rightarrow> fault + 'k co_state" where
  "release_one K epo tsk s =
     bnd (get_task tsk s) (\<lambda>t.
     let idx = fds_idx t - 1 in
     if MAX_FD \<le> idx then Inl OutOfBounds else
     let fd = fds t idx in
     bnd (mod_task tsk (\<lambda>t. t\<lparr>fds_idx := idx\<rparr>) s) (\<lambda>s.
     bnd (nonnull epo) (\<lambda>ep.
     bnd (get_env ep s) (\<lambda>env.
     case syscall (os_epoll_ctl K (epfd env) EPOLL_CTL_DEL fd None) s of (_, s) \<Rightarrow>
     on_queues (TAILQ_REMOVE (ep, fd) (Some tsk)) s))))"

partial_function (option) release_fds ::
  "'k os \<Rightarrow> envp option \<Rightarrow> taskp \<Rightarrow> 'k co_state \<Rightarrow> (fault + 'k co_state) option" where
  "release_fds K epo tsk s =
     (case get_task tsk s of
        Inl f \<Rightarrow> Some (Inl f)
      | Inr t \<Rightarrow>
          if fds_idx t > 0
          then (case release_one K epo tsk s of
                  Inl f \<Rightarrow> Some (Inl f)
                | Inr s \<Rightarrow> release_fds K epo tsk s)
          else Some (Inr s))"

text \<open>What \<open>start\<close> does when the coroutine function has returned, up to the call of \<open>schedule\<close>.\<close>

definition start_cleanup :: "'k os \<Rightarrow> taskp \<Rightarrow> 'k co_state \<Rightarrow> fault + 'k co_state" where
  "start_cleanup K tsk s =
     bnd (get_task tsk s) (\<lambda>t.
     bnd (mod_task tsk (\<lambda>t. t\<lparr>status := COROUTINE_EXIT\<rparr>) s) (\<lambda>s.
     case release_fds K (thread_env t) tsk s of
       None \<Rightarrow> Inl Hang
     | Some r \<Rightarrow> r))"

definition start_finish :: "'k os \<Rightarrow> int \<Rightarrow> taskp \<Rightarrow> 'k co_state \<Rightarrow> fault + 'k co_state" where
  "start_finish K tid tsk s = bnd (start_cleanup K tsk s) (\<lambda>s. schedule K tid s)"

text \<open>What follows that call, should it ever return.\<close>

definition start_fatal :: "'k co_state \<Rightarrow> fault + 'k co_state" where
  "start_fatal s = Inl (Exit (-1))"

section \<open>co\_join\<close>

text \<open>
  One turn of the loop of \<open>co_join\<close> and, when the coroutine has finished, what follows the loop:
  \<open>True\<close> when \<open>co_join\<close> is done, \<open>False\<close> when it has called \<open>schedule\<close> and will look again.
\<close>

definition co_join_turn ::
  "'k os \<Rightarrow> int \<Rightarrow> envp \<Rightarrow> int \<Rightarrow> 'k co_state \<Rightarrow> fault + (bool \<times> 'k co_state)" where
  "co_join_turn K tid ep cid s =
     (if cid < 0 \<or> int NR_TASKS \<le> cid then Inl OutOfBounds else
     bnd (get_env ep s) (\<lambda>env.
     bnd (nonnull (task env (nat cid))) (\<lambda>p.
     bnd (get_task p s) (\<lambda>t.
     if status t \<noteq> COROUTINE_EXIT
     then bnd (schedule K tid s) (\<lambda>s. Inr (False, s))
     else
       bnd (free_task p s) (\<lambda>s.
       bnd (mod_env ep (\<lambda>env. env\<lparr>task := (task env)(nat cid := None),
              task_count := task_count env - 1\<rparr>) s) (\<lambda>s.
       Inr (True, s)))))))"

definition co_join ::
  "'k os \<Rightarrow> int \<Rightarrow> int \<Rightarrow> 'k co_state \<Rightarrow> fault + (envp \<times> bool \<times> 'k co_state)" where
  "co_join K tid cid s =
     bnd (co_get_thread_env K tid s) (\<lambda>(ep, s).
     bnd (co_join_turn K tid ep cid s) (\<lambda>(done, s).
     Inr (ep, done, s)))"

section \<open>Calls before and after the thread has its environment\<close>

lemma get_env_idem:
  "co_get_thread_env K tid s = Inr (ep, s') \<Longrightarrow> co_get_thread_env K tid s' = Inr (ep, s')"
  using co_get_thread_env_has thread_has_get by blast

section \<open>Creating a coroutine\<close>

lemma free_slot_spec:
  assumes "i \<le> NR_TASKS"
  shows "i \<le> free_slot env i \<and> free_slot env i \<le> NR_TASKS \<and>
    (free_slot env i < NR_TASKS \<longrightarrow> task env (free_slot env i) = None) \<and>
    (\<forall>j. i \<le> j \<and> j < free_slot env i \<longrightarrow> task env j \<noteq> None)"
  using assms
proof (induction env i rule: free_slot.induct)
  case (1 env i)
  show ?case
  proof (cases "i < NR_TASKS \<and> task env i \<noteq> None")
    case True
    with 1 have IH: "Suc i \<le> free_slot env (Suc i) \<and> free_slot env (Suc i) \<le> NR_TASKS \<and>
      (free_slot env (Suc i) < NR_TASKS \<longrightarrow> task env (free_slot env (Suc i)) = None) \<and>
      (\<forall>j. Suc i \<le> j \<and> j < free_slot env (Suc i) \<longrightarrow> task env j \<noteq> None)"
      by simp
    have eq: "free_slot env i = free_slot env (Suc i)" using True by (simp add: free_slot.simps [of env i])
    have "task env j \<noteq> None" if "i \<le> j" "j < free_slot env (Suc i)" for j
      using IH True that by (cases "j = i") auto
    with IH show ?thesis unfolding eq by auto
  next
    case False
    then have "free_slot env i = i" by (auto simp: free_slot.simps [of env i])
    with False 1(2) show ?thesis by auto
  qed
qed

text \<open>The control block of a new coroutine and the state that contains it.\<close>

definition new_task :: "arch \<Rightarrow> taskp \<Rightarrow> nat \<Rightarrow> voidp \<Rightarrow> voidp \<Rightarrow> envp \<Rightarrow> task_struct_t" where
  "new_task ar p i fn a ep = init_stack ar p
     (zero_task\<lparr>tsk_id := i, co_fn := fn, arg := a, thread_env := Some ep\<rparr>)"

definition with_new_task ::
  "arch \<Rightarrow> envp \<Rightarrow> thread_env_t \<Rightarrow> nat \<Rightarrow> voidp \<Rightarrow> voidp \<Rightarrow> 'k \<Rightarrow> 'k co_state \<Rightarrow> 'k co_state" where
  "with_new_task ar ep env i fn a k s =
     s\<lparr>heap := (heap s)(brk s \<mapsto> new_task ar (brk s) i fn a ep),
       envs := (envs s)(ep \<mapsto> env\<lparr>task := (task env)(i \<mapsto> brk s), task_count := task_count env + 1\<rparr>),
       queues := put_elem (brk s) \<lparr>tqe_next = None, tqe_prev = None\<rparr> (queues s),
       brk := brk s + 1, kst := k\<rparr>"

lemma new_task_fields [simp]:
  "tsk_id (new_task ar p i fn a ep) = i" "thread_env (new_task ar p i fn a ep) = Some ep"
  "status (new_task ar p i fn a ep) = COROUTINE_RUNNING" "fds_idx (new_task ar p i fn a ep) = 0"
  "co_fn (new_task ar p i fn a ep) = fn" "arg (new_task ar p i fn a ep) = a"
  by (simp_all add: new_task_def init_stack_def zero_task_def split: arch.split)

lemma co_create_eq:
  assumes "thread_has s tid ep" and "envs s ep = Some env"
  shows "co_create K tid nn fn a s =
    (if free_slot env 0 = NR_TASKS then Inr (-1, None, s)
     else
       (case os_calloc K (kst s) of (ok, k) \<Rightarrow>
        if ok
        then Inr (0, if nn then Some (free_slot env 0) else None,
               with_new_task (os_arch K) ep env (free_slot env 0) fn a k s)
        else Inl NullDeref))"
proof -
  have zero: "zero_task\<lparr>tsk_id := i, co_fn := fn, arg := a, thread_env := Some ep, wakeuptime := 0,
      status := COROUTINE_RUNNING, fds_idx := 0\<rparr> =
    zero_task\<lparr>tsk_id := i, co_fn := fn, arg := a, thread_env := Some ep\<rparr>" for i
    by (simp add: zero_task_def)
  show ?thesis
    using assms
    by (simp add: co_create_def thread_has_get [OF assms(1)] Let_def calloc_task_def syscall_def
        nonnull_def mod_env_def get_env_def mod_task_def get_task_def zero with_new_task_def
        new_task_def split: prod.splits)
qed

lemma env_ok_finite:
  assumes "env_ok s ep env"
  shows "finite (dom (task env))"
proof -
  have "dom (task env) \<subseteq> {..<NR_TASKS}" using assms by (auto simp: env_ok_def)
  then show ?thesis by (rule finite_subset) simp
qed

lemma state_ok_new_task:
  assumes ok: "state_ok s" and env: "envs s ep = Some env" and i: "task env i = None" "i < NR_TASKS"
  shows "state_ok (with_new_task ar ep env i fn a k s)" (is "state_ok ?s'")
proof -
  have env_old: "e < brk s \<and> env_ok s e ev" if "envs s e = Some ev" for e ev
    using state_ok_env [OF ok that] .
  have old: "p < brk s \<and> fds_idx t \<le> MAX_FD \<and> registered s p t" if "heap s p = Some t" for p t
    using state_ok_heap [OF ok that] .
  have fresh: "heap s (brk s) = None" using old [of "brk s"] by (cases "heap s (brk s)") auto
  have heap': "heap ?s' p = (if p = brk s then Some (new_task ar (brk s) i fn a ep) else heap s p)" for p
    by (simp add: with_new_task_def)
  have keep: "env_ok ?s' e ev" if "env_ok s e ev" for e ev
    using that fresh unfolding env_ok_def heap' by (metis option.distinct(1))
  let ?env' = "env\<lparr>task := (task env)(i \<mapsto> brk s), task_count := task_count env + 1\<rparr>"
  have "env_ok ?s' ep ?env'"
  proof -
    have e: "env_ok ?s' ep env" using keep env_old [OF env] by blast
    have "card (dom ((task env)(i \<mapsto> brk s))) = Suc (card (dom (task env)))"
      using i env_ok_finite [OF e] by (simp add: domIff)
    moreover have "\<exists>c j. current env = Some c \<and> ((task env)(i \<mapsto> brk s)) j = Some c"
      using e i unfolding env_ok_def by (metis fun_upd_other option.distinct(1))
    ultimately show ?thesis using e i unfolding env_ok_def by (auto simp: heap')
  qed
  then have 1: "e < brk ?s' \<and> env_ok ?s' e ev" if "envs ?s' e = Some ev" for e ev
    using that env_old [of e ev] env_old [OF env] keep
    by (auto simp: with_new_task_def less_Suc_eq split: if_splits)
  have 2: "p < brk ?s' \<and> fds_idx t \<le> MAX_FD \<and> registered ?s' p t" if t: "heap ?s' p = Some t" for p t
  proof (cases "p = brk s")
    case True
    with t show ?thesis by (auto simp: heap' registered_def) (simp_all add: with_new_task_def)
  next
    case False
    with t have "heap s p = Some t" by (simp add: heap')
    with old [OF this] False env i show ?thesis
      by (auto simp: registered_def with_new_task_def split: option.splits if_splits)
  qed
  have 3: "j < MAX_THREAD_NUM \<and> e \<in> dom (envs ?s')" if "g_thread_env_arr ?s' j = Some e" for j e
    using state_ok_slot [OF ok, of j e] that by (auto simp: with_new_task_def)
  have 4: "j = l" if "g_thread_env_arr ?s' j = Some e" "g_thread_env_arr ?s' l = Some e" for j l e
    using state_ok_slot_inj [OF ok, of j e l] that by (simp add: with_new_task_def)
  have "dom (tq_elems (queues ?s')) = dom (heap ?s')"
    "dom (tq_heads (queues ?s')) = dom (envs ?s') \<times> {0..<int MAX_FD}"
    using state_ok_blocks [OF ok] env by (auto simp: with_new_task_def put_elem_def)
  with 1 2 3 4 show ?thesis unfolding state_ok_def by blast
qed

lemma co_create_state_ok [wf_intros]:
  assumes "state_ok s" and "co_create K tid nn fn a s = Inr (r, out, s')"
  shows "state_ok s'"
proof -
  obtain ep s1 where s1: "co_get_thread_env K tid s = Inr (ep, s1)"
    using assms(2) by (auto simp: co_create_def elim: bnd_InrE)
  have th: "thread_has s1 tid ep" by (rule co_get_thread_env_has [OF s1])
  have ok: "state_ok s1" by (rule state_ok_get_thread_env [OF s1 assms(1)])
  obtain env where env: "envs s1 ep = Some env" using thread_has_env [OF ok th] by blast
  have "co_create K tid nn fn a s = co_create K tid nn fn a s1"
    using s1 thread_has_get [OF th, of K] by (simp add: co_create_def)
  then have r: "co_create K tid nn fn a s1 = Inr (r, out, s')" using assms(2) by simp
  show ?thesis
  proof (cases "free_slot env 0 = NR_TASKS")
    case True
    with r ok show ?thesis by (simp add: co_create_eq [OF th env])
  next
    case False
    with free_slot_spec [of 0 env] have "free_slot env 0 < NR_TASKS" "task env (free_slot env 0) = None"
      by auto
    with r False ok env show ?thesis
      by (auto simp: co_create_eq [OF th env] state_ok_new_task split: prod.splits if_splits)
  qed
qed


section \<open>Joining a coroutine\<close>

text \<open>The state after the block \<open>p\<close> at index \<open>i\<close> has been freed.\<close>

definition without_task ::
  "envp \<Rightarrow> thread_env_t \<Rightarrow> nat \<Rightarrow> taskp \<Rightarrow> 'k co_state \<Rightarrow> 'k co_state" where
  "without_task ep env i p s =
     s\<lparr>heap := (heap s)(p := None),
       envs := (envs s)(ep \<mapsto> env\<lparr>task := (task env)(i := None), task_count := task_count env - 1\<rparr>),
       queues := (queues s)\<lparr>tq_elems := (tq_elems (queues s))(p := None)\<rparr>\<rparr>"

lemma co_join_turn_eq:
  assumes "envs s ep = Some env" and "0 \<le> cid" and "cid < int NR_TASKS"
    and "task env (nat cid) = Some p" and "heap s p = Some t"
  shows "co_join_turn K tid ep cid s =
    (if status t = COROUTINE_EXIT then Inr (True, without_task ep env (nat cid) p s)
     else bnd (schedule K tid s) (\<lambda>s. Inr (False, s)))"
  using assms
  by (simp add: co_join_turn_def get_env_def get_task_def nonnull_def free_task_def mod_env_def
      without_task_def)

text \<open>A block is in one table, and there at one index.\<close>

lemma entry_elsewhere:
  assumes ok: "state_ok s" and p: "envs s ep = Some env" "task env i = Some p"
    and q: "envs s e = Some ev" "task ev j = Some q" and ne: "e \<noteq> ep \<or> j \<noteq> i"
  shows "q \<noteq> p"
proof
  assume "q = p"
  moreover obtain t where "heap s p = Some t" "tsk_id t = i" "thread_env t = Some ep"
    by (rule state_ok_entry [OF ok p])
  moreover obtain t' where "heap s q = Some t'" "tsk_id t' = j" "thread_env t' = Some e"
    by (rule state_ok_entry [OF ok q])
  ultimately show False using ne by auto
qed

lemma env_ok_without_task:
  assumes ok: "state_ok s" and env: "envs s ep = Some env" and p: "task env i = Some p"
    and cur: "current env \<noteq> Some p" and E: "envs (without_task ep env i p s) e = Some ev"
  shows "env_ok (without_task ep env i p s) e ev" (is "env_ok ?s' e ev")
proof (cases "e = ep")
  case False
  then have old: "envs s e = Some ev" using E by (simp add: without_task_def)
  have "heap ?s' q = heap s q" if "task ev j = Some q" for j q
    using entry_elsewhere [OF ok env p old that] False by (simp add: without_task_def)
  with state_ok_env [OF ok old] show ?thesis unfolding env_ok_def by simp
next
  case True
  then have ev: "ev = env\<lparr>task := (task env)(i := None), task_count := task_count env - 1\<rparr>"
    using E by (simp add: without_task_def)
  have e: "env_ok s ep env" using state_ok_env [OF ok env] by simp
  have "card (dom ((task env)(i := None))) = card (dom (task env)) - 1"
    using p by (simp add: domIff)
  moreover have "card (dom (task env)) \<noteq> 0" using p env_ok_finite [OF e] by auto
  moreover obtain c j where c: "current env = Some c" "task env j = Some c"
    using e unfolding env_ok_def by blast
  moreover have "j \<noteq> i" using c p cur by auto
  moreover have "heap ?s' q = heap s q" if "task env l = Some q" "l \<noteq> i" for l q
    using entry_elsewhere [OF ok env p env that(1)] that(2) by (simp add: without_task_def)
  ultimately show ?thesis using e True unfolding env_ok_def ev by auto
qed

lemma state_ok_without_task:
  assumes ok: "state_ok s" and env: "envs s ep = Some env" and p: "task env i = Some p"
    and cur: "current env \<noteq> Some p"
  shows "state_ok (without_task ep env i p s)" (is "state_ok ?s'")
proof -
  have heap': "heap ?s' q = (if q = p then None else heap s q)" for q
    by (simp add: without_task_def)
  note keep = env_ok_without_task [OF ok env p cur]
  with keep have 1: "e < brk ?s' \<and> env_ok ?s' e ev" if "envs ?s' e = Some ev" for e ev
    using that state_ok_env [OF ok, of e ev] state_ok_env [OF ok env]
    by (auto simp: without_task_def split: if_splits)
  have 2: "q < brk ?s' \<and> fds_idx t \<le> MAX_FD \<and> registered ?s' q t" if "heap ?s' q = Some t" for q t
  proof -
    from that have q: "q \<noteq> p" "heap s q = Some t" by (auto simp: heap' split: if_splits)
    with state_ok_heap [OF ok q(2)] env p show ?thesis
      by (auto simp: registered_def without_task_def split: option.splits if_splits)
  qed
  have 3: "j < MAX_THREAD_NUM \<and> e \<in> dom (envs ?s')" if "g_thread_env_arr ?s' j = Some e" for j e
    using state_ok_slot [OF ok, of j e] that by (auto simp: without_task_def)
  have 4: "j = l" if "g_thread_env_arr ?s' j = Some e" "g_thread_env_arr ?s' l = Some e" for j l e
    using state_ok_slot_inj [OF ok, of j e l] that by (simp add: without_task_def)
  have "dom (tq_elems (queues ?s')) = dom (heap ?s')"
    "dom (tq_heads (queues ?s')) = dom (envs ?s') \<times> {0..<int MAX_FD}"
    using state_ok_blocks [OF ok] env by (auto simp: without_task_def)
  with 1 2 3 4 show ?thesis unfolding state_ok_def by blast
qed

lemma co_join_turn_ok:
  assumes ok: "state_ok s" and th: "thread_has s tid ep" and cur: "is_current s ep env c tc"
    and run: "status tc \<noteq> COROUTINE_EXIT" and "co_join_turn K tid ep cid s = Inr (finished, s')"
  shows "state_ok s' \<and> (\<exists>env' p t. is_current s' ep env' p t \<and>
    (finished \<longrightarrow> p = c \<and> t = tc) \<and> (\<not> finished \<longrightarrow> status t = COROUTINE_RUNNING))"
proof -
  note c = is_currentD [OF ok cur]
  obtain p where cid: "0 \<le> cid" "cid < int NR_TASKS" "task env (nat cid) = Some p"
    using assms(5) c(1) by (auto simp: co_join_turn_def get_env_def elim!: bnd_InrE split: if_splits)
  obtain t where t: "heap s p = Some t" by (rule state_ok_entry [OF ok c(1) cid(3)])
  note eq = co_join_turn_eq [OF c(1) cid t, of K tid]
  show ?thesis
  proof (cases "status t = COROUTINE_EXIT")
    case True
    then have s': "finished" "s' = without_task ep env (nat cid) p s" using assms(5) eq by auto
    have "p \<noteq> c" using True t c(3) run by auto
    then show ?thesis
      using s' state_ok_without_task [OF ok c(1) cid(3)] c
      by (auto simp: is_current_def without_task_def)
  next
    case False
    then have s': "\<not> finished" "schedule K tid s = Inr s'" using assms(5) eq by (auto simp: bnd_eq_Inr)
    with schedule_ok [OF ok th cur s'(2)] show ?thesis by blast
  qed
qed

section \<open>Finishing a coroutine\<close>

lemma release_one_eq:
  assumes "heap s p = Some t" and "0 < fds_idx t" and "fds_idx t \<le> MAX_FD" and "envs s ep = Some env"
  shows "release_one K (Some ep) p s =
    on_queues (TAILQ_REMOVE (ep, fds t (fds_idx t - 1)) (Some p))
      (s\<lparr>heap := (heap s)(p \<mapsto> t\<lparr>fds_idx := fds_idx t - 1\<rparr>),
         kst := snd (os_epoll_ctl K (epfd env) EPOLL_CTL_DEL (fds t (fds_idx t - 1)) None (kst s))\<rparr>)"
proof -
  have "\<not> MAX_FD \<le> fds_idx t - 1" using assms(2,3) by simp
  with assms show ?thesis
    by (simp add: release_one_def get_task_def get_env_def mod_task_def nonnull_def Let_def
        syscall_def split: prod.split)
qed

lemma release_one_Inr:
  assumes "heap s p = Some t" and "0 < fds_idx t" and "release_one K epo p s = Inr s'"
  shows "same_tasks s s' \<and> heap s' = (heap s)(p \<mapsto> t\<lparr>fds_idx := fds_idx t - 1\<rparr>)"
  using assms
  by (auto simp: release_one_def get_task_def get_env_def mod_task_def nonnull_def Let_def
      syscall_def on_queues_eq_Inr same_tasks_def same_blocks_refl
      dest!: TAILQ_REMOVE_blocks elim!: bnd_InrE split: prod.splits if_splits)

text \<open>
  The loop ends, because every turn lowers \<open>fds_idx\<close>; without a fault it leaves \<open>fds_idx\<close> zero
  and changes no other field of any control block.
\<close>

lemma release_fds_ends:
  "heap s p = Some t \<Longrightarrow> \<exists>r. release_fds K epo p s = Some r"
proof (induction "fds_idx t" arbitrary: s t)
  case 0
  then show ?case by (subst release_fds.simps) (simp add: get_task_def)
next
  case (Suc n)
  show ?case
  proof (cases "release_one K epo p s")
    case (Inl f)
    with Suc show ?thesis by (subst release_fds.simps) (simp add: get_task_def)
  next
    case (Inr s')
    have "heap s' p = Some (t\<lparr>fds_idx := n\<rparr>)"
      using release_one_Inr [OF Suc.prems _ Inr] Suc.hyps(2) by (metis diff_Suc_1 fun_upd_same zero_less_Suc)
    then obtain r where "release_fds K epo p s' = Some r"
      using Suc.hyps(1) [of "t\<lparr>fds_idx := n\<rparr>" s'] by auto
    with Inr Suc show ?thesis by (subst release_fds.simps) (simp add: get_task_def)
  qed
qed

lemma release_fds_Inr:
  "heap s p = Some t \<Longrightarrow> release_fds K epo p s = Some (Inr s') \<Longrightarrow>
     same_tasks s s' \<and> heap s' = (heap s)(p \<mapsto> t\<lparr>fds_idx := 0\<rparr>)"
proof (induction "fds_idx t" arbitrary: s t)
  case 0
  then have "s' = s" by (subst (asm) release_fds.simps) (simp add: get_task_def)
  moreover have "t\<lparr>fds_idx := 0\<rparr> = t" using 0 by simp
  ultimately show ?case using 0 by (simp add: same_tasks_refl map_upd_triv)
next
  case (Suc n)
  obtain s1 where s1: "release_one K epo p s = Inr s1" "release_fds K epo p s1 = Some (Inr s')"
    using Suc.prems Suc.hyps(2)
    by (subst (asm) release_fds.simps) (auto simp: get_task_def split: sum.splits if_splits)
  have one: "same_tasks s s1" "heap s1 = (heap s)(p \<mapsto> t\<lparr>fds_idx := n\<rparr>)"
    using release_one_Inr [OF Suc.prems(1) _ s1(1)] Suc.hyps(2) [symmetric] by simp_all
  have "same_tasks s1 s' \<and> heap s' = (heap s1)(p \<mapsto> t\<lparr>fds_idx := n, fds_idx := 0\<rparr>)"
    by (rule Suc.hyps(1) [OF _ _ s1(2)]) (simp_all add: one(2))
  with one show ?case by (simp add: same_tasks_trans)
qed

lemma start_cleanup_Inr:
  assumes "heap s p = Some t" and "start_cleanup K p s = Inr s'"
  shows "same_tasks s s' \<and> heap s' = (heap s)(p \<mapsto> t\<lparr>status := COROUTINE_EXIT, fds_idx := 0\<rparr>)"
proof -
  let ?s1 = "s\<lparr>heap := (heap s)(p \<mapsto> t\<lparr>status := COROUTINE_EXIT\<rparr>)\<rparr>"
  have "release_fds K (thread_env t) p ?s1 = Some (Inr s')"
    using assms by (simp add: start_cleanup_def get_task_def mod_task_def split: option.splits)
  from release_fds_Inr [OF _ this, of "t\<lparr>status := COROUTINE_EXIT\<rparr>"]
  have "same_tasks ?s1 s'" "heap s' = (heap s)(p \<mapsto> t\<lparr>status := COROUTINE_EXIT, fds_idx := 0\<rparr>)"
    by simp_all
  moreover have "same_tasks s ?s1" using assms(1) by (auto simp: same_tasks_def)
  ultimately show ?thesis using same_tasks_trans by blast
qed

text \<open>The clean-up faults only on a bad memory access: it never loops and never exits.\<close>

lemma release_one_fault:
  "release_one K epo p s = Inl f \<Longrightarrow> mem_fault f"
  by (auto simp: release_one_def get_task_def get_env_def mod_task_def nonnull_def Let_def
      syscall_def on_queues_def bnd_eq_Inl split: option.splits prod.splits if_splits
      dest: TAILQ_REMOVE_fault)

lemma release_fds_fault:
  "heap s p = Some t \<Longrightarrow> release_fds K epo p s = Some (Inl f) \<Longrightarrow>
     mem_fault f"
proof (induction "fds_idx t" arbitrary: s t)
  case 0
  then show ?case by (subst (asm) release_fds.simps) (simp add: get_task_def)
next
  case (Suc n)
  show ?case
  proof (cases "release_one K epo p s")
    case (Inl f')
    with Suc.prems Suc.hyps(2) have "f = f'"
      by (subst (asm) release_fds.simps) (simp add: get_task_def)
    with release_one_fault [OF Inl] show ?thesis by simp
  next
    case (Inr s1)
    have "heap s1 p = Some (t\<lparr>fds_idx := n\<rparr>)"
      using release_one_Inr [OF Suc.prems(1) _ Inr] Suc.hyps(2) [symmetric] by simp
    moreover have "release_fds K epo p s1 = Some (Inl f)"
      using Suc.prems Suc.hyps(2) Inr by (subst (asm) release_fds.simps) (simp add: get_task_def)
    ultimately show ?thesis by (intro Suc.hyps(1) [of "t\<lparr>fds_idx := n\<rparr>" s1]) simp_all
  qed
qed

lemma start_cleanup_fault:
  assumes "heap s p = Some t" and "start_cleanup K p s = Inl f"
  shows "mem_fault f"
proof -
  let ?s1 = "s\<lparr>heap := (heap s)(p \<mapsto> t\<lparr>status := COROUTINE_EXIT\<rparr>)\<rparr>"
  have "heap ?s1 p = Some (t\<lparr>status := COROUTINE_EXIT\<rparr>)" by simp
  moreover have "release_fds K (thread_env t) p ?s1 = Some (Inl f)"
    using assms release_fds_ends [OF calculation, of K "thread_env t"]
    by (auto simp: start_cleanup_def get_task_def mod_task_def)
  ultimately show ?thesis by (rule release_fds_fault)
qed

text \<open>
  After the switch of \<open>start\<close> the finished coroutine is not the current one: the thread runs
  another, runnable coroutine.
\<close>

lemma start_finish_leaves:
  assumes ok: "state_ok s" and th: "thread_has s tid ep" and cur: "is_current s ep env p t"
    and "start_finish K tid p s = Inr s'"
  shows "state_ok s' \<and> heap s' p = Some (t\<lparr>status := COROUTINE_EXIT, fds_idx := 0\<rparr>) \<and>
    (\<exists>env' c tc. is_current s' ep env' c tc \<and> c \<noteq> p \<and> status tc = COROUTINE_RUNNING)"
proof -
  let ?t = "t\<lparr>status := COROUTINE_EXIT, fds_idx := 0\<rparr>"
  obtain s1 where s1: "start_cleanup K p s = Inr s1" "schedule K tid s1 = Inr s'"
    using assms(4) unfolding start_finish_def by (rule bnd_InrE)
  have c: "same_tasks s s1" "heap s1 = (heap s)(p \<mapsto> ?t)"
    using start_cleanup_Inr [OF is_currentD(3) [OF ok cur] s1(1)] by simp_all
  have ok1: "state_ok s1" using c(1) ok by (rule state_ok_same_tasks)
  have th1: "thread_has s1 tid ep" using th c(1) by (simp add: thread_has_def same_tasks_def)
  have cur1: "is_current s1 ep env p ?t"
    using cur c by (simp add: is_current_def same_tasks_def)
  obtain q where q: "rescheduled K ep env (tsk_id ?t) s1 s' q"
    by (rule schedule_rescheduled [OF ok1 th1 cur1 s1(2)])
  have t': "heap s' p = Some ?t"
    using rescheduled_frame [OF q] c(2) by simp
  from rescheduled_ok [OF ok1 cur1 q] obtain tq where
    "state_ok s'" "is_current s' ep (env\<lparr>current := Some q\<rparr>) q tq" "status tq = COROUTINE_RUNNING"
    by blast
  moreover from this t' have "q \<noteq> p" by (auto simp: is_current_def)
  ultimately show ?thesis using t' by blast
qed

lemma release_fds_step:
  assumes "heap s p = Some t" and "0 < fds_idx t" and "release_one K epo p s = Inr s1"
  shows "release_fds K epo p s = release_fds K epo p s1"
  using assms by (subst release_fds.simps) (simp add: get_task_def)

lemma release_fds_done:
  assumes "heap s p = Some t" and "fds_idx t = 0"
  shows "release_fds K epo p s = Some (Inr s)"
  using assms by (subst release_fds.simps) (simp add: get_task_def)

text \<open>One turn for a coroutine whose link fields are stale.\<close>

lemma release_one_stale:
  assumes "heap s p = Some t" and "0 < fds_idx t" and "fds_idx t \<le> MAX_FD" and "envs s ep = Some env"
    and "fds t (fds_idx t - 1) = fd" and "tq_elems (queues s) p = Some (stale_entry (ep, fd0))"
    and "(ep, fd) \<in> dom (tq_heads (queues s))" and "(ep, fd0) \<in> dom (tq_heads (queues s))"
  shows "\<exists>s' m'. release_one K (Some ep) p s = Inr s' \<and> queues s' = m' \<and>
    TAILQ_REMOVE (ep, fd) (Some p) (queues s) = Inr m' \<and> tq_elems m' = tq_elems (queues s) \<and>
    dom (tq_heads m') = dom (tq_heads (queues s)) \<and> envs s' = envs s \<and>
    heap s' = (heap s)(p \<mapsto> t\<lparr>fds_idx := fds_idx t - 1\<rparr>)"
  using assms TAILQ_REMOVE_stale [OF assms(6-8)]
  by (auto simp: release_one_eq [OF assms(1-4)] on_queues_def)

lemma start_cleanup_unfold:
  assumes "heap s p = Some t" and "thread_env t = Some ep"
  shows "start_cleanup K p s =
    (case release_fds K (Some ep) p (s\<lparr>heap := (heap s)(p \<mapsto> t\<lparr>status := COROUTINE_EXIT\<rparr>)\<rparr>) of
       None \<Rightarrow> Inl Hang | Some r \<Rightarrow> r)"
  using assms by (simp add: start_cleanup_def get_task_def mod_task_def)

lemma start_cleanup_one_fd:
  assumes "heap s p = Some t" and "thread_env t = Some ep" and "envs s ep = Some env"
    and "fds_idx t = 1" and "fds t 0 = fd" and "(ep, fd) \<in> dom (tq_heads (queues s))"
    and "tq_elems (queues s) p = Some (stale_entry (ep, fd))" and "tq_family (queues s) q"
  shows "\<exists>m. start_cleanup K p s = Inr (s\<lparr>heap := (heap s)(p \<mapsto> t\<lparr>status := COROUTINE_EXIT, fds_idx := 0\<rparr>),
      kst := snd (os_epoll_ctl K (epfd env) EPOLL_CTL_DEL fd None (kst s)), queues := m\<rparr>) \<and>
    tq_family m (q((ep, fd) := [])) \<and> tq_elems m = tq_elems (queues s)"
proof -
  let ?t = "t\<lparr>status := COROUTINE_EXIT\<rparr>"
  let ?s = "s\<lparr>heap := (heap s)(p \<mapsto> ?t)\<rparr>"
  obtain m where m: "TAILQ_REMOVE (ep, fd) (Some p) (queues s) = Inr m" "tq_rep m (ep, fd) []"
      "tq_frame (ep, fd) {} (queues s) m"
    using TAILQ_REMOVE_stale_same [OF assms(7,6)] by blast
  let ?s1 = "s\<lparr>heap := (heap s)(p \<mapsto> t\<lparr>status := COROUTINE_EXIT, fds_idx := 0\<rparr>),
      kst := snd (os_epoll_ctl K (epfd env) EPOLL_CTL_DEL fd None (kst s)), queues := m\<rparr>"
  have one: "release_one K (Some ep) p ?s = Inr ?s1"
    using assms(3-5) m(1)
    by (simp add: release_one_eq [where t = ?t and ep = ep and env = env] MAX_FD_def on_queues_def)
  have "start_cleanup K p s = Inr ?s1"
    using release_fds_step [OF _ _ one, of ?t] assms(4)
    by (simp add: start_cleanup_unfold [OF assms(1,2)] release_fds_done)
  moreover have "tq_family m (q((ep, fd) := []))"
    using tq_family_update [OF assms(8) m(3,2)] by simp
  moreover have "tq_elems m = tq_elems (queues s)" using m(3) by (simp add: tq_frame_def fun_eq_iff)
  ultimately show ?thesis by blast
qed

lemma start_cleanup_two_fds:
  assumes "heap s p = Some t" and "thread_env t = Some ep" and "envs s ep = Some env"
    and "fds_idx t = 2" and "fds t 0 = fd0" and "fds t 1 = fd1" and "fd0 \<noteq> fd1"
    and "(ep, fd0) \<in> dom (tq_heads (queues s))" and "(ep, fd1) \<in> dom (tq_heads (queues s))"
    and "tq_elems (queues s) p = Some (stale_entry (ep, fd1))"
  shows "\<exists>s'. start_cleanup K p s = Inr s' \<and> tq_elems (queues s') = tq_elems (queues s) \<and>
    dom (tq_heads (queues s')) = dom (tq_heads (queues s)) \<and>
    map_option tqh_last (tq_heads (queues s') (ep, fd0)) = Some (Some (HeadFirst (ep, fd1)))"
proof -
  let ?t = "t\<lparr>status := COROUTINE_EXIT\<rparr>"
  let ?s = "s\<lparr>heap := (heap s)(p \<mapsto> ?t)\<rparr>"
  obtain s1 where s1: "release_one K (Some ep) p ?s = Inr s1"
      "tq_elems (queues s1) = tq_elems (queues s)"
      "dom (tq_heads (queues s1)) = dom (tq_heads (queues s))" "envs s1 = envs s"
      "heap s1 p = Some (?t\<lparr>fds_idx := 1\<rparr>)"
    using release_one_stale [of ?s p ?t ep env fd1 fd1 K] assms by (auto simp: MAX_FD_def)
  obtain s2 where s2: "release_one K (Some ep) p s1 = Inr s2"
      "TAILQ_REMOVE (ep, fd0) (Some p) (queues s1) = Inr (queues s2)"
      "heap s2 p = Some (?t\<lparr>fds_idx := 0\<rparr>)" "tq_elems (queues s2) = tq_elems (queues s1)"
      "dom (tq_heads (queues s2)) = dom (tq_heads (queues s1))"
    using release_one_stale [of s1 p "?t\<lparr>fds_idx := 1\<rparr>" ep env fd0 fd1 K] s1 assms
    by (auto simp: MAX_FD_def)
  have "start_cleanup K p s = Inr s2"
    using release_fds_step [OF _ _ s1(1), of ?t] release_fds_step [OF s1(5) _ s2(1)]
      release_fds_done [OF s2(3)] assms(4)
    by (simp add: start_cleanup_unfold [OF assms(1,2)])
  moreover have "map_option tqh_last (tq_heads (queues s2) (ep, fd0)) = Some (Some (HeadFirst (ep, fd1)))"
    using s2(2) TAILQ_REMOVE_stale [of "queues s1" p "(ep, fd1)" "(ep, fd0)"] s1(2,3) assms(7-10)
    by (simp add: eq_commute [of _ "queues s2"])
  ultimately show ?thesis using s1(2,3) s2(4,5) by simp
qed

text \<open>
  A head whose \<open>tqh_last\<close> is another head is no queue, whatever is linked, and what is inserted at
  its tail becomes the first element of the other queue.
\<close>

lemma wrong_last_no_queue:
  assumes "map_option tqh_last (tq_heads m h) = Some (Some (HeadFirst h'))" and "h \<noteq> h'"
  shows "\<not> tq_rep m h xs"
  using assms by (auto simp: tq_rep_def end_slot_def split: if_splits)

lemma wrong_last_insert:
  assumes "map_option tqh_last (tq_heads m h) = Some (Some (HeadFirst h'))" and "h \<noteq> h'"
    and "h' \<in> dom (tq_heads m)" and "e \<in> dom (tq_elems m)"
  shows "\<exists>m'. TAILQ_INSERT_TAIL h (Some e) m = Inr m' \<and> TAILQ_FIRST h' m' = Inr (Some e) \<and>
    TAILQ_FIRST h m' = TAILQ_FIRST h m"
  using assms by (auto simp: TAILQ_INSERT_TAIL_def TAILQ_FIRST_def fault_simps)

section \<open>A coroutine from creation to join\<close>

lemma create_join_table:
  assumes ok: "state_ok s" and th: "thread_has s tid ep" and env: "envs s ep = Some env"
    and create: "co_create K tid True fn a s = Inr (0, Some i, s1)"
  shows "\<exists>p t s2. heap s p = None \<and> heap s1 p = Some t \<and> co_fn t = fn \<and> arg t = a \<and>
    status t = COROUTINE_RUNNING \<and> task env i = None \<and>
    co_join_turn K' tid ep (int i) (s1\<lparr>heap := (heap s1)(p \<mapsto> t\<lparr>status := COROUTINE_EXIT\<rparr>)\<rparr>) = Inr (True, s2) \<and>
    envs s2 = envs s \<and> heap s2 = heap s \<and> task env i = None"
proof -
  have i: "free_slot env 0 \<noteq> NR_TASKS" "i = free_slot env 0"
    "\<exists>k. s1 = with_new_task (os_arch K) ep env i fn a k s"
    using create by (auto simp: co_create_eq [OF th env] split: if_splits prod.splits)
  then obtain k where s1: "s1 = with_new_task (os_arch K) ep env i fn a k s" by blast
  have slot: "i < NR_TASKS" "task env i = None"
    using free_slot_spec [of 0 env] i(1,2) by auto
  have fresh: "heap s (brk s) = None"
    using state_ok_heap [OF ok, of "brk s"] by (cases "heap s (brk s)") auto
  let ?t = "new_task (os_arch K) (brk s) i fn a ep"
  let ?env = "env\<lparr>task := (task env)(i \<mapsto> brk s), task_count := task_count env + 1\<rparr>"
  let ?s = "s1\<lparr>heap := (heap s1)(brk s \<mapsto> ?t\<lparr>status := COROUTINE_EXIT\<rparr>)\<rparr>"
  have "co_join_turn K' tid ep (int i) ?s = Inr (True, without_task ep ?env i (brk s) ?s)"
    using slot co_join_turn_eq [of ?s ep ?env "int i" "brk s" "?t\<lparr>status := COROUTINE_EXIT\<rparr>" K' tid]
    by (simp add: s1 with_new_task_def)
  moreover have "envs (without_task ep ?env i (brk s) ?s) = envs s"
  proof -
    have "(task env)(i := None) = task env" using slot by (simp add: fun_upd_idem_iff)
    then show ?thesis using env by (simp add: without_task_def s1 with_new_task_def map_upd_triv)
  qed
  moreover have "heap (without_task ep ?env i (brk s) ?s) = heap s"
    using fresh by (simp add: without_task_def s1 with_new_task_def fun_upd_idem_iff)
  moreover have "heap s1 (brk s) = Some ?t" by (simp add: s1 with_new_task_def)
  ultimately show ?thesis using fresh slot(2)
    by (intro exI [of _ "brk s"] exI [of _ ?t]) auto
qed

lemma co_join_turn_null:
  assumes "envs s ep = Some env" and "0 \<le> cid" and "cid < int NR_TASKS" and "task env (nat cid) = None"
  shows "co_join_turn K tid ep cid s = Inl NullDeref"
  using assms by (simp add: co_join_turn_def get_env_def nonnull_def)

lemma co_join_self:
  assumes ok: "state_ok s" and th: "thread_has s tid ep" and cur: "is_current s ep env c tc"
    and "status tc = COROUTINE_RUNNING" and "co_join_turn K tid ep (int (tsk_id tc)) s = Inr (finished, s')"
  shows "\<not> finished"
proof -
  note c = is_currentD [OF ok cur]
  show ?thesis using assms(5) c(4) assms(4)
    by (simp add: co_join_turn_eq [OF c(1) _ _ _ c(3)] c(5) bnd_eq_Inr)
qed

section \<open>A process with two coroutines\<close>

definition ex1_env :: thread_env_t where
  "ex1_env = \<lparr>task_count = 2, current = Some 1, epfd = 3, task = [0 \<mapsto> 1, 1 \<mapsto> 2]\<rparr>"

definition ex1_worker :: task_struct_t where
  "ex1_worker = new_task X86_64 2 1 100 200 0"

definition ex1 :: "nat co_state" where
  "ex1 = with_new_task X86_64 0 ex0_env 1 100 200 0 ex0"

lemma ex0_slot: "free_slot ex0_env 0 = 1"
  by (simp add: free_slot.simps ex0_env_def NR_TASKS_def)

lemma ex1_created: "co_create ex_os 1 True 100 200 ex0 = Inr (0, Some 1, ex1)"
proof -
  have "envs ex0 0 = Some ex0_env" by (simp add: ex0_fields)
  from co_create_eq [OF ex0_thread this] show ?thesis
    unfolding ex0_slot ex1_def by (simp add: ex_os_def NR_TASKS_def ex0_fields)
qed

lemma ex1_fields:
  "envs ex1 = [0 \<mapsto> ex1_env]" "heap ex1 = [1 \<mapsto> ex0_main, 2 \<mapsto> ex1_worker]" "brk ex1 = 3" "kst ex1 = 0"
  by (simp_all add: ex1_def with_new_task_def ex0_fields ex0_env_def ex1_env_def ex1_worker_def)

lemma ex1_ok: "state_ok ex1"
  by (rule co_create_state_ok [OF ex0_ok ex1_created])

lemma ex1_thread: "thread_has ex1 1 0"
  using ex0_thread by (simp add: thread_has_def ex1_def with_new_task_def)

lemma ex1_current: "is_current ex1 0 ex1_env 1 ex0_main"
  by (simp add: is_current_def ex1_fields ex1_env_def)

lemma ex1_worker_fields:
  "status ex1_worker = COROUTINE_RUNNING" "tsk_id ex1_worker = 1" "thread_env ex1_worker = Some 0"
  by (simp_all add: ex1_worker_def)

lemma ex1_entry: "task ex1_env i = Some p \<longleftrightarrow> i = 0 \<and> p = 1 \<or> i = 1 \<and> p = 2"
  by (auto simp: ex1_env_def split: if_splits)

text \<open>The same process when the worker is current, and when it has finished.\<close>

definition ex2 :: "nat co_state" where
  "ex2 = ex1\<lparr>envs := [0 \<mapsto> ex1_env\<lparr>current := Some 2\<rparr>]\<rparr>"

lemma ex2_ok: "state_ok ex2"
proof (rule state_ok_set_current [OF ex1_ok])
  show "mod_env 0 (\<lambda>env. env\<lparr>current := Some 2\<rparr>) ex1 = Inr ex2"
    by (simp add: mod_env_def get_env_def ex1_fields ex2_def)
  show "envs ex1 0 = Some ex1_env" by (simp add: ex1_fields)
  show "task ex1_env 1 = Some 2" by (simp add: ex1_entry)
qed

lemma ex2_thread: "thread_has ex2 1 0"
  using ex1_thread by (simp add: thread_has_def ex2_def)

lemma ex2_current: "is_current ex2 0 (ex1_env\<lparr>current := Some 2\<rparr>) 2 ex1_worker"
  by (simp add: is_current_def ex2_def ex1_fields)

lemma ex2_running: "running_at ex2 0 0"
proof -
  have "envs ex2 0 = Some (ex1_env\<lparr>current := Some 2\<rparr>)" by (simp add: ex2_def)
  from running_at_ok [OF ex2_ok this, of 0] show ?thesis
    by (simp add: ex1_entry [simplified] ex2_def ex1_fields ex0_main_fields)
qed

section \<open>Properties\<close>

text \<open>
  C20: co_create fails with -1 exactly when the table is full; otherwise it puts a fresh
  runnable control block with the given function and argument at the lowest free index, stores
  that index through cid, counts it, and keeps the state well-formed.
\<close>

theorem co_create_lowest_free:
  assumes "state_ok s" and "thread_has s tid ep" and "envs s ep = Some env"
    and "co_create K tid nn fn a s = Inr (r, out, s')"
  shows "(r = -1 \<and> s' = s \<and> out = None \<and> (\<forall>i < NR_TASKS. task env i \<noteq> None)) \<or>
    (r = 0 \<and> state_ok s' \<and>
     (\<exists>i p t env'. i < NR_TASKS \<and> task env i = None \<and> (\<forall>j < i. task env j \<noteq> None) \<and>
        out = (if nn then Some i else None) \<and> heap s p = None \<and> heap s' = (heap s)(p \<mapsto> t) \<and>
        envs s' = (envs s)(ep \<mapsto> env') \<and> task env' = (task env)(i \<mapsto> p) \<and>
        task_count env' = task_count env + 1 \<and> current env' = current env \<and>
        tsk_id t = i \<and> co_fn t = fn \<and> arg t = a \<and> thread_env t = Some ep \<and>
        status t = COROUTINE_RUNNING \<and> fds_idx t = 0))"
proof (cases "free_slot env 0 = NR_TASKS")
  case True
  with assms(4) free_slot_spec [of 0 env] show ?thesis
    by (auto simp: co_create_eq [OF assms(2,3)])
next
  case False
  define i where "i = free_slot env 0"
  have i: "i < NR_TASKS" "task env i = None" "\<forall>j < i. task env j \<noteq> None"
    using free_slot_spec [of 0 env] False by (auto simp: i_def)
  obtain k where k: "r = 0" "out = (if nn then Some i else None)"
      "s' = with_new_task (os_arch K) ep env i fn a k s"
    using assms(4) False by (auto simp: co_create_eq [OF assms(2,3)] i_def split: prod.splits if_splits)
  have "heap s (brk s) = None"
    using state_ok_heap [OF assms(1), of "brk s"] by (cases "heap s (brk s)") auto
  with i k have "i < NR_TASKS \<and> task env i = None \<and> (\<forall>j < i. task env j \<noteq> None) \<and>
        out = (if nn then Some i else None) \<and> heap s (brk s) = None \<and>
        heap s' = (heap s)(brk s \<mapsto> new_task (os_arch K) (brk s) i fn a ep) \<and>
        envs s' = (envs s)(ep \<mapsto> env\<lparr>task := (task env)(i \<mapsto> brk s), task_count := task_count env + 1\<rparr>)"
    by (simp add: with_new_task_def)
  moreover have "state_ok s'" by (rule co_create_state_ok [OF assms(1,4)])
  ultimately show ?thesis using k(1)
    by (intro disjI2 conjI exI [of _ i] exI [of _ "brk s"]
        exI [of _ "new_task (os_arch K) (brk s) i fn a ep"]
        exI [of _ "env\<lparr>task := (task env)(i \<mapsto> brk s), task_count := task_count env + 1\<rparr>"]) simp_all
qed

theorem co_create_lowest_free_witness:
  "state_ok ex1 \<and> (\<exists>p t env'. heap ex0 p = None \<and> heap ex1 = (heap ex0)(p \<mapsto> t) \<and> co_fn t = 100 \<and>
     envs ex1 = (envs ex0)(0 \<mapsto> env') \<and> task env' = (task ex0_env)(1 \<mapsto> p))"
proof -
  have "envs ex0 0 = Some ex0_env" by (simp add: ex0_fields)
  from co_create_lowest_free [OF ex0_ok ex0_thread this ex1_created] show ?thesis by fastforce
qed

text \<open>
  C21: Joining a coroutine that was created and has finished restores the table, the task count
  and the heap of control blocks that were there before its creation.
\<close>

theorem create_exit_join:
  assumes "state_ok s" and "thread_has s tid ep" and "envs s ep = Some env"
    and "co_create K tid True fn a s = Inr (0, Some i, s1)"
  shows "\<exists>p t s2. heap s p = None \<and> heap s1 p = Some t \<and>
    co_join_turn K tid ep (int i) (s1\<lparr>heap := (heap s1)(p \<mapsto> t\<lparr>status := COROUTINE_EXIT\<rparr>)\<rparr>) = Inr (True, s2) \<and>
    envs s2 = envs s \<and> heap s2 = heap s"
  using create_join_table [OF assms, of K] by blast

theorem create_exit_join_witness:
  "\<exists>p t s2. heap ex1 p = Some t \<and>
    co_join_turn ex_os 1 0 (int 1) (ex1\<lparr>heap := (heap ex1)(p \<mapsto> t\<lparr>status := COROUTINE_EXIT\<rparr>)\<rparr>) = Inr (True, s2) \<and>
    envs s2 = envs ex0 \<and> heap s2 = heap ex0"
proof -
  have "envs ex0 0 = Some ex0_env" by (simp add: ex0_fields)
  from create_exit_join [OF ex0_ok ex0_thread this ex1_created] show ?thesis by blast
qed

text \<open>
  One turn of co_join finishes exactly when the target has exited; then its block is freed
  and joining the same id again dereferences NULL. Otherwise the turn calls schedule.
\<close>

lemma co_join_waits:
  assumes "state_ok s" and "thread_has s tid ep" and "is_current s ep env c tc"
    and "task env i = Some p" and "heap s p = Some t" and "co_join_turn K tid ep (int i) s = Inr (finished, s')"
  shows "(finished \<longleftrightarrow> status t = COROUTINE_EXIT) \<and>
    (finished \<longrightarrow> heap s' p = None \<and> co_join_turn K tid ep (int i) s' = Inl NullDeref) \<and>
    (\<not> finished \<longrightarrow> schedule K tid s = Inr s')"
proof -
  note c = is_currentD [OF assms(1,3)]
  have "i < NR_TASKS" by (rule state_ok_entry [OF assms(1) c(1) assms(4)])
  then have i: "0 \<le> int i" "int i < int NR_TASKS" "task env (nat (int i)) = Some p"
    using assms(4) by simp_all
  let ?s = "without_task ep env i p s"
  have "envs ?s ep = Some (env\<lparr>task := (task env)(i := None), task_count := task_count env - 1\<rparr>)"
    by (simp add: without_task_def)
  from co_join_turn_null [OF this i(1,2)] have "co_join_turn K tid ep (int i) ?s = Inl NullDeref"
    by simp
  moreover have "heap ?s p = None" by (simp add: without_task_def)
  ultimately show ?thesis
    using assms(6) by (auto simp: co_join_turn_eq [OF c(1) i assms(5)] bnd_eq_Inr split: if_splits)
qed

lemma empty_family_elems:
  "tq_family (m\<lparr>tq_elems := E\<rparr>) (\<lambda>_. []) = tq_family m (\<lambda>_. [])"
  by (simp add: tq_family_def tq_rep_def)

definition ex_served :: "int list \<Rightarrow> nat co_state" where
  "ex_served l = ex0\<lparr>heap := [1 \<mapsto> ex0_main\<lparr>fds_idx := length l, fds := (\<lambda>i. l ! i)\<rparr>],
     queues := (queues ex0)\<lparr>tq_elems := [1 \<mapsto> stale_entry (0, last l)]\<rparr>\<rparr>"

text \<open>
  C24: A coroutine that has registered exactly two descriptors, different ones, and whose link
  fields are those of a wait on the newer one in which it was alone in the queue, corrupts the
  queue of the older one when it exits: no list describes that queue any more, and a coroutine
  inserted at its tail becomes the first element of the queue of the newer descriptor instead,
  while the first element of the older queue stays what it was.
\<close>

theorem exit_with_two_fds_corrupts:
  assumes "heap s p = Some t" and "thread_env t = Some ep" and "envs s ep = Some env"
    and "fds_idx t = 2" and "fds t 0 = fda" and "fds t 1 = fdb" and "fda \<noteq> fdb"
    and "(ep, fda) \<in> dom (tq_heads (queues s))" and "(ep, fdb) \<in> dom (tq_heads (queues s))"
    and "tq_elems (queues s) p = Some (stale_entry (ep, fdb))"
  shows "\<exists>s'. start_cleanup K p s = Inr s' \<and> (\<forall>xs. \<not> tq_rep (queues s') (ep, fda) xs) \<and>
    (\<forall>e \<in> dom (tq_elems (queues s)). \<exists>m. TAILQ_INSERT_TAIL (ep, fda) (Some e) (queues s') = Inr m \<and>
       TAILQ_FIRST (ep, fdb) m = Inr (Some e) \<and> TAILQ_FIRST (ep, fda) m = TAILQ_FIRST (ep, fda) (queues s'))"
proof -
  obtain s' where s': "start_cleanup K p s = Inr s'" "tq_elems (queues s') = tq_elems (queues s)"
      "dom (tq_heads (queues s')) = dom (tq_heads (queues s))"
      "map_option tqh_last (tq_heads (queues s') (ep, fda)) = Some (Some (HeadFirst (ep, fdb)))"
    using start_cleanup_two_fds [OF assms, of K] by (elim exE conjE)
  have ne: "(ep, fda) \<noteq> (ep, fdb)" using assms(7) by simp
  from wrong_last_no_queue [OF s'(4) ne] wrong_last_insert [OF s'(4) ne] s'(1-3) assms(9)
  show ?thesis by (intro exI [of _ s']) simp
qed

theorem exit_with_two_fds_corrupts_witness:
  "tq_family (queues (ex_served [5, 6])) (\<lambda>_. []) \<and>
    (\<exists>s' m. start_cleanup ex_os 1 (ex_served [5, 6]) = Inr s' \<and> (\<forall>xs. \<not> tq_rep (queues s') (0, 5) xs) \<and>
       TAILQ_INSERT_TAIL (0, 5) (Some 1) (queues s') = Inr m \<and> TAILQ_FIRST (0, 6) m = Inr (Some 1))"
proof
  show "tq_family (queues (ex_served [5, 6])) (\<lambda>_. [])"
    using ex0_queues by (simp add: ex_served_def empty_family_elems)
  have "\<exists>s'. start_cleanup ex_os 1 (ex_served [5, 6]) = Inr s' \<and> (\<forall>xs. \<not> tq_rep (queues s') (0, 5) xs) \<and>
    (\<forall>e \<in> dom (tq_elems (queues (ex_served [5, 6]))). \<exists>m. TAILQ_INSERT_TAIL (0, 5) (Some e) (queues s') = Inr m \<and>
       TAILQ_FIRST (0, 6) m = Inr (Some e) \<and> TAILQ_FIRST (0, 5) m = TAILQ_FIRST (0, 5) (queues s'))"
    by (rule exit_with_two_fds_corrupts [where t = "ex0_main\<lparr>fds_idx := 2, fds := (\<lambda>i. [5, 6] ! i)\<rparr>"
          and ep = 0 and env = ex0_env and fda = 5 and fdb = 6])
      (simp_all add: ex_served_def ex0_main_fields ex0_fields ex0_heads MAX_FD_def)
  moreover have "1 \<in> dom (tq_elems (queues (ex_served [5, 6])))" by (simp add: ex_served_def)
  ultimately show "\<exists>s' m. start_cleanup ex_os 1 (ex_served [5, 6]) = Inr s' \<and> (\<forall>xs. \<not> tq_rep (queues s') (0, 5) xs) \<and>
       TAILQ_INSERT_TAIL (0, 5) (Some 1) (queues s') = Inr m \<and> TAILQ_FIRST (0, 6) m = Inr (Some 1)"
    by blast
qed

end
