(* ===== verification/Switch.thy ===== *)
theory Switch
  imports Coroutine
begin

text \<open>
  The context switch (\<open>src/switch.S\<close>): the instructions of \<open>switch_to\<close> for the two processors, in
  the order of the file, and the machine they run on. A stack is an array of words for every
  coroutine, addressed by \<open>Vsp\<close>; the only other memory the code touches is the field at byte 8
  of a control block, which is \<open>esp\<close>.
\<close>

section \<open>Machine\<close>

text \<open>
  The registers the code names, by their 64-bit names (\<open>%eax\<close> of the 32-bit code is \<open>RAX\<close>, and so
  on); \<open>FLAGS\<close> is what \<open>pushf\<close> and \<open>popf\<close> transfer, \<open>RIP\<close> what \<open>ret\<close> sets.
\<close>

datatype reg = RAX | RBX | RCX | RDX | RSI | RDI | RBP | RSP | R8 | R9 | R10 | R11 | R12 | R13
  | R14 | R15 | FLAGS | RIP

record cpu =
  regs :: "reg \<Rightarrow> val"
  mem :: "taskp \<Rightarrow> int \<Rightarrow> val"
  esp_field :: "taskp \<Rightarrow> val"

text \<open>
  \<open>MOV a b\<close> is \<open>mov %a, %b\<close>; \<open>STORE_SP a\<close> is \<open>mov %rsp, 8(%a)\<close>; \<open>LOAD_SP a\<close> is \<open>mov 8(%a), %rsp\<close>;
  \<open>LOAD_BP n a\<close> is \<open>movl 4n(%ebp), %a\<close>, for the \<open>n\<close>-th word above \<open>%ebp\<close>.
\<close>

datatype instr = PUSH reg | POP reg | MOV reg reg | STORE_SP reg | LOAD_SP reg | LOAD_BP int reg | RET

fun pop_to :: "reg \<Rightarrow> cpu \<Rightarrow> fault + cpu" where
  "pop_to r c =
     (case regs c RSP of
        Vsp p i \<Rightarrow> Inr (c\<lparr>regs := (regs c)(RSP := Vsp p (i + 1), r := mem c p i)\<rparr>)
      | _ \<Rightarrow> Inl OutOfBounds)"

fun exec :: "instr \<Rightarrow> cpu \<Rightarrow> fault + cpu" where
  "exec (PUSH r) c =
     (case regs c RSP of
        Vsp p i \<Rightarrow> Inr (c\<lparr>regs := (regs c)(RSP := Vsp p (i - 1)),
                        mem := (mem c)(p := (mem c p)(i - 1 := regs c r))\<rparr>)
      | _ \<Rightarrow> Inl OutOfBounds)"
| "exec (POP r) c = pop_to r c"
| "exec (MOV a b) c = Inr (c\<lparr>regs := (regs c)(b := regs c a)\<rparr>)"
| "exec (STORE_SP a) c =
     (case regs c a of
        Vtask p \<Rightarrow> Inr (c\<lparr>esp_field := (esp_field c)(p := regs c RSP)\<rparr>)
      | _ \<Rightarrow> Inl OutOfBounds)"
| "exec (LOAD_SP a) c =
     (case regs c a of
        Vtask p \<Rightarrow> Inr (c\<lparr>regs := (regs c)(RSP := esp_field c p)\<rparr>)
      | _ \<Rightarrow> Inl OutOfBounds)"
| "exec (LOAD_BP n a) c =
     (case regs c RBP of
        Vsp p i \<Rightarrow> Inr (c\<lparr>regs := (regs c)(a := mem c p (i + n))\<rparr>)
      | _ \<Rightarrow> Inl OutOfBounds)"
| "exec RET c = pop_to RIP c"

definition run :: "instr list \<Rightarrow> cpu \<Rightarrow> fault + cpu" where
  "run = foldE exec"

section \<open>\<open>switch\_to\<close>\<close>

definition switch_to_x86_64 :: "instr list" where
  "switch_to_x86_64 =
     [PUSH RBP, MOV RSP RBP,
      PUSH RDI, PUSH RSI, PUSH RBX, PUSH RDX, PUSH RCX, PUSH RAX, PUSH FLAGS,
      PUSH R8, PUSH R9, PUSH R10, PUSH R11, PUSH R12, PUSH R13, PUSH R14, PUSH R15,
      MOV RDI RAX, STORE_SP RAX, MOV RSI RAX, LOAD_SP RAX,
      POP R15, POP R14, POP R13, POP R12, POP R11, POP R10, POP R9, POP R8,
      POP FLAGS, POP RAX, POP RCX, POP RDX, POP RBX, POP RSI, POP RDI,
      POP RBP, RET]"

definition switch_to_i386 :: "instr list" where
  "switch_to_i386 =
     [PUSH RBP, MOV RSP RBP,
      PUSH RDI, PUSH RSI, PUSH RBX, PUSH RDX, PUSH RCX, PUSH RAX, PUSH FLAGS,
      LOAD_BP 2 RAX, STORE_SP RAX, LOAD_BP 4 RAX, LOAD_SP RAX,
      POP FLAGS, POP RAX, POP RDX, POP RCX, POP RBX, POP RSI, POP RDI,
      POP RBP, RET]"

section \<open>Pushing and popping lists of registers\<close>

definition frame_at :: "(int \<Rightarrow> val) \<Rightarrow> int \<Rightarrow> val list \<Rightarrow> bool" where
  "frame_at m i vs \<longleftrightarrow> (\<forall>k < length vs. m (i + int k) = vs ! k)"

lemma frame_at_Nil [simp]: "frame_at m i []"
  by (simp add: frame_at_def)

lemma frame_at_Cons [simp]: "frame_at m i (v # vs) \<longleftrightarrow> m i = v \<and> frame_at m (i + 1) vs"
  by (auto simp: frame_at_def All_less_Suc2 ac_simps)

lemma frame_at_append [simp]:
  "frame_at m i (vs @ ws) \<longleftrightarrow> frame_at m i vs \<and> frame_at m (i + int (length vs)) ws"
  by (induction vs arbitrary: i) (auto simp: ac_simps)

lemma frame_at_cong:
  "(\<And>j. i \<le> j \<Longrightarrow> j < i + int (length vs) \<Longrightarrow> m' j = m j) \<Longrightarrow> frame_at m' i vs = frame_at m i vs"
  by (simp add: frame_at_def)

lemma run_append: "run (xs @ ys) c = bnd (run xs c) (run ys)"
  by (simp add: run_def foldE_append)

lemma run_Nil [simp]: "run [] c = Inr c"
  by (simp add: run_def)

lemma run_Cons: "run (x # xs) c = bnd (exec x c) (run xs)"
  by (simp add: run_def)

lemma push_list:
  assumes "regs c RSP = Vsp p i" and "RSP \<notin> set rs"
  shows "\<exists>c'. run (map PUSH rs) c = Inr c' \<and> esp_field c' = esp_field c \<and>
    regs c' = (regs c)(RSP := Vsp p (i - int (length rs))) \<and>
    (\<forall>q. q \<noteq> p \<longrightarrow> mem c' q = mem c q) \<and> (\<forall>j \<ge> i. mem c' p j = mem c p j) \<and>
    frame_at (mem c' p) (i - int (length rs)) (map (regs c) (rev rs))"
  using assms
proof (induction rs arbitrary: c i)
  case Nil
  then show ?case by (auto simp: fun_upd_idem)
next
  case (Cons r rs)
  let ?c = "c\<lparr>regs := (regs c)(RSP := Vsp p (i - 1)), mem := (mem c)(p := (mem c p)(i - 1 := regs c r))\<rparr>"
  have step: "exec (PUSH r) c = Inr ?c" using Cons.prems by simp
  have "\<exists>c'. run (map PUSH rs) ?c = Inr c' \<and> esp_field c' = esp_field ?c \<and>
      regs c' = (regs ?c)(RSP := Vsp p (i - 1 - int (length rs))) \<and>
      (\<forall>q. q \<noteq> p \<longrightarrow> mem c' q = mem ?c q) \<and> (\<forall>j \<ge> i - 1. mem c' p j = mem ?c p j) \<and>
      frame_at (mem c' p) (i - 1 - int (length rs)) (map (regs ?c) (rev rs))"
    by (rule Cons.IH) (use Cons.prems in auto)
  then obtain c' where c': "run (map PUSH rs) ?c = Inr c'" "esp_field c' = esp_field ?c"
      "regs c' = (regs ?c)(RSP := Vsp p (i - 1 - int (length rs)))"
      "\<forall>q. q \<noteq> p \<longrightarrow> mem c' q = mem ?c q" "\<forall>j \<ge> i - 1. mem c' p j = mem ?c p j"
      "frame_at (mem c' p) (i - 1 - int (length rs)) (map (regs ?c) (rev rs))"
    by (elim exE conjE)
  have same: "map (regs ?c) (rev rs) = map (regs c) (rev rs)" using Cons.prems(2) by auto
  have "frame_at (mem c' p) (i - 1 - int (length rs)) (map (regs c) (rev rs))"
    using c'(6) by (simp only: same)
  moreover have "mem c' p (i - 1) = regs c r" using c'(5) by simp
  ultimately have "frame_at (mem c' p) (i - int (length (r # rs))) (map (regs c) (rev (r # rs)))"
    by (simp add: algebra_simps)
  with c' step show ?case by (intro exI [of _ c']) (simp add: run_Cons algebra_simps)
qed

lemma pop_list:
  assumes "regs c RSP = Vsp p i" and "RSP \<notin> set rs" and "frame_at (mem c p) i vs"
    and "length vs = length rs" and "distinct rs"
  shows "run (map POP rs) c = Inr (c\<lparr>regs := (\<lambda>r.
    if r = RSP then Vsp p (i + int (length rs))
    else case map_of (zip rs vs) r of None \<Rightarrow> regs c r | Some v \<Rightarrow> v)\<rparr>)"
  using assms
proof (induction rs arbitrary: c i vs)
  case Nil
  have "(\<lambda>r. if r = RSP then Vsp p (i + int (length ([] :: reg list)))
      else case map_of (zip ([] :: reg list) vs) r of None \<Rightarrow> regs c r | Some v \<Rightarrow> v) = regs c"
    (is "?f = _") using Nil by auto
  then have "c\<lparr>regs := ?f\<rparr> = c" by simp
  then show ?case by (simp only: list.map run_Nil)
next
  case (Cons r rs)
  obtain v ws where vs: "vs = v # ws" using Cons.prems(4) by (cases vs) auto
  let ?c = "c\<lparr>regs := (regs c)(RSP := Vsp p (i + 1), r := v)\<rparr>"
  have r: "r \<noteq> RSP" using Cons.prems(2) by auto
  have step: "exec (POP r) c = Inr ?c" using Cons.prems vs by simp
  have "run (map POP rs) ?c = Inr (?c\<lparr>regs := (\<lambda>x.
    if x = RSP then Vsp p (i + 1 + int (length rs))
    else case map_of (zip rs ws) x of None \<Rightarrow> regs ?c x | Some v \<Rightarrow> v)\<rparr>)"
    using Cons.prems r vs by (intro Cons.IH) simp_all
  moreover have "(\<lambda>x. if x = RSP then Vsp p (i + 1 + int (length rs))
      else case map_of (zip rs ws) x of None \<Rightarrow> regs ?c x | Some v \<Rightarrow> v) =
    (\<lambda>x. if x = RSP then Vsp p (i + int (length (r # rs)))
      else case map_of (zip (r # rs) vs) x of None \<Rightarrow> regs c x | Some v \<Rightarrow> v)"
  proof -
    have "map_of (zip rs ws) r = None"
      using Cons.prems(5) by (auto simp: map_of_eq_None_iff dest: set_zip_leftD)
    then show ?thesis using r by (auto simp: vs fun_eq_iff split: option.split)
  qed
  ultimately show ?case using step by (simp add: run_Cons)
qed

lemma run_RET:
  assumes "regs c RSP = Vsp p i" and "mem c p i = v"
  shows "run [RET] c = Inr (c\<lparr>regs := (regs c)(RSP := Vsp p (i + 1), RIP := v)\<rparr>)"
  using assms by (simp add: run_Cons)

section \<open>The 64-bit switch\<close>

definition saved_regs :: "reg list" where
  "saved_regs = [RBP, RDI, RSI, RBX, RDX, RCX, RAX, FLAGS, R8, R9, R10, R11, R12, R13, R14, R15]"

text \<open>
  What the code saves: the words below the stack pointer, from \<open>R15\<close> up to the frame pointer,
  with \<open>rest\<close> the word the caller left on top of its stack (the return address).
\<close>

lemma switch_x86_64_split:
  "switch_to_x86_64 =
     [PUSH RBP, MOV RSP RBP] @ map PUSH (tl saved_regs) @
     [MOV RDI RAX, STORE_SP RAX, MOV RSI RAX, LOAD_SP RAX] @
     map POP (rev saved_regs) @ [RET]"
  by (simp add: switch_to_x86_64_def saved_regs_def)

text \<open>
  The effect of a switch from \<open>a\<close> to \<open>b\<close>: the registers of \<open>a\<close> are a frame on its stack, whose
  address is in its \<open>esp\<close>; the registers come from the frame that \<open>esp\<close> of \<open>b\<close> points to.
\<close>

lemma switch_x86_64:
  assumes sp: "regs c RSP = Vsp a i" and args: "regs c RDI = Vtask pa" "regs c RSI = Vtask pb"
    and ne: "pa \<noteq> pb" and b: "esp_field c pb = Vsp b j" "b \<noteq> a"
    and frame: "frame_at (mem c b) j (vs @ [ra])" "length vs = 16"
  shows "\<exists>c'. run switch_to_x86_64 c = Inr c' \<and>
    esp_field c' = (esp_field c)(pa := Vsp a (i - 16)) \<and>
    frame_at (mem c' a) (i - 16) (map (regs c) (rev saved_regs)) \<and>
    (\<forall>k \<ge> i. mem c' a k = mem c a k) \<and> (\<forall>q. q \<noteq> a \<longrightarrow> mem c' q = mem c q) \<and>
    (\<forall>r \<in> set saved_regs. regs c' r = the (map_of (zip (rev saved_regs) vs) r)) \<and>
    regs c' RSP = Vsp b (j + 17) \<and> regs c' RIP = ra"
proof -
  let ?c1 = "c\<lparr>regs := (regs c)(RSP := Vsp a (i - 1), RBP := Vsp a (i - 1)),
    mem := (mem c)(a := (mem c a)(i - 1 := regs c RBP))\<rparr>"
  have 1: "run [PUSH RBP, MOV RSP RBP] c = Inr ?c1" using sp by (simp add: run_Cons)
  obtain c2 where c2: "run (map PUSH (tl saved_regs)) ?c1 = Inr c2" "esp_field c2 = esp_field ?c1"
      "regs c2 = (regs ?c1)(RSP := Vsp a (i - 1 - 15))"
      "\<forall>q. q \<noteq> a \<longrightarrow> mem c2 q = mem ?c1 q" "\<forall>k \<ge> i - 1. mem c2 a k = mem ?c1 a k"
      "frame_at (mem c2 a) (i - 1 - 15) (map (regs ?c1) (rev (tl saved_regs)))"
    using push_list [of ?c1 a "i - 1" "tl saved_regs"] by (auto simp: saved_regs_def)
  let ?c3 = "c2\<lparr>regs := (regs c2)(RAX := Vtask pb, RSP := Vsp b j),
    esp_field := (esp_field c)(pa := Vsp a (i - 16))\<rparr>"
  have 3: "run [MOV RDI RAX, STORE_SP RAX, MOV RSI RAX, LOAD_SP RAX] c2 = Inr ?c3"
    using args ne b(1) c2(2,3) by (simp add: run_Cons)
  have mb: "mem ?c3 b = mem c b" using c2(4) b(2) by simp
  let ?r4 = "\<lambda>r. if r = RSP then Vsp b (j + 16)
    else case map_of (zip (rev saved_regs) vs) r of None \<Rightarrow> regs ?c3 r | Some v \<Rightarrow> v"
  have 4: "run (map POP (rev saved_regs)) ?c3 = Inr (?c3\<lparr>regs := ?r4\<rparr>)"
  proof -
    have len: "int (length (rev saved_regs)) = 16" by (simp add: saved_regs_def)
    show ?thesis
      by (rule pop_list [of ?c3 b j "rev saved_regs" vs, unfolded len])
        (use frame mb in \<open>simp_all add: saved_regs_def\<close>)
  qed
  have "mem c b (j + 16) = ra" using frame by simp
  then have 5: "run [RET] (?c3\<lparr>regs := ?r4\<rparr>) = Inr (?c3\<lparr>regs := ?r4\<rparr>\<lparr>regs := (regs (?c3\<lparr>regs := ?r4\<rparr>))(RSP := Vsp b (j + 17), RIP := ra)\<rparr>)"
  proof -
    have 17: "j + 16 + 1 = j + 17" by simp
    show ?thesis
      by (rule run_RET [where p = b and i = "j + 16", unfolded 17])
        (use mb \<open>mem c b (j + 16) = ra\<close> in simp_all)
  qed
  let ?c5 = "?c3\<lparr>regs := ?r4\<rparr>\<lparr>regs := (regs (?c3\<lparr>regs := ?r4\<rparr>))(RSP := Vsp b (j + 17), RIP := ra)\<rparr>"
  have eq: "run switch_to_x86_64 c = Inr ?c5"
    by (simp only: switch_x86_64_split run_append 1 c2(1) 3 4 5 bnd.simps)
  have some: "map_of (zip (rev saved_regs) vs) r \<noteq> None" if "r \<in> set saved_regs" for r
  proof -
    have "length (rev saved_regs) = length vs" by (simp add: saved_regs_def frame(2))
    from map_of_zip_is_None [OF this, of r] that show ?thesis by simp
  qed
  have "mem c2 a (i - 1) = regs c RBP" using c2(5) by simp
  moreover have "map (regs ?c1) (rev (tl saved_regs)) = map (regs c) (rev (tl saved_regs))"
    by (simp add: saved_regs_def)
  ultimately have fr: "frame_at (mem c2 a) (i - 16) (map (regs c) (rev saved_regs))"
    using c2(6) by (simp add: saved_regs_def algebra_simps)
  have "regs ?c5 r = the (map_of (zip (rev saved_regs) vs) r)"
    if "r \<in> set saved_regs" for r
  proof -
    have "r \<noteq> RSP" "r \<noteq> RIP" using that by (auto simp: saved_regs_def)
    with some [OF that] show ?thesis by auto
  qed
  with eq fr c2(4,5) show ?thesis by (intro exI [of _ ?c5]) auto
qed

section \<open>The 32-bit switch\<close>

definition pushed_i386 :: "reg list" where
  "pushed_i386 = [RBP, RDI, RSI, RBX, RDX, RCX, RAX, FLAGS]"

definition popped_i386 :: "reg list" where
  "popped_i386 = [FLAGS, RAX, RDX, RCX, RBX, RSI, RDI, RBP]"

lemma switch_i386_split:
  "switch_to_i386 =
     [PUSH RBP, MOV RSP RBP] @ map PUSH (tl pushed_i386) @
     [LOAD_BP 2 RAX, STORE_SP RAX, LOAD_BP 4 RAX, LOAD_SP RAX] @
     map POP popped_i386 @ [RET]"
  by (simp add: switch_to_i386_def pushed_i386_def popped_i386_def)

lemma switch_i386:
  assumes sp: "regs c RSP = Vsp a i" and args: "mem c a (i + 1) = Vtask pa" "mem c a (i + 3) = Vtask pb"
    and ne: "pa \<noteq> pb" and b: "esp_field c pb = Vsp b j" "b \<noteq> a"
    and frame: "frame_at (mem c b) j (vs @ [ra])" "length vs = 8"
  shows "\<exists>c'. run switch_to_i386 c = Inr c' \<and>
    esp_field c' = (esp_field c)(pa := Vsp a (i - 8)) \<and>
    frame_at (mem c' a) (i - 8) (map (regs c) (rev pushed_i386)) \<and>
    (\<forall>k \<ge> i. mem c' a k = mem c a k) \<and> (\<forall>q. q \<noteq> a \<longrightarrow> mem c' q = mem c q) \<and>
    (\<forall>r \<in> set popped_i386. regs c' r = the (map_of (zip popped_i386 vs) r)) \<and>
    regs c' RSP = Vsp b (j + 9) \<and> regs c' RIP = ra"
proof -
  let ?c1 = "c\<lparr>regs := (regs c)(RSP := Vsp a (i - 1), RBP := Vsp a (i - 1)),
    mem := (mem c)(a := (mem c a)(i - 1 := regs c RBP))\<rparr>"
  have 1: "run [PUSH RBP, MOV RSP RBP] c = Inr ?c1" using sp by (simp add: run_Cons)
  obtain c2 where c2: "run (map PUSH (tl pushed_i386)) ?c1 = Inr c2" "esp_field c2 = esp_field ?c1"
      "regs c2 = (regs ?c1)(RSP := Vsp a (i - 1 - 7))"
      "\<forall>q. q \<noteq> a \<longrightarrow> mem c2 q = mem ?c1 q" "\<forall>k \<ge> i - 1. mem c2 a k = mem ?c1 a k"
      "frame_at (mem c2 a) (i - 1 - 7) (map (regs ?c1) (rev (tl pushed_i386)))"
    using push_list [of ?c1 a "i - 1" "tl pushed_i386"] by (auto simp: pushed_i386_def)
  let ?c3 = "c2\<lparr>regs := (regs c2)(RAX := Vtask pb, RSP := Vsp b j),
    esp_field := (esp_field c)(pa := Vsp a (i - 8))\<rparr>"
  have 2: "regs c2 RBP = Vsp a (i - 1)" "mem c2 a (i + 1) = Vtask pa" "mem c2 a (i + 3) = Vtask pb"
    using c2(3,5) args by simp_all
  have ar: "i - 1 + 2 = i + 1" "i - 1 + 4 = i + 3" by simp_all
  have 3: "run [LOAD_BP 2 RAX, STORE_SP RAX, LOAD_BP 4 RAX, LOAD_SP RAX] c2 = Inr ?c3"
    using ne b(1) c2(2,3) 2 by (simp add: run_Cons ar)
  have mb: "mem ?c3 b = mem c b" using c2(4) b(2) by simp
  let ?r4 = "\<lambda>r. if r = RSP then Vsp b (j + 8)
    else case map_of (zip popped_i386 vs) r of None \<Rightarrow> regs ?c3 r | Some v \<Rightarrow> v"
  have 4: "run (map POP popped_i386) ?c3 = Inr (?c3\<lparr>regs := ?r4\<rparr>)"
  proof -
    have len: "int (length popped_i386) = 8" by (simp add: popped_i386_def)
    show ?thesis
      by (rule pop_list [of ?c3 b j popped_i386 vs, unfolded len])
        (use frame mb in \<open>simp_all add: popped_i386_def\<close>)
  qed
  let ?c5 = "?c3\<lparr>regs := ?r4\<rparr>\<lparr>regs := (regs (?c3\<lparr>regs := ?r4\<rparr>))(RSP := Vsp b (j + 9), RIP := ra)\<rparr>"
  have "mem c b (j + 8) = ra" using frame by simp
  then have 5: "run [RET] (?c3\<lparr>regs := ?r4\<rparr>) = Inr ?c5"
  proof -
    have 9: "j + 8 + 1 = j + 9" by simp
    show ?thesis
      by (rule run_RET [where p = b and i = "j + 8", unfolded 9])
        (use mb \<open>mem c b (j + 8) = ra\<close> in simp_all)
  qed
  have eq: "run switch_to_i386 c = Inr ?c5"
    by (simp only: switch_i386_split run_append 1 c2(1) 3 4 5 bnd.simps)
  have some: "map_of (zip popped_i386 vs) r \<noteq> None" if "r \<in> set popped_i386" for r
  proof -
    have "length popped_i386 = length vs" by (simp add: popped_i386_def frame(2))
    from map_of_zip_is_None [OF this, of r] that show ?thesis by simp
  qed
  have "mem c2 a (i - 1) = regs c RBP" using c2(5) by simp
  moreover have "map (regs ?c1) (rev (tl pushed_i386)) = map (regs c) (rev (tl pushed_i386))"
    by (simp add: pushed_i386_def)
  ultimately have fr: "frame_at (mem c2 a) (i - 8) (map (regs c) (rev pushed_i386))"
    using c2(6) by (simp add: pushed_i386_def algebra_simps)
  have "regs ?c5 r = the (map_of (zip popped_i386 vs) r)" if "r \<in> set popped_i386" for r
  proof -
    have "r \<noteq> RSP" "r \<noteq> RIP" using that by (auto simp: popped_i386_def)
    with some [OF that] show ?thesis by auto
  qed
  with eq fr c2(4,5) show ?thesis by (intro exI [of _ ?c5]) auto
qed

text \<open>The machine on which the main coroutine of \<open>ex1\<close> switches to the new worker.\<close>

definition ex_cpu :: cpu where
  "ex_cpu =
     \<lparr>regs = (\<lambda>r. Vnum 77)(RSP := Vsp 1 100, RDI := Vtask 1, RSI := Vtask 2),
      mem = (\<lambda>p k. if p = 2 then stack ex1_worker (nat k) else Vnum 55),
      esp_field = (\<lambda>_. esp ex1_worker)\<rparr>"

lemma ex_cpu_switch:
  "\<exists>vs ra. esp_field ex_cpu 2 = Vsp 2 (int STACK_SIZE - 18) \<and> length vs = 16 \<and>
     frame_at (mem ex_cpu 2) (int STACK_SIZE - 18) (vs @ [ra])"
proof -
  have "frame_at m i (map (\<lambda>k. m (i + int k)) [0..<16] @ [m (i + 16)])" for m i
    unfolding frame_at_def
  proof (intro allI impI)
    fix k assume "k < length (map (\<lambda>k. m (i + int k)) [0..<16] @ [m (i + 16)])"
    then have "k < 16 \<or> k = 16" by (simp add: less_Suc_eq_le) linarith
    then show "m (i + int k) = (map (\<lambda>k. m (i + int k)) [0..<16] @ [m (i + 16)]) ! k"
      by (elim disjE) (simp_all add: nth_append)
  qed
  moreover have "esp_field ex_cpu 2 = Vsp 2 (int STACK_SIZE - 18)"
    by (simp add: ex_cpu_def ex1_worker_def new_task_def init_stack_def STACK_SIZE_def)
  ultimately show ?thesis
    by (intro exI [of _ "map (\<lambda>k. mem ex_cpu 2 (int STACK_SIZE - 18 + int k)) [0..<16]"] exI) auto
qed

section \<open>Properties\<close>

text \<open>
  C22: The 64-bit switch away from a coroutine and a later switch back to it restore all general
  registers and the flags, the stack pointer just above the return address, and continue at that
  return address.
\<close>

theorem switch_restores_context:
  assumes "regs c RSP = Vsp a i" and "regs c RDI = Vtask pa" and "regs c RSI = Vtask pb"
    and "pa \<noteq> pb" and "esp_field c pb = Vsp b j" and "b \<noteq> a"
    and "frame_at (mem c b) j (vs @ [ra])" and "length vs = 16"
    and "run switch_to_x86_64 c = Inr c1"
    and "regs c2 RSP = Vsp d k" and "regs c2 RDI = Vtask pd" and "regs c2 RSI = Vtask pa"
    and "pd \<noteq> pa" and "d \<noteq> a" and "esp_field c2 pa = esp_field c1 pa"
    and "\<forall>l. i - 16 \<le> l \<and> l \<le> i \<longrightarrow> mem c2 a l = mem c1 a l"
  shows "\<exists>c3. run switch_to_x86_64 c2 = Inr c3 \<and> (\<forall>r \<in> set saved_regs. regs c3 r = regs c r) \<and>
    regs c3 RSP = Vsp a (i + 1) \<and> regs c3 RIP = mem c a i"
proof -
  have c1: "esp_field c1 = (esp_field c)(pa := Vsp a (i - 16))"
      "frame_at (mem c1 a) (i - 16) (map (regs c) (rev saved_regs))"
      "\<forall>k \<ge> i. mem c1 a k = mem c a k"
    using switch_x86_64 [OF assms(1-8)] assms(9) by auto
  have len: "length (map (regs c) (rev saved_regs)) = 16" by (simp add: saved_regs_def)
  have "mem c1 a i = mem c a i" using c1(3) by simp
  with c1(2) len have "frame_at (mem c1 a) (i - 16) (map (regs c) (rev saved_regs) @ [mem c a i])"
    by simp
  then have f: "frame_at (mem c2 a) (i - 16) (map (regs c) (rev saved_regs) @ [mem c a i])"
    using assms(16) len by (subst frame_at_cong [where m = "mem c1 a"]) auto
  have e: "esp_field c2 pa = Vsp a (i - 16)" using assms(15) c1(1) by simp
  have 1: "i - 16 + 17 = i + 1" by simp
  obtain c3 where c3: "run switch_to_x86_64 c2 = Inr c3"
      "\<forall>r \<in> set saved_regs. regs c3 r = the (map_of (zip (rev saved_regs) (map (regs c) (rev saved_regs))) r)"
      "regs c3 RSP = Vsp a (i - 16 + 17)" "regs c3 RIP = mem c a i"
    using switch_x86_64 [OF assms(10-13) e assms(14) [symmetric] f len] by blast
  have "the (map_of (zip (rev saved_regs) (map (regs c) (rev saved_regs))) r) = regs c r"
    if "r \<in> set saved_regs" for r
    using that by (simp add: map_of_zip_map)
  with c3 1 show ?thesis by (intro exI [of _ c3]) simp
qed

theorem switch_restores_context_witness:
  "\<exists>c1 c3. run switch_to_x86_64 ex_cpu = Inr c1 \<and>
    run switch_to_x86_64 (c1\<lparr>regs := (regs c1)(RSP := Vsp 2 50, RDI := Vtask 2, RSI := Vtask 1)\<rparr>) = Inr c3 \<and>
    regs c3 RBX = Vnum 77 \<and> regs c3 RSP = Vsp 1 101 \<and> regs c3 RIP = Vnum 55"
proof -
  obtain vs ra where f: "esp_field ex_cpu 2 = Vsp 2 (int STACK_SIZE - 18)"
      "frame_at (mem ex_cpu 2) (int STACK_SIZE - 18) (vs @ [ra])" "length vs = 16"
    using ex_cpu_switch by blast
  have r: "regs ex_cpu RSP = Vsp 1 100" "regs ex_cpu RDI = Vtask 1" "regs ex_cpu RSI = Vtask 2"
    by (simp_all add: ex_cpu_def)
  have "(1 :: nat) \<noteq> 2" "(2 :: nat) \<noteq> 1" by simp_all
  note pre = r this(1) f(1) this(2) f(2,3)
  obtain c1 where c1: "run switch_to_x86_64 ex_cpu = Inr c1" using switch_x86_64 [OF pre] by blast
  let ?c2 = "c1\<lparr>regs := (regs c1)(RSP := Vsp 2 50, RDI := Vtask 2, RSI := Vtask 1)\<rparr>"
  obtain c3 where c3: "run switch_to_x86_64 ?c2 = Inr c3" "\<forall>r \<in> set saved_regs. regs c3 r = regs ex_cpu r"
      "regs c3 RSP = Vsp 1 (100 + 1)" "regs c3 RIP = mem ex_cpu 1 100"
    using switch_restores_context [OF pre c1, of ?c2 2 50 2] by auto
  have "regs c3 RBX = Vnum 77" using c3(2) by (simp add: saved_regs_def ex_cpu_def)
  moreover have "regs c3 RIP = Vnum 55" using c3(4) by (simp add: ex_cpu_def)
  ultimately show ?thesis using c1 c3(1,3) by (intro exI [of _ c1] exI [of _ c3]) simp
qed

text \<open>
  C23: The first 64-bit switch to a coroutine that co_create has prepared continues at the
  function start, with the control block of the coroutine as its argument and the word 100 as
  the return address on the new stack.
\<close>

theorem first_switch_enters_start:
  assumes "t = init_stack X86_64 p t0" and "esp_field c p = esp t"
    and "\<forall>k < STACK_SIZE. mem c p (int k) = stack t k"
    and "regs c RSP = Vsp a i" and "regs c RDI = Vtask pa" and "regs c RSI = Vtask p"
    and "pa \<noteq> p" and "p \<noteq> a"
  shows "\<exists>c'. run switch_to_x86_64 c = Inr c' \<and> regs c' RIP = Vstart \<and> regs c' RDI = Vtask p \<and>
    regs c' RSP = Vsp p (int STACK_SIZE - 1) \<and> mem c' p (int STACK_SIZE - 1) = Vnum 100"
proof -
  let ?vs = "map Vnum [15, 14, 13, 12, 11, 10, 9, 8, 7, 6, 5, 4, 3, 2] @ [Vtask p, Vnum 0]"
  have st: "stack t = frame_x86_64 p (stack t0)" "esp t = Vsp p (int (STACK_SIZE - 18))"
    using assms(1) by (simp_all add: init_stack_def)
  have m: "mem c p (int STACK_SIZE - 18 + int k) = stack t (STACK_SIZE - 18 + k)" if "k < 18" for k
  proof -
    have 1: "int STACK_SIZE - 18 + int k = int (STACK_SIZE - 18 + k)" and 2: "STACK_SIZE - 18 + k < STACK_SIZE"
      using that by (simp_all add: STACK_SIZE_def)
    show ?thesis unfolding 1 using assms(3) 2 by blast
  qed
  have f: "frame_at (mem c p) (int STACK_SIZE - 18) (?vs @ [Vstart])"
    unfolding frame_at_def
  proof (intro allI impI)
    fix k assume "k < length (?vs @ [Vstart])"
    then have "k < 17" by simp
    then have 1: "mem c p (int STACK_SIZE - 18 + int k) = stack t (STACK_SIZE - 18 + k)"
      and k: "k \<in> {16,15,14,13,12,11,10,9,8,7,6,5,4,3,2,1,0}"
      using m lessThan_iff [of k 17] by (simp_all add: lessThan_nat_numeral lessThan_Suc del: lessThan_iff)
    show "mem c p (int STACK_SIZE - 18 + int k) = (?vs @ [Vstart]) ! k"
      using k unfolding 1 st frame_x86_64_def by (elim insertE emptyE) (simp_all add: STACK_SIZE_def)
  qed
  have e: "esp_field c p = Vsp p (int STACK_SIZE - 18)"
    using assms(2) st(2) by (simp add: STACK_SIZE_def)
  obtain c' where c': "run switch_to_x86_64 c = Inr c'" "\<forall>q. q \<noteq> a \<longrightarrow> mem c' q = mem c q"
      "\<forall>r \<in> set saved_regs. regs c' r = the (map_of (zip (rev saved_regs) ?vs) r)"
      "regs c' RSP = Vsp p (int STACK_SIZE - 18 + 17)" "regs c' RIP = Vstart"
    using switch_x86_64 [OF assms(4-7) e assms(8) f] by auto
  have "mem c p (int STACK_SIZE - 18 + int 17) = Vnum 100"
    using m [of 17] by (simp add: st frame_x86_64_def STACK_SIZE_def)
  moreover have "regs c' RDI = Vtask p" using c'(3) by (simp add: saved_regs_def)
  ultimately show ?thesis using c' assms(8) by (intro exI [of _ c']) simp
qed

theorem first_switch_enters_start_witness:
  "\<exists>c'. run switch_to_x86_64 ex_cpu = Inr c' \<and> regs c' RIP = Vstart \<and> regs c' RDI = Vtask 2"
proof -
  have "ex1_worker = init_stack X86_64 2
      (zero_task\<lparr>tsk_id := 1, co_fn := 100, arg := 200, thread_env := Some 0\<rparr>)"
    by (simp add: ex1_worker_def new_task_def)
  from first_switch_enters_start [OF this, of ex_cpu 1 100 1] show ?thesis
    by (auto simp: ex_cpu_def)
qed

text \<open>
  C34: The 32-bit switch takes the coroutine to run from the word above its second argument, not
  from the argument next, and gives it the saved %ecx in %edx and the saved %edx in %ecx.
\<close>

theorem i386_switch_ignores_next:
  assumes "regs c RSP = Vsp a i" and "mem c a (i + 1) = Vtask pa" and "mem c a (i + 2) = Vtask next"
    and "mem c a (i + 3) = Vtask pb" and "pa \<noteq> pb" and "esp_field c pb = Vsp b j" and "b \<noteq> a"
    and "frame_at (mem c b) j (vs @ [ra])" and "length vs = 8" and "next \<noteq> pb"
  shows "\<exists>c'. run switch_to_i386 c = Inr c' \<and> regs c' RSP = Vsp b (j + 9) \<and> regs c' RIP = ra \<and>
    regs c' RCX = vs ! 3 \<and> regs c' RDX = vs ! 2 \<and>
    mem c' a (i - 6) = regs c RCX \<and> mem c' a (i - 5) = regs c RDX"
proof -
  obtain c' where c': "run switch_to_i386 c = Inr c'"
      "frame_at (mem c' a) (i - 8) (map (regs c) (rev pushed_i386))"
      "\<forall>r \<in> set popped_i386. regs c' r = the (map_of (zip popped_i386 vs) r)"
      "regs c' RSP = Vsp b (j + 9)" "regs c' RIP = ra"
    using switch_i386 [OF assms(1,2,4-9)] by blast
  obtain v0 v1 v2 v3 ws where vs: "vs = v0 # v1 # v2 # v3 # ws"
    using assms(9) by (auto simp: eval_nat_numeral length_Suc_conv)
  have "regs c' RCX = vs ! 3" "regs c' RDX = vs ! 2" using c'(3) by (simp_all add: popped_i386_def vs)
  moreover have "mem c' a (i - 8 + int k) = map (regs c) (rev pushed_i386) ! k" if "k < 8" for k
    using c'(2) that by (simp add: frame_at_def pushed_i386_def)
  from this [of 2] this [of 3] have "mem c' a (i - 6) = regs c RCX" "mem c' a (i - 5) = regs c RDX"
    by (simp_all add: pushed_i386_def)
  ultimately show ?thesis using c' by blast
qed

text \<open>A 32-bit stack with the arguments 1 and 2, and the address of block 3 above them.\<close>

definition ex_cpu32 :: cpu where
  "ex_cpu32 =
     \<lparr>regs = (\<lambda>r. Vnum 77)(RSP := Vsp 1 100),
      mem = (\<lambda>p k. if p = 1 then (if k = 101 then Vtask 1 else if k = 102 then Vtask 2 else Vtask 3)
                    else Vnum (word_of_int k)),
      esp_field = (\<lambda>p. Vsp p 0)\<rparr>"

theorem i386_switch_ignores_next_witness:
  "\<exists>c'. run switch_to_i386 ex_cpu32 = Inr c' \<and> regs c' RSP = Vsp 3 (0 + 9) \<and>
    regs c' RCX = Vnum 3 \<and> regs c' RDX = Vnum 2"
  using i386_switch_ignores_next [of ex_cpu32 1 100 1 2 3 3 0
      "[Vnum 0, Vnum 1, Vnum 2, Vnum 3, Vnum 4, Vnum 5, Vnum 6, Vnum 7]" "Vnum 8"]
  by (auto simp: ex_cpu32_def)

end
