(* ===== verification/Servers.thy ===== *)
theory Servers
  imports CoTypes
begin

text \<open>
  The two test servers (\<open>tools/server/upper.c\<close> and \<open>tools/server/reverse.c\<close>): reading a line,
  transforming it in place, answering, and the epoll loop around it. The two files differ in the
  transformation only; what they share is defined once, with the transformation as an argument.
  The sockets are the fields of a record over an abstract kernel state.
\<close>

section \<open>The sockets\<close>

type_synonym byte = "8 word"

text \<open>
  \<open>net_read fd len\<close> is \<open>None\<close> for an error and the bytes read otherwise, none at the end of the
  stream; \<open>net_wait\<close> is \<open>None\<close> when \<open>epoll_wait\<close> fails.
\<close>

record 'k net =
  net_socket :: "'k \<Rightarrow> int \<times> 'k"
  net_bind :: "int \<Rightarrow> int \<Rightarrow> 'k \<Rightarrow> int \<times> 'k"
  net_listen :: "int \<Rightarrow> int \<Rightarrow> 'k \<Rightarrow> int \<times> 'k"
  net_epoll_create :: "int \<Rightarrow> 'k \<Rightarrow> int \<times> 'k"
  net_ctl :: "int \<Rightarrow> ctl_op \<Rightarrow> int \<Rightarrow> epoll_event option \<Rightarrow> 'k \<Rightarrow> int \<times> 'k"
  net_wait :: "int \<Rightarrow> nat \<Rightarrow> 'k \<Rightarrow> epoll_event list option \<times> 'k"
  net_accept :: "int \<Rightarrow> 'k \<Rightarrow> int \<times> 'k"
  net_read :: "int \<Rightarrow> nat \<Rightarrow> 'k \<Rightarrow> byte list option \<times> 'k"
  net_write :: "int \<Rightarrow> byte list \<Rightarrow> 'k \<Rightarrow> int \<times> 'k"
  net_close :: "int \<Rightarrow> 'k \<Rightarrow> int \<times> 'k"

section \<open>Reading a line\<close>

definition MAXSIZE :: nat where
  "MAXSIZE = 1024"

definition PORT :: int where
  "PORT = 9999"

abbreviation newline :: byte where
  "newline \<equiv> 10"

definition buf_get :: "byte list \<Rightarrow> int \<Rightarrow> fault + byte" where
  "buf_get buf i = (if 0 \<le> i \<and> i < int (length buf) then Inr (buf ! nat i) else Inl OutOfBounds)"

definition buf_set :: "byte list \<Rightarrow> int \<Rightarrow> byte \<Rightarrow> fault + byte list" where
  "buf_set buf i b =
     (if 0 \<le> i \<and> i < int (length buf) then Inr (buf[nat i := b]) else Inl OutOfBounds)"

text \<open>What the kernel stores at \<open>buf + i\<close>.\<close>

definition buf_store :: "byte list \<Rightarrow> int \<Rightarrow> byte list \<Rightarrow> fault + byte list" where
  "buf_store buf i bs =
     (if bs = [] then Inr buf
      else if 0 \<le> i \<and> i + int (length bs) \<le> int (length buf)
      then Inr (take (nat i) buf @ bs @ drop (nat i + length bs) buf)
      else Inl OutOfBounds)"

text \<open>
  The loop of \<open>get_line\<close>. A failing \<open>read\<close> makes \<open>n\<close> the largest \<open>size_t\<close>, so that \<open>curr += n\<close>
  takes one off. The loop need not end.
\<close>

partial_function (option) get_line_loop ::
  "'k net \<Rightarrow> int \<Rightarrow> nat \<Rightarrow> byte list \<Rightarrow> int \<Rightarrow> 'k \<Rightarrow> (fault + (int \<times> byte list \<times> 'k)) option" where
  "get_line_loop N fd len buf cur k =
     (case net_read N fd len k of
        (None, k) \<Rightarrow>
          (case buf_get buf (cur - 1 - 1) of
             Inl f \<Rightarrow> Some (Inl f)
           | Inr b \<Rightarrow>
               if b \<noteq> newline then get_line_loop N fd len buf (cur - 1) k
               else Some (Inr (cur - 1, buf, k)))
      | (Some bs, k) \<Rightarrow>
          (case buf_store buf cur bs of
             Inl f \<Rightarrow> Some (Inl f)
           | Inr buf \<Rightarrow>
               if bs = [] then Some (Inr (-1, buf, k))
               else
                 (case buf_get buf (cur + int (length bs) - 1) of
                    Inl f \<Rightarrow> Some (Inl f)
                  | Inr b \<Rightarrow>
                      if b \<noteq> newline
                      then get_line_loop N fd len buf (cur + int (length bs)) k
                      else Some (Inr (cur + int (length bs), buf, k)))))"

definition get_line ::
  "'k net \<Rightarrow> int \<Rightarrow> nat \<Rightarrow> byte list \<Rightarrow> 'k \<Rightarrow> fault + (int \<times> byte list \<times> 'k)" where
  "get_line N fd len buf k =
     (case get_line_loop N fd len buf 0 k of None \<Rightarrow> Inl Hang | Some r \<Rightarrow> r)"

section \<open>The transformations\<close>

text \<open>\<open>char\<close> is signed; \<open>LOW_UP_SETOFF\<close> is \<open>'A' - 'a'\<close>.\<close>

definition LOW_UP_SETOFF :: int where
  "LOW_UP_SETOFF = 65 - 97"

definition is_lowercase :: "byte \<Rightarrow> bool" where
  "is_lowercase ch \<longleftrightarrow> 97 \<le> sint ch \<and> sint ch \<le> 122"

function upper_loop :: "byte list \<Rightarrow> int \<Rightarrow> int \<Rightarrow> fault + byte list" where
  "upper_loop buf n i =
     (if i < n
      then
        bnd (buf_get buf i) (\<lambda>b.
        if newline = b then Inr buf
        else
          bnd (if is_lowercase b then buf_set buf i (b + word_of_int LOW_UP_SETOFF) else Inr buf)
            (\<lambda>buf. upper_loop buf n (i + 1)))
      else Inr buf)"
  by pat_completeness auto
termination
  by (relation "measure (\<lambda>(buf, n, i). nat (n - i))") auto

definition upper :: "byte list \<Rightarrow> int \<Rightarrow> fault + (int \<times> byte list)" where
  "upper buf n = bnd (upper_loop buf n 0) (\<lambda>buf. Inr (n, buf))"

function reverse_loop :: "byte list \<Rightarrow> int \<Rightarrow> int \<Rightarrow> fault + byte list" where
  "reverse_loop buf left right =
     (if left < right
      then
        bnd (buf_get buf left) (\<lambda>tmp.
        bnd (buf_get buf right) (\<lambda>b.
        bnd (buf_set buf left b) (\<lambda>buf.
        bnd (buf_set buf right tmp) (\<lambda>buf.
        reverse_loop buf (left + 1) (right - 1)))))
      else Inr buf)"
  by pat_completeness auto
termination
  by (relation "measure (\<lambda>(buf, left, right). nat (right - left))") auto

definition reverse :: "byte list \<Rightarrow> int \<Rightarrow> fault + (int \<times> byte list)" where
  "reverse buf n = bnd (reverse_loop buf 0 (n - 1)) (\<lambda>buf. Inr (n, buf))"

declare upper_loop.simps [simp del] reverse_loop.simps [simp del]

section \<open>A request\<close>

text \<open>
  \<open>handle\<close>, for a buffer with the given initial content: the length is a \<open>size_t\<close>, so that the
  \<open>-1\<close> of \<open>get_line\<close> becomes the largest index.
\<close>

definition handle ::
  "(byte list \<Rightarrow> int \<Rightarrow> fault + (int \<times> byte list)) \<Rightarrow> 'k net \<Rightarrow> int \<Rightarrow> byte list \<Rightarrow> 'k \<Rightarrow>
   fault + (int \<times> 'k)" where
  "handle tr N fd buf k =
     bnd (get_line N fd MAXSIZE buf k) (\<lambda>(r, buf, k).
     let n = r mod 2 ^ 64 in
     bnd (buf_set buf n newline) (\<lambda>buf.
     if n = 0 then Inr (-1, k)
     else
       bnd (tr buf n) (\<lambda>(n, buf).
       case net_write N fd (take (nat n) buf) k of (_, k) \<Rightarrow> Inr (n, k))))"

definition handle_upper :: "'k net \<Rightarrow> int \<Rightarrow> byte list \<Rightarrow> 'k \<Rightarrow> fault + (int \<times> 'k)" where
  "handle_upper = handle upper"

definition handle_reverse :: "'k net \<Rightarrow> int \<Rightarrow> byte list \<Rightarrow> 'k \<Rightarrow> fault + (int \<times> 'k)" where
  "handle_reverse = handle reverse"

section \<open>The servers\<close>

text \<open>
  The body of the loop over the ready descriptors, for the handler \<open>h\<close>, which gets the content
  its buffer happens to have from \<open>stk\<close>.
\<close>

definition serve_event ::
  "(int \<Rightarrow> 'k \<Rightarrow> fault + (int \<times> 'k)) \<Rightarrow> 'k net \<Rightarrow> int \<Rightarrow> int \<Rightarrow> epoll_event \<Rightarrow> 'k \<Rightarrow> fault + 'k" where
  "serve_event h N listenfd epollfd ev k =
     (if listenfd = ev_fd ev \<and> EPOLLIN = (EPOLLIN AND ev_events ev)
      then
        (case net_accept N listenfd k of (clientfd, k) \<Rightarrow>
         case net_ctl N epollfd EPOLL_CTL_ADD clientfd
                (Some \<lparr>ev_events = EPOLLIN, ev_fd = clientfd\<rparr>) k of (_, k) \<Rightarrow>
         Inr k)
      else if ev_events ev AND EPOLLIN \<noteq> 0
      then
        bnd (h (ev_fd ev) k) (\<lambda>(ret, k).
        if ret \<le> 0
        then
          (case net_ctl N epollfd EPOLL_CTL_DEL (ev_fd ev) None k of (_, k) \<Rightarrow>
           case net_close N (ev_fd ev) k of (_, k) \<Rightarrow>
           Inr k)
        else Inr k)
      else Inr k)"

text \<open>One turn of \<open>while (1)\<close>; a failing \<open>epoll_wait\<close> gives -1, and the \<open>for\<close> loop does nothing.\<close>

definition serve_turn ::
  "(int \<Rightarrow> 'k \<Rightarrow> fault + (int \<times> 'k)) \<Rightarrow> 'k net \<Rightarrow> int \<Rightarrow> int \<Rightarrow> 'k \<Rightarrow> fault + 'k" where
  "serve_turn h N listenfd epollfd k =
     (case net_wait N epollfd 10 k of
        (None, k) \<Rightarrow> Inr k
      | (Some evs, k) \<Rightarrow> foldE (serve_event h N listenfd epollfd) evs k)"

text \<open>\<open>main\<close> up to its loop: the listening socket and the epoll descriptor.\<close>

definition server_setup :: "'k net \<Rightarrow> 'k \<Rightarrow> fault + (int \<times> int \<times> 'k)" where
  "server_setup N k =
     (case net_socket N k of (listenfd, k) \<Rightarrow>
      case net_bind N listenfd PORT k of (ret, k) \<Rightarrow>
      if ret \<noteq> 0 then Inl (Exit (-1)) else
      (case net_listen N listenfd 5 k of (ret, k) \<Rightarrow>
      if ret \<noteq> 0 then Inl (Exit (-1)) else
      (case net_epoll_create N 10 k of (epollfd, k) \<Rightarrow>
      if epollfd < 0 then Inl (Exit (-1)) else
      (case net_ctl N epollfd EPOLL_CTL_ADD listenfd
             (Some \<lparr>ev_events = EPOLLIN, ev_fd = listenfd\<rparr>) k of (ret, k) \<Rightarrow>
      if ret \<noteq> 0 then Inl (Exit (-1)) else
      Inr (listenfd, epollfd, k)))))"

text \<open>\<open>main\<close> with \<open>fuel\<close> turns of its endless loop; \<open>stk\<close> gives the initial content of the buffer.\<close>

fun serve :: "(int \<Rightarrow> 'k \<Rightarrow> fault + (int \<times> 'k)) \<Rightarrow> 'k net \<Rightarrow> int \<Rightarrow> int \<Rightarrow> nat \<Rightarrow> 'k \<Rightarrow> fault + 'k" where
  "serve h N listenfd epollfd 0 k = Inr k"
| "serve h N listenfd epollfd (Suc fuel) k =
     bnd (serve_turn h N listenfd epollfd k) (serve h N listenfd epollfd fuel)"

definition main_upper :: "'k net \<Rightarrow> ('k \<Rightarrow> byte list) \<Rightarrow> nat \<Rightarrow> 'k \<Rightarrow> fault + 'k" where
  "main_upper N stk fuel k =
     bnd (server_setup N k) (\<lambda>(listenfd, epollfd, k).
     serve (\<lambda>fd k. handle_upper N fd (stk k) k) N listenfd epollfd fuel k)"

definition main_reverse :: "'k net \<Rightarrow> ('k \<Rightarrow> byte list) \<Rightarrow> nat \<Rightarrow> 'k \<Rightarrow> fault + 'k" where
  "main_reverse N stk fuel k =
     bnd (server_setup N k) (\<lambda>(listenfd, epollfd, k).
     serve (\<lambda>fd k. handle_reverse N fd (stk k) k) N listenfd epollfd fuel k)"

section \<open>The transformations in closed form\<close>

lemma buf_get_nat: "i < length buf \<Longrightarrow> buf_get buf (int i) = Inr (buf ! i)"
  by (simp add: buf_get_def)

lemma buf_set_nat: "i < length buf \<Longrightarrow> buf_set buf (int i) b = Inr (buf[i := b])"
  by (simp add: buf_set_def)

definition to_upper :: "byte \<Rightarrow> byte" where
  "to_upper b = (if is_lowercase b then b + word_of_int LOW_UP_SETOFF else b)"

lemma upper_loop_spec:
  assumes "i \<le> n" and "n \<le> length buf"
  shows "upper_loop buf (int n) (int i) =
    Inr (take i buf @ map to_upper (takeWhile (\<lambda>b. b \<noteq> newline) (drop i (take n buf))) @
         drop (i + length (takeWhile (\<lambda>b. b \<noteq> newline) (drop i (take n buf)))) buf)"
  using assms
proof (induction "n - i" arbitrary: i buf)
  case 0
  then show ?case by (subst upper_loop.simps) simp
next
  case (Suc d)
  then have i: "i < n" "i < length buf" by simp_all
  have drop: "drop i (take n buf) = buf ! i # drop (Suc i) (take n buf)"
    using i by (metis Cons_nth_drop_Suc length_take min_less_iff_conj nth_take)
  have get: "buf_get buf (int i) = Inr (buf ! i)" using i by (simp add: buf_get_def)
  show ?case
  proof (cases "buf ! i = newline")
    case True
    with i get show ?thesis
      by (simp add: upper_loop.simps [of buf "int n" "int i"] drop)
  next
    case False
    let ?buf = "buf[i := to_upper (buf ! i)]"
    have "upper_loop buf (int n) (int i) = upper_loop ?buf (int n) (int (Suc i))"
      using i get False
      by (simp add: upper_loop.simps [of buf "int n" "int i"] buf_set_def to_upper_def add.commute)
    also have "\<dots> = Inr (take (Suc i) ?buf @
        map to_upper (takeWhile (\<lambda>b. b \<noteq> newline) (drop (Suc i) (take n ?buf))) @
        drop (Suc i + length (takeWhile (\<lambda>b. b \<noteq> newline) (drop (Suc i) (take n ?buf)))) ?buf)"
      using Suc i by (intro Suc.hyps(1)) simp_all
    also have "drop (Suc i) (take n ?buf) = drop (Suc i) (take n buf)"
      by (simp add: take_update_swap)
    also have "take (Suc i) ?buf = take i buf @ [to_upper (buf ! i)]"
      using i by (simp add: take_Suc_conv_app_nth)
    finally show ?thesis using False by (simp add: drop)
  qed
qed

lemma upper_spec:
  assumes "n \<le> length buf"
  shows "upper buf (int n) = Inr (int n,
    map to_upper (takeWhile (\<lambda>b. b \<noteq> newline) (take n buf)) @
    drop (length (takeWhile (\<lambda>b. b \<noteq> newline) (take n buf))) buf)"
  using upper_loop_spec [of 0 n buf] assms by (simp add: upper_def)

text \<open>The invariant of the swaps: a reversed prefix, a part still to do, and a reversed suffix.\<close>

lemma reverse_loop_spec:
  "reverse_loop (xs @ ms @ ys) (int (length xs)) (int (length xs) + int (length ms) - 1) =
     Inr (xs @ rev ms @ ys)"
proof (induction "length ms" arbitrary: xs ms ys rule: less_induct)
  case less
  consider "ms = []" | m where "ms = [m]" | a ns b where "ms = a # ns @ [b]"
    by (cases ms; cases "tl ms" rule: rev_cases) auto
  then show ?case
  proof cases
    case 1
    then show ?thesis by (subst reverse_loop.simps) simp
  next
    case 2
    then show ?thesis by (subst reverse_loop.simps) simp
  next
    case 3
    let ?l = "int (length xs)" and ?r = "int (length xs) + int (length ms) - 1"
    have r: "?r = int (length xs + Suc (length ns))" using 3 by simp
    have lens: "length (xs @ ms @ ys) = length xs + Suc (Suc (length ns)) + length ys" using 3 by simp
    have ga: "buf_get (xs @ ms @ ys) ?l = Inr a"
      using 3 by (simp add: buf_get_def nth_append)
    have gb: "buf_get (xs @ ms @ ys) ?r = Inr b"
      unfolding r by (subst buf_get_nat) (simp_all add: 3 nth_append)
    have sa: "buf_set (xs @ ms @ ys) ?l b = Inr (xs @ (b # ns @ [b]) @ ys)"
      using 3 by (simp add: buf_set_def list_update_append)
    have sb: "buf_set (xs @ (b # ns @ [b]) @ ys) ?r a = Inr ((xs @ [b]) @ ns @ (a # ys))"
      unfolding r by (subst buf_set_nat) (simp_all add: list_update_append)
    have "reverse_loop (xs @ ms @ ys) ?l ?r =
        reverse_loop ((xs @ [b]) @ ns @ (a # ys)) (?l + 1) (?r - 1)"
      using 3 ga gb sa sb by (subst reverse_loop.simps) simp
    also have "\<dots> = Inr ((xs @ [b]) @ rev ns @ (a # ys))"
    proof -
      have "?l + 1 = int (length (xs @ [b]))" "?r - 1 = int (length (xs @ [b])) + int (length ns) - 1"
        using 3 by simp_all
      moreover have "length ns < length ms" using 3 by simp
      ultimately show ?thesis using less.hyps [of ns "xs @ [b]" "a # ys"] by (simp only:)
    qed
    finally show ?thesis using 3 by simp
  qed
qed

lemma reverse_spec:
  assumes "n \<le> length buf"
  shows "reverse buf (int n) = Inr (int n, rev (take n buf) @ drop n buf)"
  using reverse_loop_spec [of "[]" "take n buf" "drop n buf"] assms by (simp add: reverse_def)

section \<open>Reading a line in pieces\<close>

text \<open>The kernel delivers the pieces \<open>cs\<close> to the next reads of \<open>fd\<close>, and is then in state \<open>k'\<close>.\<close>

fun delivers :: "'k net \<Rightarrow> int \<Rightarrow> nat \<Rightarrow> 'k \<Rightarrow> byte list list \<Rightarrow> 'k \<Rightarrow> bool" where
  "delivers N fd len k [] k' \<longleftrightarrow> k' = k"
| "delivers N fd len k (c # cs) k' \<longleftrightarrow>
     (\<exists>k1. net_read N fd len k = (Some c, k1) \<and> delivers N fd len k1 cs k')"

lemma get_line_step:
  assumes "net_read N fd len k = (Some c, k1)" and "c \<noteq> []" and "cur + length c \<le> length buf"
  shows "get_line_loop N fd len buf (int cur) k =
    (let buf = take cur buf @ c @ drop (cur + length c) buf in
     if last c \<noteq> newline then get_line_loop N fd len buf (int (cur + length c)) k1
     else Some (Inr (int (cur + length c), buf, k1)))"
proof -
  let ?buf = "take cur buf @ c @ drop (cur + length c) buf"
  have s: "buf_store buf (int cur) c = Inr ?buf"
    using assms(2,3) by (simp add: buf_store_def)
  have c: "0 < length c" using assms(2) by simp
  then have "int cur + int (length c) - 1 = int (cur + (length c - 1))" by (simp add: of_nat_diff Suc_le_eq)
  moreover have "buf_get ?buf (int (cur + (length c - 1))) = Inr (?buf ! (cur + (length c - 1)))"
  proof (rule buf_get_nat)
    have "length ?buf = length buf" using assms(3) by simp
    moreover have "length c - 1 < length c" using c by simp
    ultimately show "cur + (length c - 1) < length ?buf" using assms(3) by linarith
  qed
  moreover have "?buf ! (cur + (length c - 1)) = last c"
    using c assms(2,3) by (simp add: nth_append last_conv_nth)
  ultimately have g: "buf_get ?buf (int cur + int (length c) - 1) = Inr (last c)" by simp
  show ?thesis
    using assms(1,2) s g by (subst get_line_loop.simps) (simp add: Let_def)
qed

lemma get_line_chunks:
  assumes "delivers N fd len k (cs @ [c]) k'" and "\<forall>d \<in> set cs. d \<noteq> [] \<and> last d \<noteq> newline"
    and "c \<noteq> []" and "last c = newline" and "cur + length (concat (cs @ [c])) \<le> length buf"
  shows "get_line_loop N fd len buf (int cur) k =
    Some (Inr (int (cur + length (concat (cs @ [c]))),
      take cur buf @ concat (cs @ [c]) @ drop (cur + length (concat (cs @ [c]))) buf, k'))"
  using assms
proof (induction cs arbitrary: cur buf k)
  case Nil
  then show ?case by (auto simp: get_line_step Let_def)
next
  case (Cons d cs)
  then obtain k1 where k1: "net_read N fd len k = (Some d, k1)" "delivers N fd len k1 (cs @ [c]) k'"
    by auto
  let ?buf = "take cur buf @ d @ drop (cur + length d) buf"
  have d: "d \<noteq> []" "last d \<noteq> newline" "cur + length d \<le> length buf" using Cons.prems by auto
  have "get_line_loop N fd len buf (int cur) k = get_line_loop N fd len ?buf (int (cur + length d)) k1"
    using get_line_step [OF k1(1) d(1,3)] d(2) by (simp add: Let_def)
  also have "\<dots> = Some (Inr (int (cur + length d + length (concat (cs @ [c]))),
      take (cur + length d) ?buf @ concat (cs @ [c]) @
      drop (cur + length d + length (concat (cs @ [c]))) ?buf, k'))"
    using k1(2) Cons.prems d(3) by (intro Cons.IH) auto
  also have "take (cur + length d) ?buf = take cur buf @ d" using d(3) by simp
  also have "drop (cur + length d + length (concat (cs @ [c]))) ?buf =
      drop (cur + length (concat ((d # cs) @ [c]))) buf"
    using d(3) by (simp add: ac_simps)
  finally show ?case by (simp add: add.assoc)
qed

section \<open>A request\<close>

lemma get_line_spec:
  assumes "delivers N fd len k (cs @ [c]) k'" and "\<forall>d \<in> set cs. d \<noteq> [] \<and> last d \<noteq> newline"
    and "c \<noteq> []" and "last c = newline" and "length (concat (cs @ [c])) \<le> length buf"
  shows "get_line N fd len buf k =
    Inr (int (length (concat (cs @ [c]))),
      concat (cs @ [c]) @ drop (length (concat (cs @ [c]))) buf, k')"
  using get_line_chunks [OF assms(1-4), of 0 buf] assms(5) by (simp add: get_line_def)

lemma get_line_closed:
  assumes "net_read N fd len k = (Some [], k')"
  shows "get_line N fd len buf k = Inr (-1, buf, k')"
  using assms by (simp add: get_line_def get_line_loop.simps buf_store_def)

lemma handle_closed:
  assumes "net_read N fd MAXSIZE k = (Some [], k')" and "length buf = MAXSIZE"
  shows "handle tr N fd buf k = Inl OutOfBounds"
  using assms get_line_closed [OF assms(1), of buf]
  by (simp add: handle_def buf_set_def MAXSIZE_def)

lemma handle_line:
  assumes "delivers N fd MAXSIZE k (cs @ [c]) k'" and "\<forall>d \<in> set cs. d \<noteq> [] \<and> last d \<noteq> newline"
    and "c \<noteq> []" and "last c = newline" and "length buf = MAXSIZE"
    and "length (concat (cs @ [c])) = n" and "n < MAXSIZE"
    and tr: "\<And>buf. length buf = MAXSIZE \<Longrightarrow> take n buf = concat (cs @ [c]) \<Longrightarrow>
      \<exists>rest. tr buf (int n) = Inr (int n, out @ rest)" and "length out = n"
  shows "handle tr N fd buf k = Inr (int n, snd (net_write N fd out k'))"
proof -
  let ?l = "concat (cs @ [c])"
  have n: "0 < n" using assms(3,6) by auto
  let ?buf = "?l @ newline # drop (Suc n) buf"
  have len: "length ?l = n" by (rule assms(6))
  have "get_line N fd MAXSIZE buf k = Inr (int n, ?l @ drop n buf, k')"
    using get_line_spec [OF assms(1-4), of buf] assms(5,7) unfolding len by simp
  moreover have "buf_set (?l @ drop n buf) (int n) newline = Inr ?buf"
  proof -
    have "drop n buf = buf ! n # drop (Suc n) buf"
      using assms(5,7) by (simp add: Cons_nth_drop_Suc)
    then have "(?l @ drop n buf)[n := newline] = ?buf"
      using list_update_length [of ?l "buf ! n" "drop (Suc n) buf" newline] unfolding len by (simp only:)
    then show ?thesis using assms(5,7) len by (subst buf_set_nat) simp_all
  qed
  moreover obtain rest where "tr ?buf (int n) = Inr (int n, out @ rest)"
    using tr [of ?buf] assms(5,7) len by auto
  moreover have "int n mod 2 ^ 64 = int n" using assms(7) by (simp add: MAXSIZE_def)
  ultimately show ?thesis
    using n assms(9) by (simp add: handle_def Let_def split: prod.split)
qed

lemma upper_line:
  assumes "length buf = MAXSIZE" and "take n buf = l" and "length l = n" and "n \<le> MAXSIZE"
  shows "\<exists>rest. upper buf (int n) = Inr (int n,
    (map to_upper (takeWhile (\<lambda>b. b \<noteq> newline) l) @ dropWhile (\<lambda>b. b \<noteq> newline) l) @ rest)"
proof -
  let ?t = "takeWhile (\<lambda>b. b \<noteq> newline) l"
  have buf: "buf = l @ drop n buf" using assms(2) by (metis append_take_drop_id)
  have "drop (length ?t) (l @ drop n buf) = dropWhile (\<lambda>b. b \<noteq> newline) l @ drop n buf"
    using length_takeWhile_le [of "\<lambda>b. b \<noteq> newline" l] by (simp add: dropWhile_eq_drop)
  then have "drop (length ?t) buf = dropWhile (\<lambda>b. b \<noteq> newline) l @ drop n buf"
    using buf by simp
  then show ?thesis using upper_spec [of n buf] assms by simp
qed

lemma upper_line_answered:
  assumes "delivers N fd MAXSIZE k (cs @ [c]) k'" and "\<forall>d \<in> set cs. d \<noteq> [] \<and> last d \<noteq> newline"
    and "c \<noteq> []" and "last c = newline" and "length buf = MAXSIZE" and "l = concat (cs @ [c])"
    and "length l < MAXSIZE"
  shows "handle_upper N fd buf k = Inr (int (length l), snd (net_write N fd
    (map to_upper (takeWhile (\<lambda>b. b \<noteq> newline) l) @ dropWhile (\<lambda>b. b \<noteq> newline) l) k'))"
  unfolding handle_upper_def
proof (rule handle_line [OF assms(1-5)])
  show "length (map to_upper (takeWhile (\<lambda>b. b \<noteq> newline) l) @ dropWhile (\<lambda>b. b \<noteq> newline) l) = length l"
    by (metis length_append length_map takeWhile_dropWhile_id)
  show "\<exists>rest. upper buf (int (length l)) = Inr (int (length l),
      (map to_upper (takeWhile (\<lambda>b. b \<noteq> newline) l) @ dropWhile (\<lambda>b. b \<noteq> newline) l) @ rest)"
    if "length buf = MAXSIZE" "take (length l) buf = concat (cs @ [c])" for buf
    using upper_line [OF that(1) _ refl, of l] that(2) assms(6,7) by simp
qed (use assms(6,7) in simp_all)

section \<open>Properties\<close>

text \<open>
  C35: When a line arrives, in any number of pieces of which only the last ends with a newline,
  and it is shorter than the buffer, the upper server reads all of it and writes it back with
  the letters a to z of its first line in upper case.
\<close>

theorem upper_server_answers:
  assumes "delivers N fd MAXSIZE k (cs @ [c]) k'" and "\<forall>d \<in> set cs. d \<noteq> [] \<and> last d \<noteq> newline"
    and "c \<noteq> []" and "last c = newline" and "length buf = MAXSIZE" and "l = concat (cs @ [c])"
    and "length l < MAXSIZE"
  shows "handle_upper N fd buf k = Inr (int (length l), snd (net_write N fd
    (map to_upper (takeWhile (\<lambda>b. b \<noteq> newline) l) @ dropWhile (\<lambda>b. b \<noteq> newline) l) k'))"
  by (rule upper_line_answered [OF assms])

text \<open>
  A connection that delivers the line \<open>aB\<close> in two pieces; the second component of the kernel
  state is what was written last.
\<close>

definition ex_net :: "(nat \<times> byte list) net" where
  "ex_net =
     \<lparr>net_socket = (\<lambda>k. (3, k)), net_bind = (\<lambda>_ _ k. (0, k)), net_listen = (\<lambda>_ _ k. (0, k)),
      net_epoll_create = (\<lambda>_ k. (4, k)), net_ctl = (\<lambda>_ _ _ _ k. (0, k)),
      net_wait = (\<lambda>_ _ k. (Some [], k)), net_accept = (\<lambda>_ k. (5, k)),
      net_read = (\<lambda>_ _ (k, w). (Some (if k = 0 then [97] else if k = 1 then [66, 10] else []), (k + 1, w))),
      net_write = (\<lambda>_ bs (k, w). (int (length bs), (k, bs))), net_close = (\<lambda>_ k. (0, k))\<rparr>"

lemma ex_net_delivers: "delivers ex_net 5 MAXSIZE (0, []) ([[97]] @ [[66, 10]]) (2, [])"
  by (simp add: ex_net_def)

theorem upper_server_answers_witness:
  "handle_upper ex_net 5 (replicate MAXSIZE 0) (0, []) = Inr (3, (2, [65, 66, 10]))"
  using upper_server_answers [OF ex_net_delivers, of "replicate MAXSIZE 0"]
  by (simp add: MAXSIZE_def) (simp add: ex_net_def to_upper_def is_lowercase_def LOW_UP_SETOFF_def)

text \<open>
  C36: For such a line the reverse server writes back all the bytes reversed, including the
  newline, so that its answer starts with the newline.
\<close>

theorem reverse_server_answers:
  assumes "delivers N fd MAXSIZE k (cs @ [c]) k'" and "\<forall>d \<in> set cs. d \<noteq> [] \<and> last d \<noteq> newline"
    and "c \<noteq> []" and "last c = newline" and "length buf = MAXSIZE" and "l = concat (cs @ [c])"
    and "length l < MAXSIZE"
  shows "handle_reverse N fd buf k = Inr (int (length l), snd (net_write N fd (rev l) k')) \<and>
    hd (rev l) = newline"
proof
  show "handle_reverse N fd buf k = Inr (int (length l), snd (net_write N fd (rev l) k'))"
    unfolding handle_reverse_def
  proof (rule handle_line [OF assms(1-5)])
    show "\<exists>rest. reverse buf (int (length l)) = Inr (int (length l), rev l @ rest)"
      if "length buf = MAXSIZE" "take (length l) buf = concat (cs @ [c])" for buf
      using reverse_spec [of "length l" buf] that assms(6,7) by simp
  qed (use assms(6,7) in simp_all)
  show "hd (rev l) = newline" using assms(3,4,6) by (simp add: hd_rev)
qed

theorem reverse_server_answers_witness:
  "handle_reverse ex_net 5 (replicate MAXSIZE 0) (0, []) = Inr (3, (2, [10, 66, 97]))"
  using reverse_server_answers [OF ex_net_delivers, of "replicate MAXSIZE 0"]
  by (simp add: MAXSIZE_def) (simp add: ex_net_def)

text \<open>
  C38: When the peer has closed the connection, get_line returns -1 as its comment says, and
  handle stores a byte outside its buffer in both servers.
\<close>

theorem closed_peer_overruns:
  assumes "net_read N fd MAXSIZE k = (Some [], k')" and "length buf = MAXSIZE"
  shows "get_line N fd MAXSIZE buf k = Inr (-1, buf, k') \<and>
    handle_upper N fd buf k = Inl OutOfBounds \<and> handle_reverse N fd buf k = Inl OutOfBounds"
  unfolding handle_upper_def handle_reverse_def
  using get_line_closed [OF assms(1)] handle_closed [OF assms] by simp

theorem closed_peer_overruns_witness:
  "handle_upper ex_net 5 (replicate MAXSIZE 0) (2, []) = Inl OutOfBounds"
  using closed_peer_overruns [of ex_net 5 "(2, [])" "(3, [])" "replicate MAXSIZE 0"]
  by (simp add: ex_net_def)

end
