(* ===== verification/SocketDemos.thy ===== *)
theory SocketDemos
  imports Servers
begin

text \<open>
  The test client of the two servers (\<open>tools/server/cli.c\<close>) and the epoll example without
  coroutines (\<open>examples/demo02.c\<close>), over the same sockets as the servers.
\<close>

section \<open>C strings\<close>

text \<open>\<open>strlen\<close>, and what \<open>printf\<close> reads for \<open>%s\<close>: a buffer without a zero byte is overrun.\<close>

definition c_strlen :: "byte list \<Rightarrow> fault + nat" where
  "c_strlen buf =
     (let n = length (takeWhile (\<lambda>b. b \<noteq> 0) buf) in
      if n < length buf then Inr n else Inl OutOfBounds)"

section \<open>The client\<close>

text \<open>
  One turn of \<open>str_cli\<close> up to \<open>write\<close>: \<open>line\<close> is what \<open>fgets\<close> stored, without its zero byte, and
  \<open>None\<close> at the end of the input. The result is what is written and the buffer.
\<close>

definition cli_request :: "byte list option \<Rightarrow> byte list \<Rightarrow> fault + (byte list \<times> byte list)" where
  "cli_request line buf =
     bnd (buf_store buf 0 (replicate 100 0)) (\<lambda>buf.
     bnd (case line of None \<Rightarrow> Inr buf | Some l \<Rightarrow> buf_store buf 0 (l @ [0])) (\<lambda>buf.
     bnd (c_strlen buf) (\<lambda>len.
     bnd (buf_set buf (int len) newline) (\<lambda>buf.
     Inr (take (len + 1) buf, buf)))))"

definition str_cli_turn ::
  "'k net \<Rightarrow> (nat \<Rightarrow> 'k \<Rightarrow> byte list option \<times> 'k) \<Rightarrow> int \<Rightarrow> byte list \<Rightarrow> 'k \<Rightarrow>
   fault + (byte list \<times> 'k)" where
  "str_cli_turn N fgets fd buf k =
     (case fgets 100 k of (line, k) \<Rightarrow>
      bnd (cli_request line buf) (\<lambda>(out, buf).
      case net_write N fd out k of (_, k) \<Rightarrow>
      case net_read N fd 100 k of (r, k) \<Rightarrow>
      bnd (case r of None \<Rightarrow> Inr buf | Some bs \<Rightarrow> buf_store buf 0 bs) (\<lambda>buf.
      bnd (c_strlen buf) (\<lambda>_.
      Inr (buf, k)))))"

fun str_cli ::
  "'k net \<Rightarrow> (nat \<Rightarrow> 'k \<Rightarrow> byte list option \<times> 'k) \<Rightarrow> int \<Rightarrow> nat \<Rightarrow> byte list \<Rightarrow> 'k \<Rightarrow>
   fault + (byte list \<times> 'k)" where
  "str_cli N fgets fd 0 buf k = Inr (buf, k)"
| "str_cli N fgets fd (Suc fuel) buf k =
     bnd (str_cli_turn N fgets fd buf k) (\<lambda>(buf, k). str_cli N fgets fd fuel buf k)"

text \<open>\<open>buf\<close> is the initial content of the 128 bytes of the buffer.\<close>

definition main_cli ::
  "'k net \<Rightarrow> (int \<Rightarrow> int \<Rightarrow> 'k \<Rightarrow> int \<times> 'k) \<Rightarrow> (nat \<Rightarrow> 'k \<Rightarrow> byte list option \<times> 'k) \<Rightarrow> nat \<Rightarrow>
   byte list \<Rightarrow> 'k \<Rightarrow> fault + (byte list \<times> 'k)" where
  "main_cli N conn fgets fuel buf k =
     (case net_socket N k of (sockfd, k) \<Rightarrow>
      case conn sockfd PORT k of (_, k) \<Rightarrow>
      str_cli N fgets sockfd fuel buf k)"

section \<open>demo02.c\<close>

definition demo02_event :: "'k net \<Rightarrow> int \<Rightarrow> int \<Rightarrow> epoll_event \<Rightarrow> 'k \<Rightarrow> fault + 'k" where
  "demo02_event N listenfd epollfd ev k =
     (if ev_fd ev = listenfd
      then
        (case net_accept N listenfd k of (clifd, k) \<Rightarrow>
         case net_ctl N epollfd EPOLL_CTL_ADD clifd (Some \<lparr>ev_events = EPOLLIN, ev_fd = clifd\<rparr>) k of (_, k) \<Rightarrow>
         Inr k)
      else
        (case net_read N (ev_fd ev) 64 k of (r, k) \<Rightarrow>
         bnd (case r of None \<Rightarrow> Inr (replicate 64 0) | Some bs \<Rightarrow> buf_store (replicate 64 0) 0 bs) (\<lambda>buf.
         if r = Some []
         then (case net_ctl N epollfd EPOLL_CTL_DEL (ev_fd ev) None k of (_, k) \<Rightarrow> Inr k)
         else bnd (c_strlen buf) (\<lambda>_. Inr k))))"

definition demo02_turn :: "'k net \<Rightarrow> int \<Rightarrow> int \<Rightarrow> 'k \<Rightarrow> fault + 'k" where
  "demo02_turn N listenfd epollfd k =
     (case net_wait N epollfd 16 k of
        (None, k) \<Rightarrow> Inl (Exit (-1))
      | (Some evs, k) \<Rightarrow> foldE (demo02_event N listenfd epollfd) evs k)"

text \<open>\<open>fuel\<close> turns of the endless loop.\<close>

fun demo02_loop :: "'k net \<Rightarrow> int \<Rightarrow> int \<Rightarrow> nat \<Rightarrow> 'k \<Rightarrow> fault + 'k" where
  "demo02_loop N listenfd epollfd 0 k = Inr k"
| "demo02_loop N listenfd epollfd (Suc fuel) k =
     bnd (demo02_turn N listenfd epollfd k) (demo02_loop N listenfd epollfd fuel)"

definition demo02_main :: "'k net \<Rightarrow> nat \<Rightarrow> int \<Rightarrow> nat \<Rightarrow> 'k \<Rightarrow> fault + 'k" where
  "demo02_main N argc port fuel k =
     (if argc < 3 then Inl (Exit (-1)) else
      (case net_socket N k of (listenfd, k) \<Rightarrow>
       case net_bind N listenfd port k of (ret, k) \<Rightarrow>
       if ret < 0 then Inl (Exit (-1)) else
       (case net_listen N listenfd 5 k of (_, k) \<Rightarrow>
        case net_epoll_create N 1 k of (epollfd, k) \<Rightarrow>
        if epollfd < 0 then Inl (Exit (-1)) else
        (case net_ctl N epollfd EPOLL_CTL_ADD listenfd
               (Some \<lparr>ev_events = EPOLLIN, ev_fd = listenfd\<rparr>) k of (_, k) \<Rightarrow>
         demo02_loop N listenfd epollfd fuel k))))"

section \<open>What the client sends\<close>

lemma c_strlen_at:
  assumes "0 \<notin> set l"
  shows "c_strlen (l @ 0 # rest) = Inr (length l)"
proof -
  have "takeWhile (\<lambda>b. b \<noteq> 0) (l @ 0 # rest) = l"
    using assms by (subst takeWhile_append2) auto
  then show ?thesis by (simp add: c_strlen_def)
qed

lemma cli_request_line:
  assumes "length buf = 128" and "length l \<le> 99" and "0 \<notin> set l"
  shows "\<exists>buf'. cli_request (Some l) buf = Inr (l @ [newline], buf') \<and> length buf' = 128"
proof -
  let ?b = "replicate 100 0 @ drop 100 buf" and ?r = "replicate (99 - length l) 0 @ drop 100 buf"
  have m: "buf_store buf 0 (replicate 100 0) = Inr ?b"
    using assms(1) by (simp add: buf_store_def)
  have f: "buf_store ?b 0 (l @ [0]) = Inr (l @ 0 # ?r)"
    using assms(1,2) by (simp add: buf_store_def)
  have w: "buf_set (l @ 0 # ?r) (int (length l)) newline = Inr (l @ newline # ?r)"
    by (subst buf_set_nat) simp_all
  show ?thesis
    unfolding cli_request_def m using assms(1,2)
    by (simp add: f c_strlen_at [OF assms(3)] w)
qed

section \<open>What demo02 prints\<close>

lemma takeWhile_all_len: "length (takeWhile P xs) = length xs \<longleftrightarrow> (\<forall>x \<in> set xs. P x)"
  by (induction xs) auto

lemma c_strlen_ok: "(\<exists>n. c_strlen buf = Inr n) \<longleftrightarrow> 0 \<in> set buf"
proof -
  have "length (takeWhile (\<lambda>b. b \<noteq> 0) buf) < length buf \<longleftrightarrow> 0 \<in> set buf"
    using takeWhile_all_len [of "\<lambda>b. b \<noteq> 0" buf] length_takeWhile_le [of "\<lambda>b. b \<noteq> 0" buf]
    by (metis (mono_tags, lifting) le_neq_implies_less less_irrefl)
  then show ?thesis by (simp add: c_strlen_def)
qed

lemma c_strlen_cases: "c_strlen buf = Inl OutOfBounds \<or> (\<exists>n. c_strlen buf = Inr n)"
  by (simp add: c_strlen_def Let_def)

lemma demo02_message:
  assumes "ev_fd ev \<noteq> listenfd" and r: "net_read N (ev_fd ev) 64 k = (Some bs, k')"
    and "bs \<noteq> []" and "length bs \<le> 64"
  shows "demo02_event N listenfd epollfd ev k =
    (if length bs = 64 \<and> 0 \<notin> set bs then Inl OutOfBounds else Inr k')"
proof -
  let ?b = "bs @ replicate (64 - length bs) 0"
  have s: "buf_store (replicate 64 0) 0 bs = Inr ?b" using assms(4) by (simp add: buf_store_def)
  have "0 \<in> set ?b \<longleftrightarrow> \<not> (length bs = 64 \<and> 0 \<notin> set bs)" using assms(4) by auto
  then have "(\<exists>n. c_strlen ?b = Inr n) \<longleftrightarrow> \<not> (length bs = 64 \<and> 0 \<notin> set bs)"
    unfolding c_strlen_ok .
  with c_strlen_cases [of ?b] show ?thesis using assms(1,3) by (auto simp: demo02_event_def r s)
qed

section \<open>Properties\<close>

text \<open>
  C39: The test client sends the line it read followed by a further newline, and the upper
  server, when this message is delivered to it in one piece, answers with as many bytes, in
  which the letters a to z of the line are in upper case.
\<close>

theorem client_line_answered:
  assumes "length buf = 128" and "length l \<le> 99" and "0 \<notin> set l"
    and "delivers N fd MAXSIZE k [l @ [newline]] k'" and "length sbuf = MAXSIZE"
  shows "(\<exists>buf'. cli_request (Some l) buf = Inr (l @ [newline], buf')) \<and>
    handle_upper N fd sbuf k = Inr (int (length l) + 1, snd (net_write N fd
      (map to_upper (takeWhile (\<lambda>b. b \<noteq> newline) l) @ dropWhile (\<lambda>b. b \<noteq> newline) (l @ [newline])) k'))"
proof
  show "\<exists>buf'. cli_request (Some l) buf = Inr (l @ [newline], buf')"
    using cli_request_line [OF assms(1-3)] by blast
  have "takeWhile (\<lambda>b. b \<noteq> newline) (l @ [newline]) = takeWhile (\<lambda>b. b \<noteq> newline) l"
    by (induction l) auto
  then show "handle_upper N fd sbuf k = Inr (int (length l) + 1, snd (net_write N fd
      (map to_upper (takeWhile (\<lambda>b. b \<noteq> newline) l) @ dropWhile (\<lambda>b. b \<noteq> newline) (l @ [newline])) k'))"
    using upper_line_answered [of N fd k "[]" "l @ [newline]" k' sbuf] assms(2,4,5)
    by (simp add: MAXSIZE_def add.commute)
qed

theorem client_line_answered_witness:
  "(\<exists>buf'. cli_request (Some [97, 66]) (replicate 128 0) = Inr ([97, 66, 10], buf')) \<and>
   handle_upper (ex_net\<lparr>net_read := (\<lambda>_ _ k. (Some [97, 66, 10], k))\<rparr>) 5 (replicate MAXSIZE 0) (0, []) =
     Inr (3, (0, [65, 66, 10]))"
  using client_line_answered [of "replicate 128 0" "[97, 66]" "ex_net\<lparr>net_read := (\<lambda>_ _ k. (Some [97, 66, 10], k))\<rparr>"
      5 "(0, [])" "(0, [])" "replicate MAXSIZE 0"]
  by (simp add: ex_net_def to_upper_def is_lowercase_def LOW_UP_SETOFF_def)

end
