(* ===== verification/Cosyscall.thy ===== *)
theory Cosyscall
  imports Coroutine
begin

text \<open>
  The blocking system calls (\<open>src/cosyscall.c\<close>). Each one registers the descriptor with
  \<open>add_queue\<close>, waits in a loop until the event loop has delivered the event, and then calls
  the kernel. A function is modelled in two parts, \<open>_enter\<close> up to the loop and \<open>_turn\<close> from the
  loop condition on: a turn either calls \<open>schedule\<close> (result \<open>None\<close>) and will be repeated when the
  coroutine is resumed, or leaves the loop and returns a value.
\<close>

section \<open>add\_queue\<close>

text \<open>
  The condition of the second branch as C reads it: \<open>E & (events != E)\<close>, where the comparison is
  1 or 0.
\<close>

definition needs_mod :: "32 word \<Rightarrow> 32 word \<Rightarrow> bool" where
  "needs_mod E ev \<longleftrightarrow> E AND (if ev \<noteq> E then 1 else 0) \<noteq> 0"

definition register_fd ::
  "'k os \<Rightarrow> int \<Rightarrow> taskp \<Rightarrow> nat \<Rightarrow> 32 word \<Rightarrow> 'k co_state \<Rightarrow> fault + (int \<times> 'k co_state)" where
  "register_fd K epf cur n ev s =
     bnd (get_task cur s) (\<lambda>t.
     if MAX_FD \<le> fds_idx t then Inl OutOfBounds else
     bnd (mod_task cur (\<lambda>t. t\<lparr>fds := (fds t)(fds_idx t := int n), fds_idx := fds_idx t + 1,
            events := (events t)(n := \<lparr>ev_events = EPOLLIN, ev_fd = int n\<rparr>)\<rparr>) s) (\<lambda>s.
     Inr (syscall (os_epoll_ctl K epf EPOLL_CTL_ADD (int n) (Some \<lparr>ev_events = ev, ev_fd = int n\<rparr>)) s)))"

definition extend_fd ::
  "'k os \<Rightarrow> int \<Rightarrow> taskp \<Rightarrow> nat \<Rightarrow> 32 word \<Rightarrow> 'k co_state \<Rightarrow> fault + (int \<times> 'k co_state)" where
  "extend_fd K epf cur n ev s =
     bnd (mod_task cur (\<lambda>t. t\<lparr>events := (events t)
            (n := (events t n)\<lparr>ev_events := ev_events (events t n) OR ev\<rparr>)\<rparr>) s) (\<lambda>s.
     bnd (get_task cur s) (\<lambda>t.
     Inr (syscall (os_epoll_ctl K epf EPOLL_CTL_MOD (int n)
            (Some \<lparr>ev_events = ev OR ev_events (events t n), ev_fd = int n\<rparr>)) s)))"

definition add_queue ::
  "'k os \<Rightarrow> int \<Rightarrow> int \<Rightarrow> 32 word \<Rightarrow> 'k co_state \<Rightarrow> fault + (int \<times> 'k co_state)" where
  "add_queue K tid fd ev s =
     bnd (co_get_thread_env K tid s) (\<lambda>(ep, s).
     bnd (get_env ep s) (\<lambda>env.
     bnd (nonnull (current env)) (\<lambda>cur.
     bnd (mod_task cur (\<lambda>t. t\<lparr>status := COROUTINE_WAIT\<rparr>) s) (\<lambda>s.
     bnd (fd_index fd) (\<lambda>n.
     bnd (mod_task cur (\<lambda>t. t\<lparr>revents := (revents t)(n := revents t n AND NOT ev)\<rparr>) s) (\<lambda>s.
     bnd (get_task cur s) (\<lambda>t.
     bnd (if ev_fd (events t n) \<le> 0 then register_fd K (epfd env) cur n ev s
          else if needs_mod (ev_events (events t n)) ev then extend_fd K (epfd env) cur n ev s
          else Inr (0, s)) (\<lambda>(ret, s).
     if ret < 0 then Inr (ret, s)
     else
       bnd (on_queues (TAILQ_INSERT_TAIL (ep, fd) (Some cur)) s) (\<lambda>s.
       Inr (0, s))))))))))"

section \<open>The calls\<close>

text \<open>
  What \<open>_enter\<close> yields: the error of \<open>add_queue\<close>, or the locals \<open>current\<close> and \<open>epfd\<close> that the
  rest of the function uses.
\<close>

type_synonym entered = "int + (taskp option \<times> int)"

definition co_accept_enter ::
  "'k os \<Rightarrow> int \<Rightarrow> int \<Rightarrow> 'k co_state \<Rightarrow> fault + (entered \<times> 'k co_state)" where
  "co_accept_enter K tid listenfd s =
     bnd (co_get_thread_env K tid s) (\<lambda>(ep, s).
     bnd (get_env ep s) (\<lambda>env.
     bnd (add_queue K tid listenfd EPOLLIN s) (\<lambda>(ret, s).
     Inr (if ret < 0 then Inl ret else Inr (current env, epfd env), s))))"

definition co_read_enter ::
  "'k os \<Rightarrow> int \<Rightarrow> int \<Rightarrow> 'k co_state \<Rightarrow> fault + (entered \<times> 'k co_state)" where
  "co_read_enter K tid fd s =
     bnd (co_get_thread_env K tid s) (\<lambda>(ep, s).
     bnd (get_env ep s) (\<lambda>env.
     bnd (nonnull (current env)) (\<lambda>cur.
     bnd (mod_task cur (\<lambda>t. t\<lparr>status := COROUTINE_WAIT\<rparr>) s) (\<lambda>s.
     bnd (add_queue K tid fd EPOLLIN s) (\<lambda>(ret, s).
     Inr (if ret < 0 then Inl ret else Inr (current env, epfd env), s))))))"

definition co_write_enter ::
  "'k os \<Rightarrow> int \<Rightarrow> int \<Rightarrow> 'k co_state \<Rightarrow> fault + (entered \<times> 'k co_state)" where
  "co_write_enter K tid fd s =
     bnd (co_get_thread_env K tid s) (\<lambda>(ep, s).
     bnd (get_env ep s) (\<lambda>env.
     bnd (nonnull (current env)) (\<lambda>cur.
     bnd (mod_task cur (\<lambda>t. t\<lparr>status := COROUTINE_WAIT\<rparr>) s) (\<lambda>s.
     bnd (add_queue K tid fd EPOLLOUT s) (\<lambda>(ret, s).
     Inr (if ret < 0 then Inl ret else Inr (current env, epfd env), s))))))"

text \<open>
  \<open>while(!(current->revents[fd] & ev)) \{ current->status = COROUTINE_WAIT; schedule(); \}\<close>: one
  test of the condition, and the body when it holds.
\<close>

definition await ::
  "'k os \<Rightarrow> int \<Rightarrow> taskp option \<Rightarrow> int \<Rightarrow> 32 word \<Rightarrow> 'k co_state \<Rightarrow> fault + (bool \<times> 'k co_state)" where
  "await K tid curo fd ev s =
     bnd (nonnull curo) (\<lambda>cur.
     bnd (fd_index fd) (\<lambda>n.
     bnd (get_task cur s) (\<lambda>t.
     if revents t n AND ev = 0
     then
       bnd (mod_task cur (\<lambda>t. t\<lparr>status := COROUTINE_WAIT\<rparr>) s) (\<lambda>s.
       bnd (schedule K tid s) (\<lambda>s. Inr (False, s)))
     else Inr (True, s))))"

definition co_accept_turn ::
  "'k os \<Rightarrow> int \<Rightarrow> taskp option \<Rightarrow> int \<Rightarrow> 'k co_state \<Rightarrow> fault + (int option \<times> 'k co_state)" where
  "co_accept_turn K tid curo listenfd s =
     bnd (await K tid curo listenfd EPOLLIN s) (\<lambda>(ready, s).
     if ready
     then (case syscall (os_accept K listenfd) s of (ret, s) \<Rightarrow> Inr (Some ret, s))
     else Inr (None, s))"

definition co_read_turn ::
  "'k os \<Rightarrow> int \<Rightarrow> taskp option \<Rightarrow> int \<Rightarrow> nat \<Rightarrow> 'k co_state \<Rightarrow>
   fault + (int option \<times> 'k co_state)" where
  "co_read_turn K tid curo fd len s =
     bnd (await K tid curo fd EPOLLIN s) (\<lambda>(ready, s).
     if ready
     then (case syscall (os_read K fd len) s of (ret, s) \<Rightarrow> Inr (Some ret, s))
     else Inr (None, s))"

definition co_write_turn ::
  "'k os \<Rightarrow> int \<Rightarrow> taskp option \<Rightarrow> int \<Rightarrow> int \<Rightarrow> nat \<Rightarrow> 'k co_state \<Rightarrow>
   fault + (int option \<times> 'k co_state)" where
  "co_write_turn K tid curo epf fd len s =
     bnd (await K tid curo fd EPOLLOUT s) (\<lambda>(ready, s).
     if ready
     then
       bnd (nonnull curo) (\<lambda>cur.
       bnd (fd_index fd) (\<lambda>n.
       bnd (mod_task cur (\<lambda>t. t\<lparr>
              events := (events t)
                (n := (events t n)\<lparr>ev_events := ev_events (events t n) AND NOT EPOLLOUT\<rparr>),
              revents := (revents t)(n := revents t n AND NOT EPOLLOUT)\<rparr>) s) (\<lambda>s.
       bnd (get_task cur s) (\<lambda>t.
       case syscall (os_epoll_ctl K epf EPOLL_CTL_MOD fd (Some (events t n))) s of (ret, s) \<Rightarrow>
       if ret < 0 then Inr (Some ret, s)
       else (case syscall (os_write K fd len) s of (ret, s) \<Rightarrow> Inr (Some ret, s))))))
     else Inr (None, s))"

section \<open>What \<open>add_queue\<close> does\<close>

text \<open>
  The control block after the status and the received events were reset, and the update of the
  registered interest: the result of \<open>epoll_ctl\<close> (0 when it is not called), the control block and
  the kernel.
\<close>

definition blocked_task :: "nat \<Rightarrow> 32 word \<Rightarrow> task_struct_t \<Rightarrow> task_struct_t" where
  "blocked_task n ev t =
     t\<lparr>status := COROUTINE_WAIT, revents := (revents t)(n := revents t n AND NOT ev)\<rparr>"

definition interest ::
  "'k os \<Rightarrow> int \<Rightarrow> nat \<Rightarrow> 32 word \<Rightarrow> task_struct_t \<Rightarrow> 'k \<Rightarrow> fault + (int \<times> task_struct_t \<times> 'k)" where
  "interest K epf n ev t k =
     (if ev_fd (events t n) \<le> 0
      then
        if MAX_FD \<le> fds_idx t then Inl OutOfBounds
        else (case os_epoll_ctl K epf EPOLL_CTL_ADD (int n) (Some \<lparr>ev_events = ev, ev_fd = int n\<rparr>) k of
          (r, k) \<Rightarrow> Inr (r, t\<lparr>fds := (fds t)(fds_idx t := int n), fds_idx := fds_idx t + 1,
            events := (events t)(n := \<lparr>ev_events = EPOLLIN, ev_fd = int n\<rparr>)\<rparr>, k))
      else if needs_mod (ev_events (events t n)) ev
      then (case os_epoll_ctl K epf EPOLL_CTL_MOD (int n)
            (Some \<lparr>ev_events = ev OR ev_events (events t n), ev_fd = int n\<rparr>) k of
          (r, k) \<Rightarrow> Inr (r, t\<lparr>events := (events t)
            (n := (events t n)\<lparr>ev_events := ev_events (events t n) OR ev\<rparr>)\<rparr>, k))
      else Inr (0, t, k))"

lemma or_absorb: "(a :: 32 word) OR (b OR a) = b OR a" "(a :: 32 word) OR (a OR b) = a OR b"
  by (simp_all add: bit_eq_iff bit_simps) blast+

lemma register_fd_eq:
  assumes "heap s c = Some t"
  shows "register_fd K epf c n ev s =
    (if MAX_FD \<le> fds_idx t then Inl OutOfBounds
     else (case os_epoll_ctl K epf EPOLL_CTL_ADD (int n) (Some \<lparr>ev_events = ev, ev_fd = int n\<rparr>) (kst s) of
       (r, k) \<Rightarrow> Inr (r, s\<lparr>heap := (heap s)(c \<mapsto> t\<lparr>fds := (fds t)(fds_idx t := int n),
         fds_idx := fds_idx t + 1,
         events := (events t)(n := \<lparr>ev_events = EPOLLIN, ev_fd = int n\<rparr>)\<rparr>), kst := k\<rparr>)))"
  using assms by (simp add: register_fd_def get_task_def mod_task_def syscall_def split: prod.splits)

lemma extend_fd_eq:
  assumes "heap s c = Some t"
  shows "extend_fd K epf c n ev s =
    (case os_epoll_ctl K epf EPOLL_CTL_MOD (int n)
         (Some \<lparr>ev_events = ev OR ev_events (events t n), ev_fd = int n\<rparr>) (kst s) of
       (r, k) \<Rightarrow> Inr (r, s\<lparr>heap := (heap s)(c \<mapsto> t\<lparr>events := (events t)
         (n := (events t n)\<lparr>ev_events := ev_events (events t n) OR ev\<rparr>)\<rparr>), kst := k\<rparr>))"
  using assms
  by (simp add: extend_fd_def get_task_def mod_task_def syscall_def or_absorb or.commute
      split: prod.splits)

lemma add_queue_eq:
  assumes th: "thread_has s tid ep" and cur: "is_current s ep env c t" and fd: "fd_index fd = Inr n"
  shows "add_queue K tid fd ev s =
    bnd (interest K (epfd env) n ev (blocked_task n ev t) (kst s)) (\<lambda>(r, t', k).
      let s' = s\<lparr>heap := (heap s)(c \<mapsto> t'), kst := k\<rparr> in
      if r < 0 then Inr (r, s')
      else bnd (on_queues (TAILQ_INSERT_TAIL (ep, fd) (Some c)) s') (\<lambda>s. Inr (0, s)))"
proof -
  let ?s = "s\<lparr>heap := (heap s)(c \<mapsto> blocked_task n ev t)\<rparr>"
  have c: "envs s ep = Some env" "current env = Some c" "heap s c = Some t"
    using cur by (simp_all add: is_current_def)
  have t: "heap ?s c = Some (blocked_task n ev t)" by simp
  have ev: "events (blocked_task n ev t) = events t" by (simp add: blocked_task_def)
  have "add_queue K tid fd ev s =
    bnd (if ev_fd (events t n) \<le> 0 then register_fd K (epfd env) c n ev ?s
         else if needs_mod (ev_events (events t n)) ev then extend_fd K (epfd env) c n ev ?s
         else Inr (0, ?s)) (\<lambda>(ret, s).
      if ret < 0 then Inr (ret, s)
      else bnd (on_queues (TAILQ_INSERT_TAIL (ep, fd) (Some c)) s) (\<lambda>s. Inr (0, s)))"
    using c fd
    by (simp add: add_queue_def thread_has_get [OF th] get_env_def nonnull_def mod_task_def
        get_task_def blocked_task_def)
  also have "\<dots> = bnd (interest K (epfd env) n ev (blocked_task n ev t) (kst s)) (\<lambda>(r, t', k).
      let s' = s\<lparr>heap := (heap s)(c \<mapsto> t'), kst := k\<rparr> in
      if r < 0 then Inr (r, s')
      else bnd (on_queues (TAILQ_INSERT_TAIL (ep, fd) (Some c)) s') (\<lambda>s. Inr (0, s)))"
    by (simp add: interest_def ev register_fd_eq [OF t] extend_fd_eq [OF t] Let_def split: prod.splits)
  finally show ?thesis .
qed

text \<open>What the update of the interest leaves alone, and the interest it leaves behind.\<close>

lemma interest_Inr:
  assumes "interest K epf n ev t k = Inr (r, t', k')"
  shows "tsk_id t' = tsk_id t \<and> thread_env t' = thread_env t \<and> status t' = status t \<and>
    revents t' = revents t \<and> wakeuptime t' = wakeuptime t \<and> co_fn t' = co_fn t \<and> arg t' = arg t \<and>
    esp t' = esp t \<and> stack t' = stack t \<and>
    (fds_idx t \<le> MAX_FD \<longrightarrow> fds_idx t' \<le> MAX_FD) \<and> (\<forall>m. m \<noteq> n \<longrightarrow> events t' m = events t m)"
  using assms by (auto simp: interest_def split: if_splits prod.splits)

text \<open>
  Every registered descriptor keeps \<open>EPOLLIN\<close> in its recorded interest.
\<close>

definition interest_ok :: "task_struct_t \<Rightarrow> bool" where
  "interest_ok t \<longleftrightarrow>
     (\<forall>n. ev_fd (events t n) > 0 \<longrightarrow> ev_events (events t n) \<in> {EPOLLIN, EPOLLIN OR EPOLLOUT})"

lemma interest_ok_events:
  "events t' = events t \<Longrightarrow> interest_ok t' = interest_ok t"
  by (simp add: interest_ok_def)

lemma interest_events:
  assumes "interest K epf n ev t k = Inr (r, t', k')"
  shows "events t' n =
    (if ev_fd (events t n) \<le> 0 then \<lparr>ev_events = EPOLLIN, ev_fd = int n\<rparr>
     else if needs_mod (ev_events (events t n)) ev
     then (events t n)\<lparr>ev_events := ev_events (events t n) OR ev\<rparr> else events t n)"
  using assms by (auto simp: interest_def split: if_splits prod.splits)

lemma interest_values:
  assumes "E \<in> {EPOLLIN, EPOLLIN OR EPOLLOUT}" and "ev \<in> {EPOLLIN, EPOLLOUT}"
  shows "E OR ev \<in> {EPOLLIN, EPOLLIN OR EPOLLOUT}"
  using assms by (elim insertE emptyE) simp_all

lemma interest_keeps_ok:
  assumes "interest K epf n ev t k = Inr (r, t', k')" and ok: "interest_ok t"
    and "ev \<in> {EPOLLIN, EPOLLOUT}"
  shows "interest_ok t'"
  unfolding interest_ok_def
proof (intro allI impI)
  fix m
  assume pos: "ev_fd (events t' m) > 0"
  have E: "ev_events (events t m) \<in> {EPOLLIN, EPOLLIN OR EPOLLOUT}" if "ev_fd (events t m) > 0"
    using ok that unfolding interest_ok_def by blast
  show "ev_events (events t' m) \<in> {EPOLLIN, EPOLLIN OR EPOLLOUT}"
  proof (cases "m = n")
    case True
    with interest_events [OF assms(1)] interest_values [OF E assms(3)] E show ?thesis
      by (simp only: True split: if_split) (auto split: if_splits)
  next
    case False
    with interest_Inr [OF assms(1)] pos E show ?thesis by simp
  qed
qed

text \<open>
  On the values a registered descriptor can have, the condition as C parses it is the one the
  comment describes: some bit of the recorded interest or of \<open>ev\<close> is missing in the other.
\<close>

lemma needs_mod_parse:
  assumes "E \<in> {EPOLLIN, EPOLLIN OR EPOLLOUT}" and "ev \<in> {EPOLLIN, EPOLLOUT}"
  shows "needs_mod E ev \<longleftrightarrow> E AND ev \<noteq> E"
  using assms by (auto simp: needs_mod_def)

text \<open>After a call that did not fail, the interest in \<open>ev\<close> is recorded, except on the first call.\<close>

lemma interest_recorded:
  assumes "interest K epf n ev t k = Inr (r, t', k')" and "interest_ok t" and "ev \<in> {EPOLLIN, EPOLLOUT}"
    and "ev = EPOLLIN \<or> ev_fd (events t n) > 0"
  shows "ev_events (events t' n) AND ev \<noteq> 0"
proof -
  have "ev_events (events t n) \<in> {EPOLLIN, EPOLLIN OR EPOLLOUT}" if "ev_fd (events t n) > 0"
    using assms(2) that unfolding interest_ok_def by blast
  with interest_events [OF assms(1)] assms(3,4) show ?thesis
    by (cases "ev_fd (events t n) \<le> 0") (auto simp: needs_mod_def)
qed

lemma add_queue_kernel:
  assumes ok: "state_ok s" and cur: "is_current s ep env c t"
    and i: "interest K epf n ev (blocked_task n ev t) (kst s) = Inr (r, t', k)"
  shows "same_tasks s (s\<lparr>heap := (heap s)(c \<mapsto> t'), kst := k\<rparr>)"
proof -
  have "heap s c = Some t" using cur by (simp add: is_current_def)
  with interest_Inr [OF i] show ?thesis by (auto simp: same_tasks_def blocked_task_def)
qed

text \<open>
  A call that returns 0 appends the current coroutine to the queue of the descriptor and
  changes no other control block. The queues are those of the interface \<open>wait_queues\<close>.
\<close>

lemma add_queue_blocks:
  assumes ok: "state_ok s" and th: "thread_has s tid ep" and cur: "is_current s ep env c t"
    and fd: "fd_index fd = Inr n" and q: "tq_family (queues s) q"
    and out: "\<And>h. h \<in> dom (tq_heads (queues s)) \<Longrightarrow> c \<notin> set (q h)"
    and i: "interest K (epfd env) n ev (blocked_task n ev t) (kst s) = Inr (r, t', k)" and "0 \<le> r"
  obtains s' where "add_queue K tid fd ev s = Inr (0, s')"
    and "tq_family (queues s') (q((ep, fd) := q (ep, fd) @ [c]))" and "heap s' = (heap s)(c \<mapsto> t')"
    and "same_tasks s s'"
proof -
  let ?s = "s\<lparr>heap := (heap s)(c \<mapsto> t'), kst := k\<rparr>"
  note c = is_currentD [OF ok cur]
  have "(ep, fd) \<in> dom (tq_heads (queues s))"
    using state_ok_blocks(2) [OF ok] c(1) fd by (auto simp: fd_index_eq_Inr)
  moreover have "c \<in> dom (tq_elems (queues s))" using state_ok_blocks(1) [OF ok] c(3) by auto
  ultimately obtain m where m: "TAILQ_INSERT_TAIL (ep, fd) (Some c) (queues s) = Inr m"
      "tq_family m (q((ep, fd) := q (ep, fd) @ [c]))"
    using tq.enq_law [OF q _ _ out] by blast
  show thesis
  proof (rule that)
    show "add_queue K tid fd ev s = Inr (0, ?s\<lparr>queues := m\<rparr>)"
      using assms(8) m(1) by (simp add: add_queue_eq [OF th cur fd] i on_queues_def)
    show "tq_family (queues (?s\<lparr>queues := m\<rparr>)) (q((ep, fd) := q (ep, fd) @ [c]))"
      using m(2) by simp
    show "heap (?s\<lparr>queues := m\<rparr>) = (heap s)(c \<mapsto> t')" by simp
    have "same_tasks s ?s" by (rule add_queue_kernel [OF ok cur i])
    then show "same_tasks s (?s\<lparr>queues := m\<rparr>)"
      using TAILQ_INSERT_TAIL_blocks [OF m(1)] by (intro same_tasks_queues) simp_all
  qed
qed

text \<open>When \<open>epoll_ctl\<close> fails the coroutine is in no queue, but its status is \<open>COROUTINE_WAIT\<close>.\<close>

lemma add_queue_refused:
  assumes "thread_has s tid ep" and "is_current s ep env c t" and "fd_index fd = Inr n"
    and "interest K (epfd env) n ev (blocked_task n ev t) (kst s) = Inr (r, t', k)" and "r < 0"
  shows "add_queue K tid fd ev s = Inr (r, s\<lparr>heap := (heap s)(c \<mapsto> t'), kst := k\<rparr>)"
  using assms(4,5) by (simp add: add_queue_eq [OF assms(1-3)])

lemma add_queue_same_tasks:
  assumes ok: "state_ok s" and th: "thread_has s tid ep" and cur: "is_current s ep env c t"
    and "add_queue K tid fd ev s = Inr (ret, s')"
  obtains n r t' k where "fd_index fd = Inr n" and
      "interest K (epfd env) n ev (blocked_task n ev t) (kst s) = Inr (r, t', k)"
    and "ret = (if r < 0 then r else 0)" and "heap s' = (heap s)(c \<mapsto> t')" and "same_tasks s s'"
    and "kst s' = k" and "r < 0 \<Longrightarrow> queues s' = queues s"
    and "0 \<le> r \<Longrightarrow> TAILQ_INSERT_TAIL (ep, fd) (Some c) (queues s) = Inr (queues s')"
proof -
  obtain n where n: "fd_index fd = Inr n"
    using assms(4) by (auto simp: add_queue_def elim!: bnd_InrE)
  obtain r t' k where i: "interest K (epfd env) n ev (blocked_task n ev t) (kst s) = Inr (r, t', k)"
    using assms(4) by (auto simp: add_queue_eq [OF th cur n] elim!: bnd_InrE)
  note sim = add_queue_kernel [OF ok cur i]
  show thesis
  proof (cases "r < 0")
    case True
    with assms(4) have "ret = r" "s' = s\<lparr>heap := (heap s)(c \<mapsto> t'), kst := k\<rparr>"
      by (simp_all add: add_queue_refused [OF th cur n i])
    with True sim show ?thesis by (intro that [OF n i]) simp_all
  next
    case False
    then obtain m where m: "TAILQ_INSERT_TAIL (ep, fd) (Some c) (queues s) = Inr m" "ret = 0"
        "s' = s\<lparr>heap := (heap s)(c \<mapsto> t'), kst := k, queues := m\<rparr>"
      using assms(4) by (auto simp: add_queue_eq [OF th cur n] i on_queues_def Let_def elim!: bnd_InrE)
    then have "same_tasks s s'"
      using same_tasks_queues [OF sim, of m] TAILQ_INSERT_TAIL_blocks [OF m(1)] by simp
    with False m show ?thesis by (intro that [OF n i]) simp_all
  qed
qed

text \<open>A first wait on descriptor 0 records it again at every call, since \<open>data.fd <= 0\<close> holds.\<close>

lemma interest_fd_zero:
  assumes "interest K epf 0 ev t k = Inr (r, t', k')" and "ev_fd (events t 0) = 0"
  shows "fds_idx t' = fds_idx t + 1 \<and> ev_fd (events t' 0) = 0"
  using assms by (auto simp: interest_def split: if_splits prod.splits)

section \<open>Waiting\<close>

lemma await_eq:
  assumes "heap s c = Some t" and "fd_index fd = Inr n"
  shows "await K tid (Some c) fd ev s =
    (if revents t n AND ev = 0
     then bnd (schedule K tid (s\<lparr>heap := (heap s)(c \<mapsto> t\<lparr>status := COROUTINE_WAIT\<rparr>)\<rparr>)) (\<lambda>s. Inr (False, s))
     else Inr (True, s))"
  using assms by (simp add: await_def nonnull_def get_task_def mod_task_def)

text \<open>The kernel is asked only after the event was delivered.\<close>

lemma await_ready:
  assumes "await K tid (Some c) fd ev s = Inr (True, s')"
  obtains t n where "heap s c = Some t" and "fd_index fd = Inr n" and "revents t n AND ev \<noteq> 0" and "s' = s"
  using assms by (auto simp: await_def nonnull_def mod_task_def bnd_eq_Inr split: if_splits)

lemma await_not_ready:
  assumes ok: "state_ok s" and th: "thread_has s tid ep" and cur: "is_current s ep env c t"
    and "await K tid (Some c) fd ev s = Inr (False, s')"
  shows "state_ok s' \<and> heap s' c = Some (t\<lparr>status := COROUTINE_WAIT\<rparr>) \<and>
    (\<exists>env' p tp. is_current s' ep env' p tp \<and> p \<noteq> c \<and> status tp = COROUTINE_RUNNING)"
proof -
  let ?s = "s\<lparr>heap := (heap s)(c \<mapsto> t\<lparr>status := COROUTINE_WAIT\<rparr>)\<rparr>"
  note c = is_currentD [OF ok cur]
  obtain n where n: "fd_index fd = Inr n"
    using assms(4) by (auto simp: await_def elim!: bnd_InrE)
  have sch: "schedule K tid ?s = Inr s'"
    using assms(4) by (auto simp: await_eq [OF c(3) n] bnd_eq_Inr split: if_splits)
  have "same_tasks s ?s" using c(3) by (auto simp: same_tasks_def)
  then have ok1: "state_ok ?s" using ok by (rule state_ok_same_tasks)
  have th1: "thread_has ?s tid ep" using th by (simp add: thread_has_def)
  have cur1: "is_current ?s ep env c (t\<lparr>status := COROUTINE_WAIT\<rparr>)"
    using cur by (simp add: is_current_def)
  obtain p where p: "rescheduled K ep env (tsk_id (t\<lparr>status := COROUTINE_WAIT\<rparr>)) ?s s' p"
    by (rule schedule_rescheduled [OF ok1 th1 cur1 sch])
  have hc: "heap s' c = Some (t\<lparr>status := COROUTINE_WAIT\<rparr>)"
    using rescheduled_frame [OF p] by simp
  from rescheduled_ok [OF ok1 cur1 p] obtain tp where
    "state_ok s'" "is_current s' ep (env\<lparr>current := Some p\<rparr>) p tp" "status tp = COROUTINE_RUNNING" by blast
  moreover from this hc have "p \<noteq> c" by (auto simp: is_current_def)
  ultimately show ?thesis using hc by blast
qed

section \<open>Properties\<close>

text \<open>
  C19: add_queue that returns 0 appends the current coroutine at the tail of the queue of the
  descriptor, sets its status to COROUTINE_WAIT, clears the awaited bits of its received events,
  and changes no other queue and no other control block.
\<close>

theorem add_queue_enqueues:
  assumes "state_ok s" and "thread_has s tid ep" and "is_current s ep env c t"
    and "tq_family (queues s) q" and "\<forall>h \<in> dom (tq_heads (queues s)). c \<notin> set (q h)"
    and "add_queue K tid fd ev s = Inr (0, s')"
  shows "tq_family (queues s') (q((ep, fd) := q (ep, fd) @ [c])) \<and> state_ok s' \<and>
    (\<exists>t'. heap s' = (heap s)(c \<mapsto> t') \<and> status t' = COROUTINE_WAIT \<and>
       revents t' (nat fd) = revents t (nat fd) AND NOT ev)"
proof -
  obtain n r t' k where n: "fd_index fd = Inr n"
    and i: "interest K (epfd env) n ev (blocked_task n ev t) (kst s) = Inr (r, t', k)"
    and "(0 :: int) = (if r < 0 then r else 0)"
    by (rule add_queue_same_tasks [OF assms(1-3,6)])
  then have r: "0 \<le> r" by (simp split: if_splits)
  obtain s1 where s1: "add_queue K tid fd ev s = Inr (0, s1)"
      "tq_family (queues s1) (q((ep, fd) := q (ep, fd) @ [c]))" "heap s1 = (heap s)(c \<mapsto> t')"
      "same_tasks s s1"
    by (rule add_queue_blocks [OF assms(1-3) n assms(4) bspec [OF assms(5)] i r])
  have "s1 = s'" using s1(1) assms(6) by simp
  moreover have "state_ok s1" using s1(4) assms(1) by (rule state_ok_same_tasks)
  moreover have "status t' = COROUTINE_WAIT" "revents t' (nat fd) = revents t (nat fd) AND NOT ev"
    using interest_Inr [OF i] n by (simp_all add: blocked_task_def fd_index_eq_Inr)
  ultimately show ?thesis using s1(2,3) by blast
qed

lemma ex0_add: "\<exists>s'. add_queue ex_os 1 5 EPOLLIN ex0 = Inr (0, s')"
proof -
  have n: "fd_index 5 = Inr 5" by (simp add: fd_index_def MAX_FD_def)
  have "\<exists>t' k. interest ex_os (epfd ex0_env) 5 EPOLLIN (blocked_task 5 EPOLLIN ex0_main) (kst ex0) =
      Inr (0, t', k)"
    by (simp add: interest_def blocked_task_def ex0_main_fields MAX_FD_def ex_os_def)
  then obtain t' k where i: "interest ex_os (epfd ex0_env) 5 EPOLLIN
      (blocked_task 5 EPOLLIN ex0_main) (kst ex0) = Inr (0, t', k)" by (elim exE)
  obtain s' where "add_queue ex_os 1 5 EPOLLIN ex0 = Inr (0, s')"
    by (rule add_queue_blocks [OF ex0_ok ex0_thread ex0_current n ex0_queues _ i]) simp_all
  then show ?thesis by blast
qed

theorem add_queue_enqueues_witness:
  "\<exists>s'. add_queue ex_os 1 5 EPOLLIN ex0 = Inr (0, s') \<and>
    tq_family (queues s') ((\<lambda>_. [])((0, 5) := [] @ [1]))"
proof -
  obtain s' where s': "add_queue ex_os 1 5 EPOLLIN ex0 = Inr (0, s')" using ex0_add by blast
  have "\<forall>h \<in> dom (tq_heads (queues ex0)). (1 :: nat) \<notin> set ((\<lambda>_. []) h)" by simp
  from add_queue_enqueues [OF ex0_ok ex0_thread ex0_current ex0_queues this s'] s' show ?thesis by blast
qed

text \<open>
  C27: When epoll_ctl refuses the request of add_queue (EPOLL_CTL_ADD for a descriptor that the
  coroutine has not registered while its array fds has room, EPOLL_CTL_MOD for a registered one
  that lacks the awaited event), add_queue returns the error of epoll_ctl with all wait queues
  unchanged, but the status of the current coroutine stays COROUTINE_WAIT.
\<close>

theorem add_queue_refused_waits:
  assumes "thread_has s tid ep" and "is_current s ep env c t" and "0 \<le> fd" and "fd < int MAX_FD"
    and "ev_fd (events t (nat fd)) \<le> 0 \<and> fds_idx t < MAX_FD \<and>
        os_epoll_ctl K (epfd env) EPOLL_CTL_ADD fd (Some \<lparr>ev_events = ev, ev_fd = fd\<rparr>) (kst s) = (r, k) \<or>
      0 < ev_fd (events t (nat fd)) \<and> needs_mod (ev_events (events t (nat fd))) ev \<and>
        os_epoll_ctl K (epfd env) EPOLL_CTL_MOD fd
          (Some \<lparr>ev_events = ev OR ev_events (events t (nat fd)), ev_fd = fd\<rparr>) (kst s) = (r, k)"
    and "r < 0"
  shows "\<exists>s' t'. add_queue K tid fd ev s = Inr (r, s') \<and> queues s' = queues s \<and>
    heap s' = (heap s)(c \<mapsto> t') \<and> status t' = COROUTINE_WAIT"
proof -
  let ?t = "blocked_task (nat fd) ev t"
  have n: "fd_index fd = Inr (nat fd)" and fd: "int (nat fd) = fd" using assms(3,4) by (simp_all add: fd_index_def)
  have "events ?t = events t" "fds_idx ?t = fds_idx t" by (simp_all add: blocked_task_def)
  then have "\<exists>t'. interest K (epfd env) (nat fd) ev ?t (kst s) = Inr (r, t', k)"
    using assms(5) fd by (elim disjE conjE) (simp_all add: interest_def)
  then obtain t' where i: "interest K (epfd env) (nat fd) ev ?t (kst s) = Inr (r, t', k)" by (elim exE)
  have "status t' = COROUTINE_WAIT" using interest_Inr [OF i] by (simp add: blocked_task_def)
  with add_queue_refused [OF assms(1,2) n i assms(6)] show ?thesis
    by (intro exI [of _ "s\<lparr>heap := (heap s)(c \<mapsto> t'), kst := k\<rparr>"] exI [of _ t']) simp
qed

text \<open>A kernel that refuses every registration.\<close>

definition ex_os_full :: "nat os" where
  "ex_os_full = ex_os\<lparr>os_epoll_ctl := (\<lambda>_ _ _ _ k. (-1, k))\<rparr>"

theorem add_queue_refused_waits_witness:
  "\<exists>s' t'. add_queue ex_os_full 1 5 EPOLLIN ex0 = Inr (-1, s') \<and> queues s' = queues ex0 \<and>
    heap s' = (heap ex0)(1 \<mapsto> t') \<and> status t' = COROUTINE_WAIT"
  by (rule add_queue_refused_waits [OF ex0_thread ex0_current])
    (simp_all add: ex_os_full_def ex0_main_fields MAX_FD_def)

text \<open>
  For the interests a registered descriptor can have, the condition events & awaited !=
  events as C parses it agrees with the parenthesised condition that the comment describes.
\<close>

lemma needs_mod_as_meant:
  assumes "interest_ok t" and "ev_fd (events t n) > 0" and "ev \<in> {EPOLLIN, EPOLLOUT}"
  shows "needs_mod (ev_events (events t n)) ev \<longleftrightarrow>
    ev_events (events t n) AND ev \<noteq> ev_events (events t n)"
  using assms unfolding interest_ok_def by (intro needs_mod_parse) blast+

text \<open>
  C28: add_queue keeps the invariant that every registered descriptor records EPOLLIN or EPOLLIN
  and EPOLLOUT, and records the awaited event except when EPOLLOUT is awaited on a descriptor
  for the first time.
\<close>

theorem interest_recorded_by_wait:
  assumes "state_ok s" and "thread_has s tid ep" and "is_current s ep env c t" and "interest_ok t"
    and "ev \<in> {EPOLLIN, EPOLLOUT}" and "add_queue K tid fd ev s = Inr (r, s')"
  shows "\<exists>t'. heap s' c = Some t' \<and> interest_ok t' \<and>
    (ev = EPOLLIN \<or> ev_fd (events t (nat fd)) > 0 \<longrightarrow> ev_events (events t' (nat fd)) AND ev \<noteq> 0)"
proof -
  obtain n r' t' k where n: "fd_index fd = Inr n"
    and i: "interest K (epfd env) n ev (blocked_task n ev t) (kst s) = Inr (r', t', k)"
    and h: "heap s' = (heap s)(c \<mapsto> t')"
    by (rule add_queue_same_tasks [OF assms(1-3,6)])
  have b: "interest_ok (blocked_task n ev t)" "events (blocked_task n ev t) = events t" "n = nat fd"
    using assms(4) n by (simp_all add: blocked_task_def interest_ok_def fd_index_eq_Inr)
  have "interest_ok t'" by (rule interest_keeps_ok [OF i b(1) assms(5)])
  moreover have "ev_events (events t' n) AND ev \<noteq> 0" if "ev = EPOLLIN \<or> ev_fd (events t n) > 0"
    using interest_recorded [OF i b(1) assms(5)] that b(2) by simp
  ultimately show ?thesis unfolding b(3) by (intro exI [of _ t'] conjI impI) (simp_all add: h)
qed

theorem interest_recorded_by_wait_witness:
  "\<exists>s' t'. add_queue ex_os 1 5 EPOLLIN ex0 = Inr (0, s') \<and> heap s' 1 = Some t' \<and>
    ev_events (events t' 5) AND EPOLLIN \<noteq> 0"
proof -
  obtain s' where s': "add_queue ex_os 1 5 EPOLLIN ex0 = Inr (0, s')" using ex0_add by blast
  have "interest_ok ex0_main" by (simp add: interest_ok_def ex0_main_fields)
  from interest_recorded_by_wait [OF ex0_ok ex0_thread ex0_current this _ s'] s' show ?thesis by auto
qed

text \<open>
  co_read calls read, and returns its result, only when EPOLLIN was delivered to the
  coroutine for that descriptor.
\<close>

lemma io_only_after_event:
  assumes "co_read_turn K tid (Some c) fd len s = Inr (Some r, s')"
  shows "\<exists>t. heap s c = Some t \<and> revents t (nat fd) AND EPOLLIN \<noteq> 0 \<and> 0 \<le> fd \<and> fd < int MAX_FD \<and>
    os_read K fd len (kst s) = (r, kst s') \<and> s' = s\<lparr>kst := kst s'\<rparr>"
proof -
  obtain s1 where s1: "await K tid (Some c) fd EPOLLIN s = Inr (True, s1)"
      "syscall (os_read K fd len) s1 = (r, s')"
    using assms by (auto simp: co_read_turn_def elim!: bnd_InrE split: if_splits prod.splits)
  obtain t n where t: "heap s c = Some t" "fd_index fd = Inr n" "revents t n AND EPOLLIN \<noteq> 0" "s1 = s"
    by (rule await_ready [OF s1(1)])
  with s1(2) show ?thesis by (auto simp: syscall_def fd_index_eq_Inr split: prod.splits)
qed

text \<open>
  A turn of the waiting loop of co_write that does not return leaves the caller in
  COROUTINE_WAIT and another, runnable coroutine current.
\<close>

lemma waiting_yields:
  assumes "state_ok s" and "thread_has s tid ep" and "is_current s ep env c t"
    and "co_write_turn K tid (Some c) epf fd len s = Inr (None, s')"
  shows "state_ok s' \<and> heap s' c = Some (t\<lparr>status := COROUTINE_WAIT\<rparr>) \<and>
    (\<exists>env' p tp. is_current s' ep env' p tp \<and> p \<noteq> c \<and> status tp = COROUTINE_RUNNING)"
proof -
  have "await K tid (Some c) fd EPOLLOUT s = Inr (False, s')"
    using assms(4)
    by (auto simp: co_write_turn_def elim!: bnd_InrE split: if_splits prod.splits)
  then show ?thesis by (rule await_not_ready [OF assms(1-3)])
qed

text \<open>
  Every wait on descriptor 0 registers it again and consumes an entry of fds, because
  data.fd <= 0 still holds afterwards.
\<close>

lemma fd_zero_registered_again:
  assumes "state_ok s" and "thread_has s tid ep" and "is_current s ep env c t"
    and "ev_fd (events t 0) = 0" and "add_queue K tid 0 ev s = Inr (r, s')"
  shows "\<exists>t'. heap s' c = Some t' \<and> fds_idx t' = fds_idx t + 1 \<and> ev_fd (events t' 0) = 0"
proof -
  obtain n r' t' k where n: "fd_index 0 = Inr n"
    and i: "interest K (epfd env) n ev (blocked_task n ev t) (kst s) = Inr (r', t', k)"
    and h: "heap s' = (heap s)(c \<mapsto> t')"
    by (rule add_queue_same_tasks [OF assms(1-3,5)])
  have "n = 0" using n by (simp add: fd_index_eq_Inr)
  with interest_fd_zero [of K "epfd env" ev "blocked_task n ev t" "kst s" r' t' k] i assms(4) h
  show ?thesis by (simp add: blocked_task_def)
qed

end
