(* ===== verification/Coeventloop.thy ===== *)
theory Coeventloop
  imports Cosyscall
begin

text \<open>
  The event loop (\<open>src/coeventloop.c\<close>): wait for events, move the first waiting coroutine of every
  ready descriptor out of its queue and make it runnable, and schedule.
\<close>

section \<open>The operations\<close>

text \<open>The body of the \<open>for\<close> loop, for one event.\<close>

definition handle_event :: "envp \<Rightarrow> epoll_event \<Rightarrow> 'k co_state \<Rightarrow> fault + 'k co_state" where
  "handle_event ep ev s =
     bnd (TAILQ_FIRST (ep, ev_fd ev) (queues s)) (\<lambda>tsk.
     bnd (on_queues (TAILQ_REMOVE (ep, ev_fd ev) tsk) s) (\<lambda>s.
     bnd (nonnull tsk) (\<lambda>p.
     bnd (get_task p s) (\<lambda>t.
     bnd (fd_index (ev_fd ev)) (\<lambda>n.
     if ev_events (events t n) AND ev_events ev \<noteq> 0
     then mod_task p (\<lambda>t. t\<lparr>status := COROUTINE_RUNNING,
            revents := (revents t)(n := ev_events ev)\<rparr>) s
     else Inr s)))))"

text \<open>One turn of \<open>while(1)\<close>.\<close>

definition co_eventloop_turn ::
  "'k os \<Rightarrow> int \<Rightarrow> envp \<Rightarrow> int \<Rightarrow> 'k co_state \<Rightarrow> fault + 'k co_state" where
  "co_eventloop_turn K tid ep epf s =
     (case syscall (os_epoll_wait K epf) s of
        (None, s) \<Rightarrow> Inl (Exit 1)
      | (Some [], s) \<Rightarrow> schedule K tid s
      | (Some evs, s) \<Rightarrow>
          if 1024 < length evs then Inl OutOfBounds else
          bnd (foldE (handle_event ep) evs s) (\<lambda>s.
          schedule K tid s))"

text \<open>Up to the loop: the locals \<open>thread_env\<close> and \<open>epfd\<close>.\<close>

definition co_eventloop_enter ::
  "'k os \<Rightarrow> int \<Rightarrow> 'k co_state \<Rightarrow> fault + (envp \<times> int \<times> 'k co_state)" where
  "co_eventloop_enter K tid s =
     bnd (co_get_thread_env K tid s) (\<lambda>(ep, s).
     bnd (get_env ep s) (\<lambda>env.
     Inr (ep, epfd env, s)))"

section \<open>What a batch of events promises\<close>

text \<open>
  The specification: the queues as lists. An event takes the first coroutine out of the queue of
  its descriptor, and wakes it when it registered an interest in one of the reported bits.
\<close>

definition wake_by :: "epoll_event \<Rightarrow> task_struct_t \<Rightarrow> task_struct_t" where
  "wake_by ev t =
     (if ev_events (events t (nat (ev_fd ev))) AND ev_events ev \<noteq> 0
      then t\<lparr>status := COROUTINE_RUNNING,
             revents := (revents t)(nat (ev_fd ev) := ev_events ev)\<rparr>
      else t)"

fun deliver ::
  "envp \<Rightarrow> epoll_event list \<Rightarrow> (envp \<times> int \<Rightarrow> taskp list) \<times> (taskp \<Rightarrow> task_struct_t option) \<Rightarrow>
   ((envp \<times> int \<Rightarrow> taskp list) \<times> (taskp \<Rightarrow> task_struct_t option)) option" where
  "deliver ep [] w = Some w"
| "deliver ep (ev # evs) (q, H) =
     (case q (ep, ev_fd ev) of
        [] \<Rightarrow> None
      | p # ps \<Rightarrow>
          deliver ep evs (q((ep, ev_fd ev) := ps), H(p := map_option (wake_by ev) (H p))))"

section \<open>The event loop implements it\<close>

lemma wake_by_same [simp]:
  "tsk_id (wake_by ev t) = tsk_id t" "thread_env (wake_by ev t) = thread_env t"
  "fds_idx (wake_by ev t) = fds_idx t" "events (wake_by ev t) = events t"
  by (simp_all add: wake_by_def)

lemma handle_event_step:
  assumes h: "(ep, ev_fd ev) \<in> dom (tq_heads (queues s))" and fd: "0 \<le> ev_fd ev" "ev_fd ev < int MAX_FD"
    and q: "tq_family (queues s) q" "q (ep, ev_fd ev) = p # ps" and t: "heap s p = Some t"
  shows "\<exists>m. handle_event ep ev s = Inr (s\<lparr>queues := m, heap := (heap s)(p \<mapsto> wake_by ev t)\<rparr>) \<and>
    TAILQ_REMOVE (ep, ev_fd ev) (Some p) (queues s) = Inr m \<and>
    tq_family m (q((ep, ev_fd ev) := ps))"
proof -
  obtain m where m: "TAILQ_FIRST (ep, ev_fd ev) (queues s) = Inr (Some p)"
      "TAILQ_REMOVE (ep, ev_fd ev) (Some p) (queues s) = Inr m" "tq_family m (q((ep, ev_fd ev) := ps))"
    using tq.dequeue [OF q(1) h q(2)] by blast
  moreover have "fd_index (ev_fd ev) = Inr (nat (ev_fd ev))" using fd by (simp add: fd_index_def)
  ultimately show ?thesis using t
    by (simp add: handle_event_def on_queues_def nonnull_def get_task_def mod_task_def wake_by_def
        map_upd_triv)
qed

lemma handle_event_empty:
  assumes "(ep, ev_fd ev) \<in> dom (tq_heads (queues s))"
    and "tq_family (queues s) q" "q (ep, ev_fd ev) = []"
  shows "handle_event ep ev s = Inl NullDeref"
  using assms tq.first_law [OF assms(2,1)]
  by (simp add: handle_event_def on_queues_def TAILQ_REMOVE_def fault_simps)

text \<open>The heap has a live block behind every queued element.\<close>

definition queued_live :: "'k co_state \<Rightarrow> (envp \<times> int \<Rightarrow> taskp list) \<Rightarrow> bool" where
  "queued_live s q \<longleftrightarrow>
     (\<forall>h p. h \<in> dom (tq_heads (queues s)) \<longrightarrow> p \<in> set (q h) \<longrightarrow> p \<in> dom (heap s))"

lemma tq_family_live:
  assumes "state_ok s" and "tq_family (queues s) q"
  shows "queued_live s q"
  unfolding queued_live_def
proof (intro allI impI)
  fix h p
  assume h: "h \<in> dom (tq_heads (queues s))" and p: "p \<in> set (q h)"
  have "tq_rep (queues s) h (q h)" by (rule tq_family_rep [OF assms(2) h])
  then have "p \<in> dom (tq_elems (queues s))"
    using p tq_chain_allocated [of "tq_elems (queues s)" "HeadFirst h" "q h" None p]
    by (simp add: tq_rep_def)
  then show "p \<in> dom (heap s)" using state_ok_blocks(1) [OF assms(1)] by simp
qed

text \<open>One event with a waiter: the first one leaves the queue and wakes.\<close>

lemma handle_event_first:
  assumes ok: "state_ok s" "envs s ep = Some env" and q: "tq_family (queues s) q"
    and fd: "0 \<le> ev_fd ev" "ev_fd ev < int MAX_FD" and p: "q (ep, ev_fd ev) = p # ps"
  shows "\<exists>t m. heap s p = Some t \<and>
    handle_event ep ev s = Inr (s\<lparr>queues := m, heap := (heap s)(p \<mapsto> wake_by ev t)\<rparr>) \<and>
    tq_family m (q((ep, ev_fd ev) := ps)) \<and>
    same_tasks s (s\<lparr>queues := m, heap := (heap s)(p \<mapsto> wake_by ev t)\<rparr>)"
proof -
  have h: "(ep, ev_fd ev) \<in> dom (tq_heads (queues s))"
    using state_ok_blocks(2) [OF ok(1)] ok(2) fd by auto
  have "p \<in> dom (heap s)" using tq_family_live [OF ok(1) q] h p unfolding queued_live_def by auto
  then obtain t where t: "heap s p = Some t" by auto
  obtain m where m: "handle_event ep ev s = Inr (s\<lparr>queues := m, heap := (heap s)(p \<mapsto> wake_by ev t)\<rparr>)"
      "TAILQ_REMOVE (ep, ev_fd ev) (Some p) (queues s) = Inr m" "tq_family m (q((ep, ev_fd ev) := ps))"
    using handle_event_step [OF h fd q p t] by blast
  have "same_tasks s (s\<lparr>heap := (heap s)(p \<mapsto> wake_by ev t)\<rparr>)"
    using t by (intro same_tasks_upd) simp_all
  from same_tasks_queues [OF this, of m] TAILQ_REMOVE_blocks [OF m(2)]
  have "same_tasks s (s\<lparr>heap := (heap s)(p \<mapsto> wake_by ev t), queues := m\<rparr>)" by simp
  moreover have "s\<lparr>heap := (heap s)(p \<mapsto> wake_by ev t), queues := m\<rparr> =
      s\<lparr>queues := m, heap := (heap s)(p \<mapsto> wake_by ev t)\<rparr>" by simp
  ultimately show ?thesis using t m(1,3) by (simp only:) blast
qed

lemma handle_events_deliver:
  assumes "state_ok s" and "envs s ep = Some env" and "tq_family (queues s) q"
    and "\<And>ev. ev \<in> set evs \<Longrightarrow> 0 \<le> ev_fd ev \<and> ev_fd ev < int MAX_FD"
  shows "case deliver ep evs (q, heap s) of
      None \<Rightarrow> foldE (handle_event ep) evs s = Inl NullDeref
    | Some (q', H') \<Rightarrow> \<exists>m. foldE (handle_event ep) evs s = Inr (s\<lparr>queues := m, heap := H'\<rparr>) \<and>
        tq_family m q' \<and> same_tasks s (s\<lparr>queues := m, heap := H'\<rparr>)"
  using assms
proof (induction evs arbitrary: s q)
  case Nil
  have "s\<lparr>queues := queues s, heap := heap s\<rparr> = s" by simp
  with Nil show ?case by (auto intro!: exI [of _ "queues s"] simp: same_tasks_refl)
next
  case (Cons ev evs)
  note ok = Cons.prems(1,2) and q = Cons.prems(3)
  have fd: "0 \<le> ev_fd ev" "ev_fd ev < int MAX_FD" using Cons.prems(4) by simp_all
  have h: "(ep, ev_fd ev) \<in> dom (tq_heads (queues s))"
    using state_ok_blocks(2) [OF ok(1)] ok(2) fd by auto
  show ?case
  proof (cases "q (ep, ev_fd ev)")
    case Nil
    with handle_event_empty [OF h q Nil] show ?thesis by simp
  next
    case (Cons p ps)
    obtain t m where t: "heap s p = Some t"
      and m: "handle_event ep ev s = Inr (s\<lparr>queues := m, heap := (heap s)(p \<mapsto> wake_by ev t)\<rparr>)"
        "tq_family m (q((ep, ev_fd ev) := ps))"
      and sim: "same_tasks s (s\<lparr>queues := m, heap := (heap s)(p \<mapsto> wake_by ev t)\<rparr>)"
      using handle_event_first [OF ok q fd Cons] by blast
    let ?s = "s\<lparr>queues := m, heap := (heap s)(p \<mapsto> wake_by ev t)\<rparr>"
    have ok': "state_ok ?s" using sim ok(1) by (rule state_ok_same_tasks)
    have IH: "case deliver ep evs (q((ep, ev_fd ev) := ps), heap ?s) of
        None \<Rightarrow> foldE (handle_event ep) evs ?s = Inl NullDeref
      | Some (q', H') \<Rightarrow> \<exists>m. foldE (handle_event ep) evs ?s = Inr (?s\<lparr>queues := m, heap := H'\<rparr>) \<and>
          tq_family m q' \<and> same_tasks ?s (?s\<lparr>queues := m, heap := H'\<rparr>)"
      using ok(2) m(2) Cons.prems(4) by (intro Cons.IH [OF ok']) (simp_all del: fun_upd_apply)
    have step: "deliver ep (ev # evs) (q, heap s) = deliver ep evs (q((ep, ev_fd ev) := ps), heap ?s)"
      using Cons t by simp
    have upd: "?s\<lparr>queues := m', heap := H'\<rparr> = s\<lparr>queues := m', heap := H'\<rparr>" for m' H' by simp
    show ?thesis
    proof (cases "deliver ep evs (q((ep, ev_fd ev) := ps), heap ?s)")
      case None
      with IH m(1) show ?thesis by (simp add: step del: deliver.simps)
    next
      case (Some w)
      obtain q' H' where w: "w = (q', H')" by (cases w)
      with IH Some obtain m' where m': "foldE (handle_event ep) evs ?s = Inr (s\<lparr>queues := m', heap := H'\<rparr>)"
        "tq_family m' q'" "same_tasks ?s (s\<lparr>queues := m', heap := H'\<rparr>)"
        unfolding upd by auto
      have "same_tasks s (s\<lparr>queues := m', heap := H'\<rparr>)" by (rule same_tasks_trans [OF sim m'(3)])
      with m' m(1) Some w show ?thesis by (auto simp: step simp del: deliver.simps)
    qed
  qed
qed

section \<open>A turn of the loop\<close>

lemma handle_event_same_tasks:
  assumes "handle_event ep ev s = Inr s'"
  shows "same_tasks s s'"
proof -
  obtain p t m where t: "TAILQ_REMOVE (ep, ev_fd ev) (Some p) (queues s) = Inr m" "heap s p = Some t"
      "s' = s\<lparr>queues := m, heap := (heap s)(p \<mapsto> wake_by ev t)\<rparr>"
    using assms
    by (auto simp: handle_event_def on_queues_eq_Inr mod_task_eq_Inr wake_by_def fd_index_eq_Inr
        map_upd_triv elim!: bnd_InrE split: if_splits)
  have "same_tasks s (s\<lparr>queues := m\<rparr>)"
    using TAILQ_REMOVE_blocks [OF t(1)] by (intro same_tasks_queues same_tasks_refl)
  moreover have "same_tasks (s\<lparr>queues := m\<rparr>) s'"
    using same_tasks_upd [of "s\<lparr>queues := m\<rparr>" p t "wake_by ev t"] t by simp
  ultimately show ?thesis by (rule same_tasks_trans)
qed

lemma handle_events_same_tasks:
  assumes "foldE (handle_event ep) evs s = Inr s'"
  shows "same_tasks s s'"
  using assms same_tasks_refl
  by (rule foldE_invariant) (auto intro: same_tasks_trans handle_event_same_tasks)

lemma same_tasks_current:
  assumes "same_tasks s s'" and "is_current s ep env c t"
  obtains t' where "is_current s' ep env c t'"
proof -
  have "heap s c = Some t" using assms(2) by (simp add: is_current_def)
  then obtain t' where "heap s' c = Some t'" by (rule same_tasks_forth [OF assms(1)])
  with assms have "is_current s' ep env c t'" by (simp add: is_current_def same_tasks_def)
  then show thesis by (rule that)
qed

lemma same_tasks_thread: "same_tasks s s' \<Longrightarrow> thread_has s' tid ep = thread_has s tid ep"
  by (simp add: thread_has_def same_tasks_def)

lemma kst_same_tasks: "same_tasks s (s\<lparr>kst := k\<rparr>)"
  by (auto simp: same_tasks_def)

lemma co_eventloop_turn_schedule:
  assumes "co_eventloop_turn K tid ep epf s = Inr s'"
  obtains s1 where "same_tasks s s1" and "schedule K tid s1 = Inr s'"
proof -
  obtain r k where r: "os_epoll_wait K epf (kst s) = (r, k)" by fastforce
  have k: "same_tasks s (s\<lparr>kst := k\<rparr>)" by (rule kst_same_tasks)
  consider "r = Some []" | evs where "r = Some evs" "evs \<noteq> []"
    using assms r by (cases r) (auto simp: co_eventloop_turn_def syscall_def)
  then show thesis
  proof cases
    case 1
    with assms r k show ?thesis by (intro that) (auto simp: co_eventloop_turn_def syscall_def)
  next
    case 2
    then obtain s1 where s1: "foldE (handle_event ep) evs (s\<lparr>kst := k\<rparr>) = Inr s1"
        "schedule K tid s1 = Inr s'"
      using assms r
      by (auto simp: co_eventloop_turn_def syscall_def bnd_eq_Inr simp del: foldE.simps
          split: list.splits if_splits)
    from same_tasks_trans [OF k handle_events_same_tasks [OF s1(1)]] s1(2) show ?thesis by (rule that)
  qed
qed

lemma co_eventloop_turn_ok:
  assumes ok: "state_ok s" and th: "thread_has s tid ep" and cur: "is_current s ep env c t"
    and "co_eventloop_turn K tid ep epf s = Inr s'"
  shows "state_ok s' \<and> (\<exists>env' p t. is_current s' ep env' p t \<and> status t = COROUTINE_RUNNING)"
proof -
  obtain s1 where s1: "same_tasks s s1" "schedule K tid s1 = Inr s'"
    by (rule co_eventloop_turn_schedule [OF assms(4)])
  obtain t1 where cur1: "is_current s1 ep env c t1" by (rule same_tasks_current [OF s1(1) cur])
  have ok1: "state_ok s1" using s1(1) ok by (rule state_ok_same_tasks)
  have th1: "thread_has s1 tid ep" using th same_tasks_thread [OF s1(1)] by simp
  obtain p where "rescheduled K ep env (tsk_id t1) s1 s' p"
    by (rule schedule_rescheduled [OF ok1 th1 cur1 s1(2)])
  from rescheduled_ok [OF ok1 cur1 this] show ?thesis by blast
qed

lemma co_eventloop_turn_deliver:
  assumes ok: "state_ok s" "envs s ep = Some env" and q: "tq_family (queues s) q"
    and wait: "os_epoll_wait K epf (kst s) = (Some evs, k)"
    and evs: "evs \<noteq> []" "length evs \<le> 1024"
      "\<forall>ev \<in> set evs. 0 \<le> ev_fd ev \<and> ev_fd ev < int MAX_FD"
  shows "case deliver ep evs (q, heap s) of
      None \<Rightarrow> co_eventloop_turn K tid ep epf s = Inl NullDeref
    | Some (q', H') \<Rightarrow> \<exists>m. tq_family m q' \<and>
        co_eventloop_turn K tid ep epf s = schedule K tid (s\<lparr>kst := k, queues := m, heap := H'\<rparr>)"
proof -
  let ?s = "s\<lparr>kst := k\<rparr>"
  have "state_ok ?s" "envs ?s ep = Some env" "tq_family (queues ?s) q" using ok q by simp_all
  from handle_events_deliver [OF this, of evs] evs(3)
  have d: "case deliver ep evs (q, heap s) of
      None \<Rightarrow> foldE (handle_event ep) evs ?s = Inl NullDeref
    | Some (q', H') \<Rightarrow> \<exists>m. foldE (handle_event ep) evs ?s = Inr (?s\<lparr>queues := m, heap := H'\<rparr>) \<and>
        tq_family m q'"
    by (auto split: option.splits)
  have "co_eventloop_turn K tid ep epf s =
      bnd (foldE (handle_event ep) evs ?s) (\<lambda>s. schedule K tid s)"
    using wait evs(1,2) by (cases evs) (simp_all add: co_eventloop_turn_def syscall_def)
  with d show ?thesis by (auto split: option.splits)
qed

section \<open>Blocking and waking\<close>

text \<open>
  A coroutine that waits for \<open>ev\<close> on a descriptor nobody else waits for, and an event that
  reports it: the coroutine is runnable again, it has seen the event, and the queues are as
  before.
\<close>

lemma event_bit: "ev \<in> {EPOLLIN, EPOLLOUT} \<Longrightarrow> \<exists>i. \<forall>a :: 32 word. a AND ev \<noteq> 0 \<longleftrightarrow> bit a i"
proof (elim insertE emptyE)
  assume "ev = EPOLLIN"
  then show ?thesis by (intro exI [of _ 0]) (simp add: bit_iff_and_push_bit_not_eq_0)
next
  assume "ev = EPOLLOUT"
  then show ?thesis by (intro exI [of _ 2]) (simp add: bit_iff_and_push_bit_not_eq_0 push_bit_eq_mult)
qed

lemma common_event:
  assumes "ev \<in> {EPOLLIN, EPOLLOUT}" and "(a :: 32 word) AND ev \<noteq> 0" and "b AND ev \<noteq> 0"
  shows "a AND b \<noteq> 0"
proof -
  obtain i where i: "\<And>a :: 32 word. a AND ev \<noteq> 0 \<longleftrightarrow> bit a i" using event_bit [OF assms(1)] by blast
  have "bit (a AND b) i" using i assms(2,3) by (simp add: bit_and_iff)
  then show ?thesis by auto
qed

lemma add_then_event:
  fixes fd :: int and bits :: "32 word"
  defines "e \<equiv> \<lparr>ev_events = bits, ev_fd = fd\<rparr>"
  assumes ok: "state_ok s" and th: "thread_has s tid ep" and cur: "is_current s ep env c t"
    and q: "tq_family (queues s) q"
    and out: "\<forall>h \<in> dom (tq_heads (queues s)). c \<notin> set (q h)" and alone: "q (ep, fd) = []"
    and add: "add_queue K tid fd ev s = Inr (0, s1)"
  obtains r t' k m where "fd_index fd = Inr (nat fd)"
    and "interest K (epfd env) (nat fd) ev (blocked_task (nat fd) ev t) (kst s) = Inr (r, t', k)"
    and "handle_event ep e s1 = Inr (s1\<lparr>queues := m, heap := (heap s1)(c \<mapsto> wake_by e t')\<rparr>)"
    and "tq_family m q" and "(ep, fd) \<in> dom (tq_heads m)"
proof -
  obtain n r t' k where n: "fd_index fd = Inr n"
    and i: "interest K (epfd env) n ev (blocked_task n ev t) (kst s) = Inr (r, t', k)"
    and "(0 :: int) = (if r < 0 then r else 0)"
    by (rule add_queue_same_tasks [OF ok th cur add])
  then have r: "0 \<le> r" by (simp split: if_splits)
  have fd: "0 \<le> fd" "fd < int MAX_FD" "n = nat fd" using n by (simp_all add: fd_index_eq_Inr)
  obtain s1' where s1': "add_queue K tid fd ev s = Inr (0, s1')"
      "tq_family (queues s1') (q((ep, fd) := q (ep, fd) @ [c]))" "heap s1' = (heap s)(c \<mapsto> t')"
      "same_tasks s s1'"
    by (rule add_queue_blocks [OF ok th cur n q bspec [OF out] i r])
  have s1: "s1' = s1" using add s1'(1) by simp
  have "(ep, fd) \<in> dom (tq_heads (queues s))"
    using state_ok_blocks(2) [OF ok] cur fd by (auto simp: is_current_def)
  then have h: "(ep, ev_fd e) \<in> dom (tq_heads (queues s1))"
    using s1'(4) by (simp add: s1 e_def same_tasks_def same_blocks_def)
  have q1: "tq_family (queues s1) (q((ep, fd) := [c]))" using s1'(2) alone by (simp add: s1)
  have t1: "heap s1 c = Some t'" using s1'(3) by (simp add: s1)
  obtain m where m: "handle_event ep e s1 = Inr (s1\<lparr>queues := m, heap := (heap s1)(c \<mapsto> wake_by e t')\<rparr>)"
      "TAILQ_REMOVE (ep, fd) (Some c) (queues s1) = Inr m"
      "tq_family m ((q((ep, fd) := [c]))((ep, fd) := []))"
    using handle_event_step [OF h _ _ q1 _ t1, of "[]"] fd(1,2) by (auto simp: e_def)
  have "(q((ep, fd) := [c]))((ep, fd) := []) = q" using alone by auto
  moreover have "(ep, fd) \<in> dom (tq_heads m)"
    using h TAILQ_REMOVE_blocks [OF m(2)] by (simp add: e_def same_blocks_def)
  ultimately show thesis
    by (intro that [OF n [unfolded fd(3)] i [unfolded fd(3)] m(1)]) (use m(3) in simp_all)
qed

lemma block_then_event:
  assumes ok: "state_ok s" and th: "thread_has s tid ep" and cur: "is_current s ep env c t"
    and q: "tq_family (queues s) q"
    and out: "\<forall>h \<in> dom (tq_heads (queues s)). c \<notin> set (q h)" and alone: "q (ep, fd) = []"
    and int: "interest_ok t" "ev \<in> {EPOLLIN, EPOLLOUT}" "ev = EPOLLIN \<or> ev_fd (events t (nat fd)) > 0"
    and add: "add_queue K tid fd ev s = Inr (0, s1)" and bits: "bits AND ev \<noteq> 0"
  shows "\<exists>s2 t2. handle_event ep \<lparr>ev_events = bits, ev_fd = fd\<rparr> s1 = Inr s2 \<and>
    tq_family (queues s2) q \<and> heap s2 c = Some t2 \<and> status t2 = COROUTINE_RUNNING \<and>
    await K tid (Some c) fd ev s2 = Inr (True, s2)"
proof -
  let ?ev = "\<lparr>ev_events = bits, ev_fd = fd\<rparr>" and ?n = "nat fd"
  obtain r t' k m where n: "fd_index fd = Inr ?n"
    and i: "interest K (epfd env) ?n ev (blocked_task ?n ev t) (kst s) = Inr (r, t', k)"
    and m: "handle_event ep ?ev s1 = Inr (s1\<lparr>queues := m, heap := (heap s1)(c \<mapsto> wake_by ?ev t')\<rparr>)"
      "tq_family m q"
    by (rule add_then_event [OF ok th cur q out alone add])
  have "interest_ok (blocked_task ?n ev t)"
    using int(1) by (simp add: blocked_task_def interest_ok_def)
  moreover have "ev = EPOLLIN \<or> ev_fd (events (blocked_task ?n ev t) ?n) > 0"
    using int(3) by (simp add: blocked_task_def)
  ultimately have "ev_events (events t' ?n) AND ev \<noteq> 0"
    using int(2) by (intro interest_recorded [OF i])
  then have mask: "ev_events (events t' ?n) AND bits \<noteq> 0"
    using common_event [OF int(2) _ bits] by blast
  let ?t = "wake_by ?ev t'"
  let ?s = "s1\<lparr>queues := m, heap := (heap s1)(c \<mapsto> ?t)\<rparr>"
  have t2: "status ?t = COROUTINE_RUNNING" "revents ?t ?n = bits"
    using mask by (simp_all add: wake_by_def)
  have "await K tid (Some c) fd ev ?s = Inr (True, ?s)"
    using await_eq [of ?s c ?t fd ?n K tid ev] n t2(2) bits by simp
  with m t2(1) show ?thesis by (intro exI [of _ ?s] exI [of _ ?t]) simp
qed

text \<open>
  The first wait of a coroutine on a descriptor records the interest \<open>EPOLLIN\<close>. An event that does not
  report \<open>EPOLLIN\<close> takes the coroutine out of the queue without waking it, and the next event on
  the descriptor finds the queue empty.
\<close>

lemma first_wait_lost:
  assumes ok: "state_ok s" and th: "thread_has s tid ep" and cur: "is_current s ep env c t"
    and q: "tq_family (queues s) q"
    and out: "\<forall>h \<in> dom (tq_heads (queues s)). c \<notin> set (q h)" and alone: "q (ep, fd) = []"
    and first: "ev_fd (events t (nat fd)) \<le> 0"
    and add: "add_queue K tid fd ev s = Inr (0, s1)" and bits: "bits AND EPOLLIN = 0"
  shows "\<exists>s2 t2. handle_event ep \<lparr>ev_events = bits, ev_fd = fd\<rparr> s1 = Inr s2 \<and>
    tq_family (queues s2) q \<and> heap s2 c = Some t2 \<and> status t2 = COROUTINE_WAIT \<and>
    (\<forall>more. handle_event ep \<lparr>ev_events = more, ev_fd = fd\<rparr> s2 = Inl NullDeref)"
proof -
  let ?ev = "\<lparr>ev_events = bits, ev_fd = fd\<rparr>" and ?n = "nat fd"
  obtain r t' k m where n: "fd_index fd = Inr ?n"
    and i: "interest K (epfd env) ?n ev (blocked_task ?n ev t) (kst s) = Inr (r, t', k)"
    and m: "handle_event ep ?ev s1 = Inr (s1\<lparr>queues := m, heap := (heap s1)(c \<mapsto> wake_by ?ev t')\<rparr>)"
      "tq_family m q" "(ep, fd) \<in> dom (tq_heads m)"
    by (rule add_then_event [OF ok th cur q out alone add])
  let ?s = "s1\<lparr>queues := m, heap := (heap s1)(c \<mapsto> wake_by ?ev t')\<rparr>"
  have "events t' ?n = \<lparr>ev_events = EPOLLIN, ev_fd = int ?n\<rparr>"
    using interest_events [OF i] first by (simp add: blocked_task_def)
  then have w: "wake_by ?ev t' = t'" using bits by (simp add: wake_by_def and.commute)
  have "status t' = COROUTINE_WAIT" using interest_Inr [OF i] by (simp add: blocked_task_def)
  moreover have "handle_event ep \<lparr>ev_events = more, ev_fd = fd\<rparr> ?s = Inl NullDeref" for more
    using m alone by (intro handle_event_empty [where q = q]) simp_all
  ultimately show ?thesis using m(1,2) w by (intro exI [of _ ?s]) simp
qed

text \<open>
  A coroutine that waits for \<open>EPOLLOUT\<close> on a descriptor whose interest in \<open>EPOLLIN\<close> is still
  registered, and an event that reports input only: the event takes the coroutine out of the
  queue and makes it runnable, it finds that it must go on waiting, and does so in no queue.
\<close>

lemma writer_lost:
  assumes ok: "state_ok s" and th: "thread_has s tid ep" and cur: "is_current s ep env c t"
    and q: "tq_family (queues s) q"
    and out: "\<forall>h \<in> dom (tq_heads (queues s)). c \<notin> set (q h)" and alone: "q (ep, fd) = []"
    and int: "interest_ok t" "ev_fd (events t (nat fd)) > 0"
    and add: "add_queue K tid fd EPOLLOUT s = Inr (0, s1)"
    and bits: "bits AND EPOLLIN \<noteq> 0" "bits AND EPOLLOUT = 0"
  shows "\<exists>s2 t2 s3. handle_event ep \<lparr>ev_events = bits, ev_fd = fd\<rparr> s1 = Inr s2 \<and>
    heap s2 c = Some t2 \<and> status t2 = COROUTINE_RUNNING \<and>
    s3 = s2\<lparr>heap := (heap s2)(c \<mapsto> t2\<lparr>status := COROUTINE_WAIT\<rparr>)\<rparr> \<and>
    await K tid (Some c) fd EPOLLOUT s2 = bnd (schedule K tid s3) (\<lambda>s. Inr (False, s)) \<and>
    tq_family (queues s3) q \<and> handle_event ep \<lparr>ev_events = EPOLLOUT, ev_fd = fd\<rparr> s3 = Inl NullDeref"
proof -
  let ?ev = "\<lparr>ev_events = bits, ev_fd = fd\<rparr>" and ?n = "nat fd"
  obtain r t' k m where n: "fd_index fd = Inr ?n"
    and i: "interest K (epfd env) ?n EPOLLOUT (blocked_task ?n EPOLLOUT t) (kst s) = Inr (r, t', k)"
    and m: "handle_event ep ?ev s1 = Inr (s1\<lparr>queues := m, heap := (heap s1)(c \<mapsto> wake_by ?ev t')\<rparr>)"
      "tq_family m q" "(ep, fd) \<in> dom (tq_heads m)"
    by (rule add_then_event [OF ok th cur q out alone add])
  let ?t = "wake_by ?ev t'"
  let ?s = "s1\<lparr>queues := m, heap := (heap s1)(c \<mapsto> ?t)\<rparr>"
  let ?s3 = "?s\<lparr>heap := (heap ?s)(c \<mapsto> ?t\<lparr>status := COROUTINE_WAIT\<rparr>)\<rparr>"
  have "interest_ok t'"
    using int(1) by (intro interest_keeps_ok [OF i]) (simp_all add: blocked_task_def interest_ok_def)
  moreover have "ev_fd (events t' ?n) > 0"
    using interest_events [OF i] int(2) by (simp add: blocked_task_def)
  ultimately have "ev_events (events t' ?n) \<in> {EPOLLIN, EPOLLIN OR EPOLLOUT}"
    unfolding interest_ok_def by blast
  then have "ev_events (events t' ?n) AND EPOLLIN \<noteq> 0" by auto
  then have mask: "ev_events (events t' ?n) AND bits \<noteq> 0"
    using common_event [of EPOLLIN] bits(1) by simp
  have t2: "status ?t = COROUTINE_RUNNING" "revents ?t ?n = bits"
    using mask by (simp_all add: wake_by_def)
  have a: "await K tid (Some c) fd EPOLLOUT ?s = bnd (schedule K tid ?s3) (\<lambda>s. Inr (False, s))"
    using await_eq [of ?s c ?t fd ?n K tid EPOLLOUT] n t2(2) bits(2) by simp
  have e: "handle_event ep \<lparr>ev_events = EPOLLOUT, ev_fd = fd\<rparr> ?s3 = Inl NullDeref"
    using m alone by (intro handle_event_empty [where q = q]) simp_all
  show ?thesis
    by (rule exI [of _ ?s], rule exI [of _ ?t], rule exI [of _ ?s3]) (use m a e t2(1) in simp)
qed

section \<open>Properties\<close>

text \<open>
  C17: A turn of the event loop implements the list specification of a batch of events: each
  event takes the first coroutine out of the queue of its descriptor and wakes it when it
  registered an interest in one of the reported bits; then schedule is called. An event on a
  descriptor with no waiter dereferences NULL.
\<close>

theorem eventloop_delivers:
  assumes "state_ok s" and "envs s ep = Some env" and "tq_family (queues s) q"
    and "os_epoll_wait K epf (kst s) = (Some evs, k)" and "evs \<noteq> []" and "length evs \<le> 1024"
    and "\<forall>ev \<in> set evs. 0 \<le> ev_fd ev \<and> ev_fd ev < int MAX_FD"
  shows "case deliver ep evs (q, heap s) of
      None \<Rightarrow> co_eventloop_turn K tid ep epf s = Inl NullDeref
    | Some (q', H') \<Rightarrow> \<exists>m. tq_family m q' \<and>
        co_eventloop_turn K tid ep epf s = schedule K tid (s\<lparr>kst := k, queues := m, heap := H'\<rparr>)"
  by (rule co_eventloop_turn_deliver [OF assms])

theorem eventloop_delivers_witness:
  "co_eventloop_turn ex_os 1 0 3 ex0 = Inl NullDeref"
  using eventloop_delivers [OF ex0_ok _ ex0_queues, of 0 ex0_env ex_os 3
      "[\<lparr>ev_events = EPOLLIN, ev_fd = 5\<rparr>]" 0 1]
  by (simp add: ex0_fields MAX_FD_def) (simp add: ex_os_def)

text \<open>
  C18: A coroutine that blocked on a descriptor nobody else waits for is runnable after an event
  reporting one of the awaited bits, leaves its waiting loop, and all wait queues are as before
  it blocked (for EPOLLIN, and for EPOLLOUT when the descriptor was registered before).
\<close>

theorem event_wakes_waiter:
  assumes "state_ok s" and "thread_has s tid ep" and "is_current s ep env c t"
    and "tq_family (queues s) q"
    and "\<forall>h \<in> dom (tq_heads (queues s)). c \<notin> set (q h)" and "q (ep, fd) = []"
    and "interest_ok t" and "ev \<in> {EPOLLIN, EPOLLOUT}"
    and "ev = EPOLLIN \<or> ev_fd (events t (nat fd)) > 0"
    and "add_queue K tid fd ev s = Inr (0, s1)" and "bits AND ev \<noteq> 0"
  shows "\<exists>s2 t2. handle_event ep \<lparr>ev_events = bits, ev_fd = fd\<rparr> s1 = Inr s2 \<and>
    tq_family (queues s2) q \<and> heap s2 c = Some t2 \<and> status t2 = COROUTINE_RUNNING \<and>
    await K tid (Some c) fd ev s2 = Inr (True, s2)"
  by (rule block_then_event [OF assms])

theorem event_wakes_waiter_witness:
  "\<exists>s1 s2 t2. add_queue ex_os 1 5 EPOLLIN ex0 = Inr (0, s1) \<and>
    handle_event 0 \<lparr>ev_events = EPOLLIN, ev_fd = 5\<rparr> s1 = Inr s2 \<and>
    heap s2 1 = Some t2 \<and> status t2 = COROUTINE_RUNNING"
proof -
  obtain s1 where s1: "add_queue ex_os 1 5 EPOLLIN ex0 = Inr (0, s1)" using ex0_add by blast
  have "interest_ok ex0_main" by (simp add: interest_ok_def ex0_main_fields)
  from event_wakes_waiter [OF ex0_ok ex0_thread ex0_current ex0_queues _ _ this _ _ s1, of EPOLLIN] s1
  show ?thesis by simp blast
qed

text \<open>
  C25: A coroutine in its first wait on a descriptor that nobody else waits on is taken out of
  the queue by an event without EPOLLIN (EPOLLOUT when it waits to write, EPOLLHUP or EPOLLERR
  alone) but stays in COROUTINE_WAIT, and the next event on the descriptor dereferences NULL.
\<close>

theorem first_write_never_woken:
  assumes "state_ok s" and "thread_has s tid ep" and "is_current s ep env c t"
    and "tq_family (queues s) q"
    and "\<forall>h \<in> dom (tq_heads (queues s)). c \<notin> set (q h)" and "q (ep, fd) = []"
    and "ev_fd (events t (nat fd)) \<le> 0" and "add_queue K tid fd ev s = Inr (0, s1)"
    and "bits AND EPOLLIN = 0"
  shows "\<exists>s2 t2. handle_event ep \<lparr>ev_events = bits, ev_fd = fd\<rparr> s1 = Inr s2 \<and>
    tq_family (queues s2) q \<and> heap s2 c = Some t2 \<and> status t2 = COROUTINE_WAIT \<and>
    (\<forall>more. handle_event ep \<lparr>ev_events = more, ev_fd = fd\<rparr> s2 = Inl NullDeref)"
  by (rule first_wait_lost [OF assms])

lemma ex0_add_write: "\<exists>s'. add_queue ex_os 1 5 EPOLLOUT ex0 = Inr (0, s')"
proof -
  have n: "fd_index 5 = Inr 5" by (simp add: fd_index_def MAX_FD_def)
  have "\<exists>t' k. interest ex_os (epfd ex0_env) 5 EPOLLOUT (blocked_task 5 EPOLLOUT ex0_main) (kst ex0) =
      Inr (0, t', k)"
    by (simp add: interest_def blocked_task_def ex0_main_fields MAX_FD_def ex_os_def)
  then obtain t' k where i: "interest ex_os (epfd ex0_env) 5 EPOLLOUT
      (blocked_task 5 EPOLLOUT ex0_main) (kst ex0) = Inr (0, t', k)" by (elim exE)
  obtain s' where "add_queue ex_os 1 5 EPOLLOUT ex0 = Inr (0, s')"
    by (rule add_queue_blocks [OF ex0_ok ex0_thread ex0_current n ex0_queues _ i]) simp_all
  then show ?thesis by blast
qed

theorem first_write_never_woken_witness:
  "\<exists>s1 s2 t2. add_queue ex_os 1 5 EPOLLOUT ex0 = Inr (0, s1) \<and>
    handle_event 0 \<lparr>ev_events = EPOLLOUT, ev_fd = 5\<rparr> s1 = Inr s2 \<and>
    heap s2 1 = Some t2 \<and> status t2 = COROUTINE_WAIT"
proof -
  obtain s1 where s1: "add_queue ex_os 1 5 EPOLLOUT ex0 = Inr (0, s1)" using ex0_add_write by blast
  from first_write_never_woken [OF ex0_ok ex0_thread ex0_current ex0_queues _ _ _ s1, of EPOLLOUT] s1
  show ?thesis by (simp add: ex0_main_fields) blast
qed

text \<open>
  C26: A coroutine that waits for EPOLLOUT on a registered descriptor that nobody else waits on
  is taken out of the queue by an event that reports input only; it runs, finds that it must go
  on waiting, and waits in no queue, so that the EPOLLOUT event dereferences NULL.
\<close>

theorem input_event_loses_writer:
  assumes "state_ok s" and "thread_has s tid ep" and "is_current s ep env c t"
    and "tq_family (queues s) q"
    and "\<forall>h \<in> dom (tq_heads (queues s)). c \<notin> set (q h)" and "q (ep, fd) = []"
    and "interest_ok t" and "ev_fd (events t (nat fd)) > 0"
    and "add_queue K tid fd EPOLLOUT s = Inr (0, s1)"
    and "bits AND EPOLLIN \<noteq> 0" and "bits AND EPOLLOUT = 0"
  shows "\<exists>s2 t2 s3. handle_event ep \<lparr>ev_events = bits, ev_fd = fd\<rparr> s1 = Inr s2 \<and>
    heap s2 c = Some t2 \<and> status t2 = COROUTINE_RUNNING \<and>
    s3 = s2\<lparr>heap := (heap s2)(c \<mapsto> t2\<lparr>status := COROUTINE_WAIT\<rparr>)\<rparr> \<and>
    await K tid (Some c) fd EPOLLOUT s2 = bnd (schedule K tid s3) (\<lambda>s. Inr (False, s)) \<and>
    tq_family (queues s3) q \<and> handle_event ep \<lparr>ev_events = EPOLLOUT, ev_fd = fd\<rparr> s3 = Inl NullDeref"
  by (rule writer_lost [OF assms])

text \<open>The process \<open>ex0\<close> after its main coroutine has read from the descriptor 5.\<close>

definition ex_reader :: task_struct_t where
  "ex_reader = ex0_main\<lparr>fds_idx := 1, fds := (\<lambda>_. 5),
     events := (events ex0_main)(5 := \<lparr>ev_events = EPOLLIN, ev_fd = 5\<rparr>)\<rparr>"

definition ex_read :: "nat co_state" where
  "ex_read = ex0\<lparr>heap := (heap ex0)(1 \<mapsto> ex_reader)\<rparr>"

lemma ex_read_ok: "state_ok ex_read" "thread_has ex_read 1 0" "is_current ex_read 0 ex0_env 1 ex_reader"
  "interest_ok ex_reader"
proof -
  have "same_tasks ex0 ex_read"
    unfolding ex_read_def
    by (rule same_tasks_upd [where t = ex0_main]) (simp_all add: ex0_fields ex_reader_def MAX_FD_def)
  then show "state_ok ex_read" using ex0_ok by (rule state_ok_same_tasks)
  show "thread_has ex_read 1 0" using ex0_thread by (simp add: thread_has_def ex_read_def)
  show "is_current ex_read 0 ex0_env 1 ex_reader"
    using ex0_current by (simp add: is_current_def ex_read_def)
  show "interest_ok ex_reader" by (simp add: interest_ok_def ex_reader_def ex0_main_fields)
qed

lemma ex_read_queues: "tq_family (queues ex_read) (\<lambda>_. [])"
  using ex0_queues by (simp add: ex_read_def)

lemma ex_read_add: "\<exists>s'. add_queue ex_os 1 5 EPOLLOUT ex_read = Inr (0, s')"
proof -
  have n: "fd_index 5 = Inr 5" by (simp add: fd_index_def MAX_FD_def)
  have "\<exists>t' k. interest ex_os (epfd ex0_env) 5 EPOLLOUT (blocked_task 5 EPOLLOUT ex_reader) (kst ex_read) =
      Inr (0, t', k)"
    by (simp add: interest_def blocked_task_def ex_reader_def needs_mod_def ex_os_def)
  then obtain t' k where i: "interest ex_os (epfd ex0_env) 5 EPOLLOUT
      (blocked_task 5 EPOLLOUT ex_reader) (kst ex_read) = Inr (0, t', k)" by (elim exE)
  obtain s' where "add_queue ex_os 1 5 EPOLLOUT ex_read = Inr (0, s')"
    by (rule add_queue_blocks [OF ex_read_ok(1-3) n ex_read_queues _ i]) simp_all
  then show ?thesis by blast
qed

theorem input_event_loses_writer_witness:
  "\<exists>s1 s2 s3. add_queue ex_os 1 5 EPOLLOUT ex_read = Inr (0, s1) \<and>
    handle_event 0 \<lparr>ev_events = EPOLLIN, ev_fd = 5\<rparr> s1 = Inr s2 \<and>
    await ex_os 1 (Some 1) 5 EPOLLOUT s2 = bnd (schedule ex_os 1 s3) (\<lambda>s. Inr (False, s)) \<and>
    handle_event 0 \<lparr>ev_events = EPOLLOUT, ev_fd = 5\<rparr> s3 = Inl NullDeref"
proof -
  obtain s1 where s1: "add_queue ex_os 1 5 EPOLLOUT ex_read = Inr (0, s1)" using ex_read_add by blast
  have "ev_fd (events ex_reader (nat 5)) > 0" by (simp add: ex_reader_def)
  from input_event_loses_writer [OF ex_read_ok(1-3) ex_read_queues _ _ ex_read_ok(4) this s1, of EPOLLIN]
  obtain s2 t2 s3 where "handle_event 0 \<lparr>ev_events = EPOLLIN, ev_fd = 5\<rparr> s1 = Inr s2"
    "await ex_os 1 (Some 1) 5 EPOLLOUT s2 = bnd (schedule ex_os 1 s3) (\<lambda>s. Inr (False, s))"
    "handle_event 0 \<lparr>ev_events = EPOLLOUT, ev_fd = 5\<rparr> s3 = Inl NullDeref" by auto
  with s1 show ?thesis by blast
qed

end
