(* ===== verification/Effects.thy ===== *)
theory Effects
  imports Coeventloop
begin

text \<open>
  What every operation of the library does to the set of live control blocks, to the coroutines
  that have exited and to the coroutines that are current: one lemma per operation, in a form that
  composes. The invariants of whole executions rest on them.
\<close>

section \<open>What every operation keeps\<close>

text \<open>
  The current coroutine of every thread is running or about to block; it has not exited and does
  not sleep.
\<close>

definition alive_but :: "envp set \<Rightarrow> 'k co_state \<Rightarrow> bool" where
  "alive_but E s \<longleftrightarrow>
     (\<forall>ep env c t. ep \<notin> E \<longrightarrow> is_current s ep env c t \<longrightarrow>
        status t = COROUTINE_RUNNING \<or> status t = COROUTINE_WAIT)"

abbreviation alive :: "'k co_state \<Rightarrow> bool" where
  "alive \<equiv> alive_but {}"

text \<open>Only the coroutines of \<open>X\<close> may have exited since.\<close>

definition exits_in :: "taskp set \<Rightarrow> 'k co_state \<Rightarrow> 'k co_state \<Rightarrow> bool" where
  "exits_in X s s' \<longleftrightarrow>
     (\<forall>p t'. heap s' p = Some t' \<longrightarrow> status t' = COROUTINE_EXIT \<longrightarrow>
        p \<in> X \<or> (\<exists>t. heap s p = Some t \<and> status t = COROUTINE_EXIT))"

text \<open>
  A control block stays with its thread and keeps its \<open>id\<close>; a coroutine that has exited stays
  so, unless the event loop was at work (\<open>W\<close>).
\<close>

definition stays :: "bool \<Rightarrow> 'k co_state \<Rightarrow> 'k co_state \<Rightarrow> bool" where
  "stays W s s' \<longleftrightarrow>
     (\<forall>p t t'. heap s p = Some t \<longrightarrow> heap s' p = Some t' \<longrightarrow>
        thread_env t' = thread_env t \<and> tsk_id t' = tsk_id t \<and>
        (status t = COROUTINE_EXIT \<longrightarrow> status t' = COROUTINE_EXIT \<or> W))"

definition evolves :: "bool \<Rightarrow> taskp set \<Rightarrow> 'k co_state \<Rightarrow> 'k co_state \<Rightarrow> bool" where
  "evolves W X s s' \<longleftrightarrow> state_ok s' \<and> alive s' \<and> exits_in X s s' \<and> stays W s s'"

definition effect :: "bool \<Rightarrow> taskp set \<Rightarrow> 'k co_state \<Rightarrow> 'k co_state \<Rightarrow> bool" where
  "effect W X s s' \<longleftrightarrow> evolves W X s s' \<and> dom (heap s') = dom (heap s)"

lemmas effect_defs = effect_def evolves_def

lemma staysD:
  assumes "stays W s s'" and "heap s p = Some t" and "heap s' p = Some t'"
  shows "thread_env t' = thread_env t" "tsk_id t' = tsk_id t"
    "status t = COROUTINE_EXIT \<Longrightarrow> \<not> W \<Longrightarrow> status t' = COROUTINE_EXIT"
  using assms unfolding stays_def by blast+

lemma same_tasks_stays:
  assumes "same_tasks s s'"
    and "\<And>p t t'. heap s p = Some t \<Longrightarrow> heap s' p = Some t' \<Longrightarrow> status t = COROUTINE_EXIT \<Longrightarrow> \<not> W \<Longrightarrow>
      status t' = COROUTINE_EXIT"
  shows "stays W s s'"
  using assms unfolding stays_def same_tasks_def by blast

lemma stays_mono: "stays False s s' \<Longrightarrow> stays W s s'"
  unfolding stays_def by blast

lemma stays_trans:
  assumes "stays W s s'" and "stays W s' s''" and "dom (heap s) \<inter> dom (heap s'') \<subseteq> dom (heap s')"
  shows "stays W s s''"
  unfolding stays_def
proof (intro allI impI)
  fix p t t'' assume t: "heap s p = Some t" "heap s'' p = Some t''"
  then obtain t' where "heap s' p = Some t'" using assms(3) by blast
  with staysD [OF assms(1) t(1)] staysD [OF assms(2) _ t(2)]
  show "thread_env t'' = thread_env t \<and> tsk_id t'' = tsk_id t \<and>
      (status t = COROUTINE_EXIT \<longrightarrow> status t'' = COROUTINE_EXIT \<or> W)" by metis
qed

text \<open>A change of control blocks that wakes coroutines or leaves their status alone.\<close>

definition mild :: "bool \<Rightarrow> 'k co_state \<Rightarrow> 'k co_state \<Rightarrow> bool" where
  "mild W s s' \<longleftrightarrow>
     same_tasks s s' \<and>
     (\<forall>p t t'. heap s p = Some t \<longrightarrow> heap s' p = Some t' \<longrightarrow>
        status t' = status t \<or> status t' = COROUTINE_RUNNING \<and> (W \<or> status t \<noteq> COROUTINE_EXIT))"

lemma mild_status:
  assumes "mild W s s'" and "heap s p = Some t" and "heap s' p = Some t'"
  shows "status t' = status t \<or> status t' = COROUTINE_RUNNING \<and> (W \<or> status t \<noteq> COROUTINE_EXIT)"
  using assms unfolding mild_def by blast

lemma mild_refl: "mild W s s"
  by (simp add: mild_def same_tasks_refl)

lemma mild_trans:
  assumes "mild W s s'" and "mild W s' s''"
  shows "mild W s s''"
proof -
  have "status t'' = status t \<or> status t'' = COROUTINE_RUNNING \<and> (W \<or> status t \<noteq> COROUTINE_EXIT)"
    if t: "heap s p = Some t" and t'': "heap s'' p = Some t''" for p t t''
  proof -
    have "same_tasks s s'" using assms(1) by (simp add: mild_def)
    then obtain t' where t': "heap s' p = Some t'" using t by (rule same_tasks_forth)
    from mild_status [OF assms(1) t t'] mild_status [OF assms(2) t' t''] show ?thesis by auto
  qed
  moreover have "same_tasks s s''" using assms same_tasks_trans unfolding mild_def by blast
  ultimately show ?thesis unfolding mild_def by blast
qed

lemma mild_current:
  assumes "mild W s s'" and "is_current s' ep env c t'"
  obtains t where "is_current s ep env c t" "status t' = status t \<or> status t' = COROUTINE_RUNNING"
proof -
  have sim: "same_tasks s s'" using assms(1) by (simp add: mild_def)
  have "heap s' c = Some t'" using assms(2) by (simp add: is_current_def)
  then obtain t where t: "heap s c = Some t" by (rule same_tasks_back [OF sim])
  then have "is_current s ep env c t" using assms(2) sim by (simp add: is_current_def same_tasks_def)
  with mild_status [OF assms(1) t] assms(2) that show thesis by (auto simp: is_current_def)
qed

lemma mild_alive:
  assumes "mild W s s'" and "alive_but E s"
  shows "alive_but E s'"
  unfolding alive_but_def
proof (intro allI impI)
  fix ep env c t' assume "ep \<notin> E" "is_current s' ep env c t'"
  obtain t where "is_current s ep env c t" "status t' = status t \<or> status t' = COROUTINE_RUNNING"
    by (rule mild_current [OF assms(1) \<open>is_current s' ep env c t'\<close>])
  with assms(2) \<open>ep \<notin> E\<close> show "status t' = COROUTINE_RUNNING \<or> status t' = COROUTINE_WAIT"
    unfolding alive_but_def by metis
qed

lemma mild_stays: "mild W s s' \<Longrightarrow> stays W s s'"
proof (rule same_tasks_stays)
  assume m: "mild W s s'"
  then show "same_tasks s s'" by (simp add: mild_def)
  fix p t t' assume "heap s p = Some t" "heap s' p = Some t'" "status t = COROUTINE_EXIT" "\<not> W"
  with mild_status [OF m] show "status t' = COROUTINE_EXIT" by metis
qed

lemma mild_exits: "mild W s s' \<Longrightarrow> exits_in {} s s'"
  unfolding exits_in_def mild_def by (metis co_status.distinct(5) same_tasks_back)

lemma exits_in_trans:
  "exits_in X s s' \<Longrightarrow> exits_in Y s' s'' \<Longrightarrow> exits_in (X \<union> Y) s s''"
  unfolding exits_in_def by blast

lemma mild_effect:
  assumes "mild W s s'" and "state_ok s" and "alive s"
  shows "effect W {} s s'"
proof -
  have sim: "same_tasks s s'" using assms(1) by (simp add: mild_def)
  have "dom (heap s') = dom (heap s)" using sim by (simp add: same_tasks_def)
  with state_ok_same_tasks [OF sim assms(2)] mild_alive [OF assms(1,3)] mild_exits [OF assms(1)]
    mild_stays [OF assms(1)]
  show ?thesis by (simp add: effect_defs)
qed

lemma effect_trans:
  assumes "effect W X s s'" and "effect W Y s' s''"
  shows "effect W (X \<union> Y) s s''"
proof -
  have "stays W s s''" by (rule stays_trans) (use assms in \<open>auto simp: effect_defs\<close>)
  moreover have "exits_in (X \<union> Y) s s''"
    by (rule exits_in_trans [where s' = s']) (use assms in \<open>simp_all add: effect_defs\<close>)
  ultimately show ?thesis using assms by (simp add: effect_defs)
qed

text \<open>A change of the block of the current coroutine only.\<close>

definition touches :: "taskp \<Rightarrow> 'k co_state \<Rightarrow> 'k co_state \<Rightarrow> bool" where
  "touches c s s' \<longleftrightarrow> same_tasks s s' \<and> (\<forall>p. p \<noteq> c \<longrightarrow> heap s' p = heap s p)"

lemma touches_alive:
  assumes ok: "state_ok s" and cur: "is_current s ep env c t" and "touches c s s'" and "alive_but {ep} s"
  shows "alive_but {ep} s'"
  unfolding alive_but_def
proof (intro allI impI)
  fix e env' p t' assume e: "e \<notin> {ep}" and p: "is_current s' e env' p t'"
  have sim: "same_tasks s s'" using assms(3) by (simp add: touches_def)
  have "heap s' p = Some t'" using p by (simp add: is_current_def)
  then obtain t0 where t0: "heap s p = Some t0" by (rule same_tasks_back [OF sim])
  then have p0: "is_current s e env' p t0" using p sim by (simp add: is_current_def same_tasks_def)
  have "p \<noteq> c" using is_currentD(3,6) [OF ok cur] is_currentD(6) [OF ok p0] t0 e by auto
  then have "t' = t0" using assms(3) t0 p by (simp add: touches_def is_current_def)
  with assms(4) p0 e show "status t' = COROUTINE_RUNNING \<or> status t' = COROUTINE_WAIT"
    unfolding alive_but_def by blast
qed

lemma alive_current:
  "alive s \<Longrightarrow> is_current s ep env c t \<Longrightarrow> status t = COROUTINE_RUNNING \<or> status t = COROUTINE_WAIT"
  unfolding alive_but_def by blast

lemma touches_stays:
  assumes tc: "touches c s s'" and cur: "is_current s ep env c t" and al: "alive s"
  shows "stays W s s'"
proof (rule same_tasks_stays)
  show "same_tasks s s'" using tc by (simp add: touches_def)
  fix p t0 t' assume p: "heap s p = Some t0" "heap s' p = Some t'" "status t0 = COROUTINE_EXIT"
  have "p \<noteq> c" using p alive_current [OF al cur] cur by (auto simp: is_current_def)
  with p tc show "status t' = COROUTINE_EXIT" by (simp add: touches_def)
qed

lemma touches_exits: "touches c s s' \<Longrightarrow> exits_in {c} s s'"
  unfolding exits_in_def touches_def by auto

text \<open>\<open>schedule\<close> makes the thread alive again, whatever its coroutine was doing.\<close>

lemma schedule_effect:
  assumes ok: "state_ok s" and th: "thread_has s tid ep" and cur: "is_current s ep env c t"
    and al: "alive_but {ep} s" and s': "schedule K tid s = Inr s'"
  shows "effect W {} s s'"
proof -
  obtain p where r: "rescheduled K ep env (tsk_id t) s s' p"
    by (rule schedule_rescheduled [OF ok th cur s'])
  obtain n s1 where n: "woken K ep n s s1"
    and eq: "s' = s1\<lparr>envs := (envs s1)(ep \<mapsto> env\<lparr>current := Some p\<rparr>)\<rparr>"
    using r unfolding rescheduled_def by blast
  have m: "mild W s s1"
    unfolding mild_def
  proof (intro conjI allI impI)
    show "same_tasks s s1" by (rule woken_same_tasks [OF n])
    fix p t t' assume t: "heap s p = Some t" and t': "heap s1 p = Some t'"
    show "status t' = status t \<or> status t' = COROUTINE_RUNNING \<and> (W \<or> status t \<noteq> COROUTINE_EXIT)"
      using n t by (rule woken_taskE) (use t' in auto)
  qed
  obtain tp where tp: "state_ok s'" "is_current s' ep (env\<lparr>current := Some p\<rparr>) p tp"
      "status tp = COROUTINE_RUNNING"
    using rescheduled_ok [OF ok cur r] by blast
  have "alive s'"
    unfolding alive_but_def
  proof (intro allI impI)
    fix e env' q tq assume q: "is_current s' e env' q tq"
    show "status tq = COROUTINE_RUNNING \<or> status tq = COROUTINE_WAIT"
    proof (cases "e = ep")
      case True
      with q tp(2) have "tq = tp" by (auto simp: is_current_def)
      with tp(3) show ?thesis by simp
    next
      case False
      then have "is_current s1 e env' q tq" using q by (simp add: is_current_def eq)
      with mild_alive [OF m al] False show ?thesis unfolding alive_but_def by blast
    qed
  qed
  moreover have "dom (heap s') = dom (heap s)" using n by (simp add: eq woken_def)
  moreover have "exits_in {} s s'" using mild_exits [OF m] by (simp add: exits_in_def eq)
  moreover have h: "heap s' = heap s1" by (simp add: eq)
  have "stays W s s'" using mild_stays [OF m] unfolding stays_def h .
  ultimately show ?thesis using tp(1) by (simp add: effect_defs)
qed

lemma alive_weaken: "alive s \<Longrightarrow> alive_but E s"
  by (simp add: alive_but_def)

text \<open>Changing the block of the current coroutine and calling \<open>schedule\<close>.\<close>

lemma touch_schedule_effect:
  assumes ok: "state_ok s" and th: "thread_has s tid ep" and cur: "is_current s ep env c t"
    and al: "alive s" and tc: "touches c s s1" and s': "schedule K tid s1 = Inr s'"
  shows "effect W {c} s s'"
proof -
  have sim: "same_tasks s s1" using tc by (simp add: touches_def)
  have ok1: "state_ok s1" using sim ok by (rule state_ok_same_tasks)
  have th1: "thread_has s1 tid ep" using th same_tasks_thread [OF sim] by simp
  obtain t1 where cur1: "is_current s1 ep env c t1" by (rule same_tasks_current [OF sim cur])
  have "effect W {} s1 s'"
    by (rule schedule_effect [OF ok1 th1 cur1 touches_alive [OF ok cur tc alive_weaken [OF al]] s'])
  moreover have "exits_in ({c} \<union> {}) s s'"
    using exits_in_trans [OF touches_exits [OF tc]] calculation by (auto simp: effect_defs)
  moreover have "dom (heap s1) = dom (heap s)" using sim by (simp add: same_tasks_def)
  moreover have "stays W s s'"
    using stays_trans [OF touches_stays [OF tc cur al]] calculation by (auto simp: effect_defs)
  ultimately show ?thesis by (simp add: effect_defs)
qed

lemma touches_exits_none:
  assumes "touches c s s'" and "heap s' c = Some t'" and "status t' \<noteq> COROUTINE_EXIT"
  shows "exits_in {} s s'"
  unfolding exits_in_def
proof (intro allI impI disjI2)
  fix p t assume p: "heap s' p = Some t" "status t = COROUTINE_EXIT"
  then have "p \<noteq> c" using assms(2,3) by auto
  then have "heap s p = Some t" using assms(1) p(1) by (simp add: touches_def)
  with p(2) show "\<exists>t. heap s p = Some t \<and> status t = COROUTINE_EXIT" by blast
qed

lemma touch_schedule_running:
  assumes "state_ok s" and "thread_has s tid ep" and "is_current s ep env c t" and "alive s"
    and tc: "touches c s s1" and t1: "heap s1 c = Some tt" "status tt \<noteq> COROUTINE_EXIT"
    and s': "schedule K tid s1 = Inr s'"
  shows "effect W {} s s'"
proof -
  have sim: "same_tasks s s1" using tc by (simp add: touches_def)
  have ok1: "state_ok s1" using sim assms(1) by (rule state_ok_same_tasks)
  have th1: "thread_has s1 tid ep" using assms(2) same_tasks_thread [OF sim] by simp
  obtain t2 where cur1: "is_current s1 ep env c t2" by (rule same_tasks_current [OF sim assms(3)])
  have eff: "effect W {} s1 s'"
    by (rule schedule_effect [OF ok1 th1 cur1 touches_alive [OF assms(1,3) tc alive_weaken [OF assms(4)]] s'])
  moreover have "exits_in ({} \<union> {}) s s'"
    by (rule exits_in_trans [OF touches_exits_none [OF tc t1]]) (use eff in \<open>simp add: effect_defs\<close>)
  moreover have dom: "dom (heap s1) = dom (heap s)" using sim by (simp add: same_tasks_def)
  moreover have "stays W s s'"
    using stays_trans [OF touches_stays [OF tc assms(3,4)]] eff dom by (auto simp: effect_defs)
  ultimately show ?thesis by (simp add: effect_defs)
qed

lemma touches_effect:
  assumes ok: "state_ok s" and cur: "is_current s ep env c t" and al: "alive s"
    and tc: "touches c s s'" and t': "heap s' c = Some t'"
      "status t' = COROUTINE_RUNNING \<or> status t' = COROUTINE_WAIT"
  shows "effect W {} s s'"
proof -
  have sim: "same_tasks s s'" using tc by (simp add: touches_def)
  have "alive_but {ep} s'" by (rule touches_alive [OF ok cur tc alive_weaken [OF al]])
  moreover have cs: "status tp = COROUTINE_RUNNING \<or> status tp = COROUTINE_WAIT"
    if p: "is_current s' ep env' p tp" for env' p tp
  proof -
    have "envs s' ep = envs s ep" using sim by (simp add: same_tasks_def)
    then have "p = c" using p cur by (simp add: is_current_def)
    with p t' show ?thesis by (simp add: is_current_def)
  qed
  ultimately have "alive s'" using cs unfolding alive_but_def by (metis empty_iff singletonD)
  moreover have "exits_in {} s s'" by (rule touches_exits_none [OF tc t'(1)]) (use t'(2) in auto)
  moreover have "dom (heap s') = dom (heap s)" using sim by (simp add: same_tasks_def)
  ultimately show ?thesis
    using state_ok_same_tasks [OF sim ok] touches_stays [OF tc cur al] by (simp add: effect_defs)
qed

lemma kst_mild: "mild W s (s\<lparr>kst := k\<rparr>)"
  by (auto simp: mild_def kst_same_tasks)

lemma syscall_mild: "syscall f s = (r, s') \<Longrightarrow> mild W s s'"
  by (auto dest!: syscall_state intro: kst_mild)

section \<open>The operations\<close>

lemma co_sleep_effect:
  assumes ok: "state_ok s" and th: "thread_has s tid ep" and cur: "is_current s ep env c t"
    and al: "alive s" and s': "co_sleep K tid n s = Inr s'"
  shows "effect W {} s s'"
proof -
  obtain now where now: "ms_at K (kst s) 0 = Some now"
    using s' by (auto simp: co_sleep_eq [OF th cur] split: option.splits)
  have sch: "schedule K tid (asleep K s c t now n) = Inr s'"
    using s' co_sleep_asleep [OF th cur now co_sleep_faults [OF th cur s']] by simp
  have h: "heap s c = Some t" using cur by (simp add: is_current_def)
  have "touches c s (asleep K s c t now n)"
    using h by (auto simp: touches_def same_tasks_def asleep_def)
  then show ?thesis
    by (rule touch_schedule_running [OF ok th cur al _ _ _ sch,
        where tt = "t\<lparr>wakeuptime := now + word_of_int (1000 * n), status := COROUTINE_SLEEP\<rparr>"])
      (simp_all add: asleep_def)
qed

lemma add_queue_effect:
  assumes ok: "state_ok s" and th: "thread_has s tid ep" and cur: "is_current s ep env c t"
    and al: "alive s" and add: "add_queue K tid fd ev s = Inr (r, s')"
  shows "effect W {} s s'"
proof -
  obtain n r' t' k where i: "interest K (epfd env) n ev (blocked_task n ev t) (kst s) = Inr (r', t', k)"
    and h: "heap s' = (heap s)(c \<mapsto> t')" and sim: "same_tasks s s'"
    by (rule add_queue_same_tasks [OF ok th cur add])
  have "touches c s s'" using sim h by (simp add: touches_def)
  moreover have "status t' = COROUTINE_WAIT" using interest_Inr [OF i] by (simp add: blocked_task_def)
  ultimately show ?thesis using h by (intro touches_effect [OF ok cur al, where t' = t']) simp_all
qed

lemma await_effect:
  assumes ok: "state_ok s" and th: "thread_has s tid ep" and cur: "is_current s ep env c t"
    and al: "alive s" and aw: "await K tid (Some c) fd ev s = Inr (ready, s')"
  shows "effect W {} s s' \<and> (ready \<longrightarrow> s' = s)"
proof (cases ready)
  case True
  with aw have "s' = s" by (auto elim: await_ready)
  with True mild_effect [OF mild_refl ok al] show ?thesis by simp
next
  case False
  let ?s = "s\<lparr>heap := (heap s)(c \<mapsto> t\<lparr>status := COROUTINE_WAIT\<rparr>)\<rparr>"
  have h: "heap s c = Some t" using cur by (simp add: is_current_def)
  obtain n where n: "fd_index fd = Inr n" using aw by (auto simp: await_def elim!: bnd_InrE)
  have sch: "schedule K tid ?s = Inr s'"
    using aw False by (auto simp: await_eq [OF h n] bnd_eq_Inr split: if_splits)
  have "touches c s ?s" using h by (simp add: touches_def same_tasks_upd)
  then have "effect W {} s s'"
    by (rule touch_schedule_running [OF ok th cur al _ _ _ sch,
        where tt = "t\<lparr>status := COROUTINE_WAIT\<rparr>"]) simp_all
  with False show ?thesis by simp
qed


lemma touches_context:
  assumes ok: "state_ok s" and th: "thread_has s tid ep" and cur: "is_current s ep env c t"
    and al: "alive s" and tc: "touches c s s'" and t': "heap s' c = Some t'"
      "status t' = COROUTINE_RUNNING \<or> status t' = COROUTINE_WAIT"
  shows "state_ok s'" "thread_has s' tid ep" "is_current s' ep env c t'" "alive s'" "effect W {} s s'"
proof -
  show eff: "effect W {} s s'" by (rule touches_effect [OF ok cur al tc t'])
  then show "state_ok s'" "alive s'" by (simp_all add: effect_defs)
  have sim: "same_tasks s s'" using tc by (simp add: touches_def)
  show "thread_has s' tid ep" using th same_tasks_thread [OF sim] by simp
  have "envs s' = envs s" using sim unfolding same_tasks_def by blast
  then show "is_current s' ep env c t'" using cur t'(1) by (simp add: is_current_def)
qed

text \<open>
  \<open>co_read\<close> and \<open>co_write\<close> mark the coroutine as waiting before they call \<open>add_queue\<close>;
  \<open>co_accept\<close> leaves it to \<open>add_queue\<close>.
\<close>

lemma wait_then_add_effect:
  assumes ok: "state_ok s" and th: "thread_has s tid ep" and cur: "is_current s ep env c t"
    and al: "alive s"
    and s1: "mod_task c (\<lambda>t. t\<lparr>status := COROUTINE_WAIT\<rparr>) s = Inr s1"
    and add: "add_queue K tid fd ev s1 = Inr (r, s')"
  shows "effect W {} s s'"
proof -
  let ?t = "t\<lparr>status := COROUTINE_WAIT\<rparr>"
  have h: "heap s c = Some t" using cur by (simp add: is_current_def)
  then have s1: "s1 = s\<lparr>heap := (heap s)(c \<mapsto> ?t)\<rparr>" using s1 by (auto simp: mod_task_eq_Inr)
  have tc: "touches c s s1" using h by (simp add: s1 touches_def same_tasks_upd)
  have c: "heap s1 c = Some ?t" "status ?t = COROUTINE_RUNNING \<or> status ?t = COROUTINE_WAIT"
    by (simp_all add: s1)
  note ctx = touches_context [OF ok th cur al tc c]
  from effect_trans [OF ctx(5) add_queue_effect [OF ctx(1-4) add]] show ?thesis by simp
qed

lemma enter_effect:
  assumes ok: "state_ok s" and th: "thread_has s tid ep" and cur: "is_current s ep env c t"
    and al: "alive s"
  shows "co_accept_enter K tid fd s = Inr (e, s') \<Longrightarrow>
      effect W {} s s' \<and> (\<forall>cur epf. e = Inr (cur, epf) \<longrightarrow> cur = Some c)" (is "?A \<Longrightarrow> ?P")
    and "co_read_enter K tid fd s = Inr (e, s') \<Longrightarrow>
      effect W {} s s' \<and> (\<forall>cur epf. e = Inr (cur, epf) \<longrightarrow> cur = Some c)" (is "?R \<Longrightarrow> ?P")
    and "co_write_enter K tid fd s = Inr (e, s') \<Longrightarrow>
      effect W {} s s' \<and> (\<forall>cur epf. e = Inr (cur, epf) \<longrightarrow> cur = Some c)" (is "?W \<Longrightarrow> ?P")
proof -
  have c: "envs s ep = Some env" "current env = Some c" using cur by (simp_all add: is_current_def)
  show ?P if ?A
    using that c add_queue_effect [OF ok th cur al]
    by (auto simp: co_accept_enter_def thread_has_get [OF th] get_env_def elim!: bnd_InrE split: if_splits)
  show ?P if ?R
    using that c wait_then_add_effect [OF ok th cur al]
    by (auto simp: co_read_enter_def thread_has_get [OF th] get_env_def nonnull_def elim!: bnd_InrE
        split: if_splits)
  show ?P if ?W
    using that c wait_then_add_effect [OF ok th cur al]
    by (auto simp: co_write_enter_def thread_has_get [OF th] get_env_def nonnull_def elim!: bnd_InrE
        split: if_splits)
qed

lemma syscall_effect:
  assumes "syscall f s = (r, s')" and "state_ok s" and "alive s"
  shows "effect W {} s s'"
  using mild_effect [OF syscall_mild [OF assms(1)] assms(2,3)] .

lemma await_then_effect:
  assumes ok: "state_ok s" and th: "thread_has s tid ep" and cur: "is_current s ep env c t"
    and al: "alive s" and aw: "await K tid (Some c) fd ev s = Inr (ready, s1)"
    and io: "if ready then syscall f s1 = (x, s') else s' = s1"
  shows "effect W {} s s'"
proof -
  note a = await_effect [OF ok th cur al aw]
  show ?thesis
  proof (cases ready)
    case True
    with a io show ?thesis by (auto intro: syscall_effect [OF _ ok al])
  next
    case False
    with a io show ?thesis by simp
  qed
qed

lemma co_accept_turn_effect:
  assumes "state_ok s" and "thread_has s tid ep" and "is_current s ep env c t" and "alive s"
    and "co_accept_turn K tid (Some c) fd s = Inr (r, s')"
  shows "effect W {} s s'"
proof -
  obtain ready s1 where aw: "await K tid (Some c) fd EPOLLIN s = Inr (ready, s1)"
      and io: "(if ready then case syscall (os_accept K fd) s1 of (ret, s) \<Rightarrow> Inr (Some ret, s)
        else Inr (None, s1)) = (Inr (r, s') :: fault + _)"
    using assms(5) unfolding co_accept_turn_def by (rule bnd_pairE)
  obtain x s2 where x: "syscall (os_accept K fd) s1 = (x, s2)" by fastforce
  show ?thesis
    by (rule await_then_effect [OF assms(1-4) aw, where f = "os_accept K fd" and x = x])
      (use io x in \<open>auto split: if_splits\<close>)
qed

lemma co_read_turn_effect:
  assumes "state_ok s" and "thread_has s tid ep" and "is_current s ep env c t" and "alive s"
    and "co_read_turn K tid (Some c) fd len s = Inr (r, s')"
  shows "effect W {} s s'"
proof -
  obtain ready s1 where aw: "await K tid (Some c) fd EPOLLIN s = Inr (ready, s1)"
      and io: "(if ready then case syscall (os_read K fd len) s1 of (ret, s) \<Rightarrow> Inr (Some ret, s)
        else Inr (None, s1)) = (Inr (r, s') :: fault + _)"
    using assms(5) unfolding co_read_turn_def by (rule bnd_pairE)
  obtain x s2 where x: "syscall (os_read K fd len) s1 = (x, s2)" by fastforce
  show ?thesis
    by (rule await_then_effect [OF assms(1-4) aw, where f = "os_read K fd len" and x = x])
      (use io x in \<open>auto split: if_splits\<close>)
qed


lemma co_write_turn_effect:
  assumes ok: "state_ok s" and th: "thread_has s tid ep" and cur: "is_current s ep env c t"
    and al: "alive s" and w: "co_write_turn K tid (Some c) epf fd len s = Inr (r, s')"
  shows "effect W {} s s'"
proof -
  obtain ready s1 where aw: "await K tid (Some c) fd EPOLLOUT s = Inr (ready, s1)"
    using w unfolding co_write_turn_def by (rule bnd_pairE)
  note a = await_effect [OF ok th cur al aw]
  show ?thesis
  proof (cases ready)
    case False
    with w aw a show ?thesis by (simp add: co_write_turn_def)
  next
    case True
    with a have s1: "s1 = s" by simp
    let ?f = "\<lambda>n t. t\<lparr>events := (events t)
        (n := (events t n)\<lparr>ev_events := ev_events (events t n) AND NOT EPOLLOUT\<rparr>),
      revents := (revents t)(n := revents t n AND NOT EPOLLOUT)\<rparr>"
    have "\<exists>n s2 k. mod_task c (?f n) s = Inr s2 \<and> s' = s2\<lparr>kst := k\<rparr>"
      using w aw True s1
      by (auto simp: co_write_turn_def nonnull_def syscall_def elim!: bnd_InrE split: prod.splits if_splits)
        fast+
    then obtain n s2 k where s2: "mod_task c (?f n) s = Inr s2" and sys: "s' = s2\<lparr>kst := k\<rparr>" by blast
    have h: "heap s c = Some t" using cur by (simp add: is_current_def)
    with s2 have s2: "s2 = s\<lparr>heap := (heap s)(c \<mapsto> ?f n t)\<rparr>" by (auto simp: mod_task_eq_Inr)
    have "touches c s s2" using h by (simp add: s2 touches_def same_tasks_upd)
    moreover have "status (?f n t) = COROUTINE_RUNNING \<or> status (?f n t) = COROUTINE_WAIT"
      using al cur by (auto simp: alive_but_def)
    ultimately have eff: "effect W {} s s2"
      by (intro touches_effect [OF ok cur al, where t' = "?f n t"]) (simp_all add: s2)
    moreover have "effect W {} s2 s'"
      unfolding sys by (rule mild_effect [OF kst_mild]) (use eff in \<open>simp_all add: effect_defs\<close>)
    ultimately show ?thesis using effect_trans by fastforce
  qed
qed

text \<open>The event loop wakes coroutines and schedules.\<close>

lemma handle_event_mild:
  assumes "handle_event ep ev s = Inr s'"
  shows "mild True s s'"
proof -
  obtain p t m where t: "heap s p = Some t"
      "s' = s\<lparr>queues := m, heap := (heap s)(p \<mapsto> wake_by ev t)\<rparr>"
    using assms
    by (auto simp: handle_event_def on_queues_eq_Inr mod_task_eq_Inr wake_by_def fd_index_eq_Inr
        map_upd_triv elim!: bnd_InrE split: if_splits)
  with handle_event_same_tasks [OF assms] show ?thesis by (auto simp: mild_def wake_by_def)
qed

lemma handle_events_mild: "foldE (handle_event ep) evs s = Inr s' \<Longrightarrow> mild True s s'"
  by (rule foldE_invariant [where P = "mild True s"]) (auto intro: mild_refl mild_trans handle_event_mild)

lemma co_eventloop_turn_mild:
  assumes "co_eventloop_turn K tid ep epf s = Inr s'"
  obtains s1 where "mild True s s1" and "schedule K tid s1 = Inr s'"
proof -
  obtain r k where r: "os_epoll_wait K epf (kst s) = (r, k)" by fastforce
  consider "r = Some []" | evs where "r = Some evs" "evs \<noteq> []"
    using assms r by (cases r) (auto simp: co_eventloop_turn_def syscall_def)
  then show thesis
  proof cases
    case 1
    with assms r that [OF kst_mild [where s = s and k = k]] show ?thesis by (simp add: co_eventloop_turn_def syscall_def)
  next
    case 2
    then obtain s1 where s1: "foldE (handle_event ep) evs (s\<lparr>kst := k\<rparr>) = Inr s1"
        "schedule K tid s1 = Inr s'"
      using assms r
      by (auto simp: co_eventloop_turn_def syscall_def bnd_eq_Inr simp del: foldE.simps
          split: list.splits if_splits)
    from mild_trans [OF kst_mild handle_events_mild [OF s1(1)]] s1(2) show ?thesis by (rule that)
  qed
qed

lemma mild_schedule_effect:
  assumes ok: "state_ok s" and th: "thread_has s tid ep" and cur: "is_current s ep env c t"
    and al: "alive s" and m: "mild W s s1" and s': "schedule K tid s1 = Inr s'"
  shows "effect W {} s s'"
proof -
  have sim: "same_tasks s s1" using m by (simp add: mild_def)
  have ok1: "state_ok s1" using sim ok by (rule state_ok_same_tasks)
  have th1: "thread_has s1 tid ep" using th same_tasks_thread [OF sim] by simp
  obtain t1 where cur1: "is_current s1 ep env c t1" by (rule same_tasks_current [OF sim cur])
  have "effect W {} s1 s'"
    by (rule schedule_effect [OF ok1 th1 cur1 alive_weaken [OF mild_alive [OF m al]] s'])
  with effect_trans [OF mild_effect [OF m ok al]] show ?thesis by fastforce
qed

lemma co_eventloop_turn_effect:
  assumes "state_ok s" and "thread_has s tid ep" and "is_current s ep env c t" and "alive s"
    and "co_eventloop_turn K tid ep epf s = Inr s'"
  shows "effect True {} s s'"
  using assms(5)
proof (rule co_eventloop_turn_mild)
  fix s1 assume "mild True s s1" "schedule K tid s1 = Inr s'"
  then show ?thesis by (rule mild_schedule_effect [OF assms(1-4)])
qed

text \<open>The end of a coroutine: only this one exits.\<close>

lemma start_finish_effect:
  assumes ok: "state_ok s" and th: "thread_has s tid ep" and cur: "is_current s ep env c t"
    and al: "alive s" and s': "start_finish K tid c s = Inr s'"
  shows "effect W {c} s s'"
proof -
  obtain s1 where s1: "start_cleanup K c s = Inr s1" "schedule K tid s1 = Inr s'"
    using s' unfolding start_finish_def by (rule bnd_InrE)
  have "same_tasks s s1 \<and> heap s1 = (heap s)(c \<mapsto> t\<lparr>status := COROUTINE_EXIT, fds_idx := 0\<rparr>)"
    by (rule start_cleanup_Inr [OF is_currentD(3) [OF ok cur] s1(1)])
  then have "touches c s s1" by (simp add: touches_def)
  then show ?thesis by (rule touch_schedule_effect [OF ok th cur al _ s1(2)])
qed


text \<open>A new environment comes with a running main coroutine, a new coroutine is runnable.\<close>

lemma get_thread_env_evolves:
  assumes ok: "state_ok s" and al: "alive s" and "co_get_thread_env K tid s = Inr (ep, s')"
  obtains env c t where "evolves W {} s s'" and "thread_has s' tid ep" and "is_current s' ep env c t"
    and "heap s c = None \<and> status t = COROUTINE_RUNNING \<or> s' = s"
    and "dom (heap s') = insert c (dom (heap s))"
  using assms(3)
proof (cases rule: co_get_thread_env_cases)
  case known
  obtain env where env: "envs s ep = Some env" using thread_has_env [OF ok known(1)] by blast
  obtain c t where c: "is_current s ep env c t"
    by (rule state_ok_current [OF ok env]) (use env in \<open>auto simp: is_current_def\<close>)
  have "evolves W {} s s" using mild_effect [OF mild_refl ok al] by (simp add: effect_def)
  moreover have "c \<in> dom (heap s)" using c by (auto simp: is_current_def)
  ultimately show thesis using known c by (intro that) auto
next
  case (created slot fd k)
  let ?m = "brk s + 1"
  let ?env = "\<lparr>task_count = 1, current = Some ?m, epfd = fd, task = [0 \<mapsto> ?m]\<rparr>"
  have ok': "state_ok s'" using state_ok_get_thread_env [OF assms(3) ok] .
  have h: "heap s' = (heap s)(?m \<mapsto> zero_task\<lparr>thread_env := Some (brk s)\<rparr>)"
    and e: "envs s' = (envs s)(brk s \<mapsto> ?env)"
    by (simp_all add: created with_new_env_def)
  have new: "is_current s' (brk s) ?env ?m (zero_task\<lparr>thread_env := Some (brk s)\<rparr>)"
    by (simp add: is_current_def h e)
  have fresh: "heap s ?m = None"
    using state_ok_heap [OF ok, of ?m] by (cases "heap s ?m") auto
  have "alive s'"
    unfolding alive_but_def
  proof (intro allI impI)
    fix e' env' c t assume c: "is_current s' e' env' c t"
    show "status t = COROUTINE_RUNNING \<or> status t = COROUTINE_WAIT"
    proof (cases "e' = brk s")
      case True
      with c new show ?thesis by (auto simp: is_current_def zero_task_def)
    next
      case False
      then have E: "envs s e' = Some env'" using c by (simp add: is_current_def e)
      obtain c0 t0 where "current env' = Some c0" "heap s c0 = Some t0"
        by (rule state_ok_current [OF ok E])
      with c fresh have "is_current s e' env' c t" using E by (auto simp: is_current_def h split: if_splits)
      with al show ?thesis by (auto simp: alive_but_def)
    qed
  qed
  moreover have "exits_in {} s s'" by (auto simp: exits_in_def h zero_task_def)
  moreover have "stays W s s'" using fresh by (auto simp: stays_def h)
  ultimately have "evolves W {} s s'" using ok' by (simp add: evolves_def)
  with new fresh co_get_thread_env_has [OF assms(3)] created(3) show thesis
    by (intro that) (auto simp: h zero_task_def)
qed

lemma co_create_evolves:
  assumes ok: "state_ok s" and th: "thread_has s tid ep" and cur: "is_current s ep env c t"
    and al: "alive s" and r: "co_create K tid nn fn a s = Inr (r, out, s')"
  shows "evolves W {} s s' \<and>
    (if r = 0 then dom (heap s') = insert (brk s) (dom (heap s)) \<and> brk s \<notin> dom (heap s) else s' = s)"
proof -
  have env: "envs s ep = Some env" using cur by (simp add: is_current_def)
  have ok': "state_ok s'" by (rule co_create_state_ok [OF ok r])
  have fresh: "heap s (brk s) = None"
    using state_ok_heap [OF ok, of "brk s"] by (cases "heap s (brk s)") auto
  show ?thesis
  proof (cases "free_slot env 0 = NR_TASKS")
    case True
    with r have "s' = s" "r \<noteq> 0" by (simp_all add: co_create_eq [OF th env])
    with mild_effect [OF mild_refl ok al] show ?thesis by (simp add: effect_def)
  next
    case False
    let ?i = "free_slot env 0"
    obtain k where s': "r = 0" "s' = with_new_task (os_arch K) ep env ?i fn a k s"
      using r False by (auto simp: co_create_eq [OF th env] split: prod.splits if_splits)
    let ?t = "new_task (os_arch K) (brk s) ?i fn a ep"
    have h: "heap s' = (heap s)(brk s \<mapsto> ?t)" by (simp add: s' with_new_task_def)
    have "alive s'"
      unfolding alive_but_def
    proof (intro allI impI)
      fix e env' p tp assume p: "is_current s' e env' p tp"
      then obtain env0 where e0: "envs s e = Some env0" "current env0 = current env'"
        using env by (auto simp: is_current_def s' with_new_task_def split: if_splits)
      obtain c0 t0 where "current env0 = Some c0" "heap s c0 = Some t0"
        by (rule state_ok_current [OF ok e0(1)])
      with p e0 fresh have "is_current s e env0 p tp" by (auto simp: is_current_def h split: if_splits)
      with al show "status tp = COROUTINE_RUNNING \<or> status tp = COROUTINE_WAIT"
        by (auto simp: alive_but_def)
    qed
    moreover have "exits_in {} s s'" by (auto simp: exits_in_def h)
    moreover have "stays W s s'" using fresh by (auto simp: stays_def h)
    ultimately show ?thesis using ok' fresh s'(1) by (auto simp: evolves_def h)
  qed
qed

text \<open>
  A turn of \<open>co_join\<close>: until the coroutine has exited nothing happens but \<open>schedule\<close>, then its
  block is freed.
\<close>

lemma co_join_turn_evolves:
  assumes ok: "state_ok s" and th: "thread_has s tid ep" and cur: "is_current s ep env c t"
    and al: "alive s" and r: "co_join_turn K tid ep cid s = Inr (finished, s')"
  shows "evolves W {} s s' \<and>
    (if finished
     then \<exists>p tp. heap s p = Some tp \<and> status tp = COROUTINE_EXIT \<and> p \<noteq> c \<and> heap s' = (heap s)(p := None)
     else dom (heap s') = dom (heap s))"
proof -
  note c = is_currentD [OF ok cur]
  obtain p where cid: "0 \<le> cid" "cid < int NR_TASKS" "task env (nat cid) = Some p"
    using r c(1) by (auto simp: co_join_turn_def get_env_def elim!: bnd_InrE split: if_splits)
  obtain tp where tp: "heap s p = Some tp" "thread_env tp = Some ep"
    by (rule state_ok_entry [OF ok c(1) cid(3)])
  note eq = co_join_turn_eq [OF c(1) cid tp(1), of K tid]
  show ?thesis
  proof (cases "status tp = COROUTINE_EXIT")
    case False
    with r eq have "\<not> finished" "schedule K tid s = Inr s'" by (auto simp: bnd_eq_Inr)
    with schedule_effect [OF ok th cur alive_weaken [OF al]] show ?thesis by (simp add: effect_def)
  next
    case True
    with r eq have s': "finished" "s' = without_task ep env (nat cid) p s" by auto
    have ne: "p \<noteq> c" using True tp(1) c(3) alive_current [OF al cur] by auto
    have ok': "state_ok s'"
      unfolding s' by (rule state_ok_without_task [OF ok c(1) cid(3)]) (use ne c(2) in simp)
    have h: "heap s' = (heap s)(p := None)" by (simp add: s' without_task_def)
    have "alive s'"
      unfolding alive_but_def
    proof (intro allI impI)
      fix e env' q tq assume q: "is_current s' e env' q tq"
      then obtain env0 where "envs s e = Some env0" "current env0 = current env'"
        using c(1) by (auto simp: is_current_def s' without_task_def split: if_splits)
      with q have "is_current s e env0 q tq" by (auto simp: is_current_def h split: if_splits)
      with al show "status tq = COROUTINE_RUNNING \<or> status tq = COROUTINE_WAIT"
        by (auto simp: alive_but_def)
    qed
    moreover have "exits_in {} s s'" "stays W s s'" by (auto simp: exits_in_def stays_def h)
    ultimately have "evolves W {} s s'" using ok' by (simp add: evolves_def)
    with True ne tp(1) s'(1) h show ?thesis by auto
  qed
qed

end
