(* ===== verification/Machine.thy ===== *)
theory Machine
  imports Effects
begin

text \<open>
  The whole library at work: threads whose coroutines run arbitrary user programs over the calls of
  the library. A coroutine that has been switched out is kept as a continuation, which says where
  inside which library function it will go on. One step lets one thread run from one library call
  to the next.
\<close>

section \<open>User programs and continuations\<close>

text \<open>
  A user program is a possibly infinite tree of library calls: what it does next may depend on the
  results it was given. \<open>Abort\<close> stops the process by a call of \<open>exit\<close> or by a
  fault of the program's own, \<open>Return\<close> is the end of the function.
\<close>

codatatype prog =
    Sleep int prog
  | Create voidp voidp "int \<Rightarrow> nat option \<Rightarrow> prog"
  | Join int prog
  | Accept int "int \<Rightarrow> prog"
  | Read int nat "int \<Rightarrow> prog"
  | Write int nat "int \<Rightarrow> prog"
  | EventLoop
  | Abort fault
  | Return

text \<open>
  Where a coroutine goes on: in its program, in the loop of \<open>co_join\<close>, in the waiting loops of
  \<open>co_accept\<close>, \<open>co_read\<close> and \<open>co_write\<close>, in the loop of \<open>co_eventloop\<close>, or after the last
  \<open>schedule\<close> of \<open>start\<close>.
\<close>

datatype kont =
    KUser prog
  | KJoin envp int prog
  | KAccept "taskp option" int "int \<Rightarrow> prog"
  | KRead "taskp option" int nat "int \<Rightarrow> prog"
  | KWrite "taskp option" int int nat "int \<Rightarrow> prog"
  | KLoop envp int
  | KDead

type_synonym konts = "taskp \<Rightarrow> kont option"

section \<open>One turn\<close>

text \<open>A call of the library by the program of the coroutine \<open>c\<close>.\<close>

fun call ::
  "'k os \<Rightarrow> (voidp \<Rightarrow> voidp \<Rightarrow> prog) \<Rightarrow> int \<Rightarrow> taskp \<Rightarrow> prog \<Rightarrow> 'k co_state \<Rightarrow> konts \<Rightarrow>
   fault + ('k co_state \<times> konts)" where
  "call K code tid c (Sleep n p) s C =
     bnd (co_sleep K tid n s) (\<lambda>s. Inr (s, C(c \<mapsto> KUser p)))"
| "call K code tid c (Create fn a f) s C =
     bnd (co_create K tid True fn a s) (\<lambda>(r, out, s').
     Inr (s', if r = 0
              then C(c \<mapsto> KUser (f r out), brk s \<mapsto> KUser (code fn a))
              else C(c \<mapsto> KUser (f r out))))"
| "call K code tid c (Join cid p) s C =
     bnd (co_join K tid cid s) (\<lambda>(ep, finished, s).
     Inr (s, \<lambda>q. if heap s q = None then None
                  else (C(c \<mapsto> if finished then KUser p else KJoin ep cid p)) q))"
| "call K code tid c (Accept fd f) s C =
     bnd (co_accept_enter K tid fd s) (\<lambda>(e, s).
     Inr (s, C(c \<mapsto> (case e of Inl r \<Rightarrow> KUser (f r) | Inr (cur, epf) \<Rightarrow> KAccept cur fd f))))"
| "call K code tid c (Read fd len f) s C =
     bnd (co_read_enter K tid fd s) (\<lambda>(e, s).
     Inr (s, C(c \<mapsto> (case e of Inl r \<Rightarrow> KUser (f r) | Inr (cur, epf) \<Rightarrow> KRead cur fd len f))))"
| "call K code tid c (Write fd len f) s C =
     bnd (co_write_enter K tid fd s) (\<lambda>(e, s).
     Inr (s, C(c \<mapsto> (case e of Inl r \<Rightarrow> KUser (f r) | Inr (cur, epf) \<Rightarrow> KWrite cur epf fd len f))))"
| "call K code tid c EventLoop s C =
     bnd (co_eventloop_enter K tid s) (\<lambda>(ep, epf, s). Inr (s, C(c \<mapsto> KLoop ep epf)))"
| "call K code tid c (Abort f) s C = Inl f"
| "call K code tid c Return s C =
     bnd (get_task c s) (\<lambda>t.
     if tsk_id t = 0 then Inr (s, C(c \<mapsto> KUser Return))
     else bnd (start_finish K tid c s) (\<lambda>s. Inr (s, C(c \<mapsto> KDead))))"

text \<open>
  The coroutine \<open>c\<close> goes on at \<open>k\<close>. The main coroutine whose program has returned stays where it
  is: its thread is over.
\<close>

fun resume ::
  "'k os \<Rightarrow> (voidp \<Rightarrow> voidp \<Rightarrow> prog) \<Rightarrow> int \<Rightarrow> taskp \<Rightarrow> kont \<Rightarrow> 'k co_state \<Rightarrow> konts \<Rightarrow>
   fault + ('k co_state \<times> konts)" where
  "resume K code tid c (KUser p) s C = call K code tid c p s C"
| "resume K code tid c (KJoin ep cid p) s C =
     bnd (co_join_turn K tid ep cid s) (\<lambda>(finished, s).
     Inr (s, \<lambda>q. if heap s q = None then None
                  else (C(c \<mapsto> if finished then KUser p else KJoin ep cid p)) q))"
| "resume K code tid c (KAccept cur fd f) s C =
     bnd (co_accept_turn K tid cur fd s) (\<lambda>(r, s).
     Inr (s, C(c \<mapsto> (case r of None \<Rightarrow> KAccept cur fd f | Some v \<Rightarrow> KUser (f v)))))"
| "resume K code tid c (KRead cur fd len f) s C =
     bnd (co_read_turn K tid cur fd len s) (\<lambda>(r, s).
     Inr (s, C(c \<mapsto> (case r of None \<Rightarrow> KRead cur fd len f | Some v \<Rightarrow> KUser (f v)))))"
| "resume K code tid c (KWrite cur epf fd len f) s C =
     bnd (co_write_turn K tid cur epf fd len s) (\<lambda>(r, s).
     Inr (s, C(c \<mapsto> (case r of None \<Rightarrow> KWrite cur epf fd len f | Some v \<Rightarrow> KUser (f v)))))"
| "resume K code tid c (KLoop ep epf) s C =
     bnd (co_eventloop_turn K tid ep epf s) (\<lambda>s. Inr (s, C(c \<mapsto> KLoop ep epf)))"
| "resume K code tid c KDead s C = bnd (start_fatal s) (\<lambda>s. Inr (s, C))"

text \<open>
  The thread \<open>tid\<close> runs its current coroutine. Its first call of the library makes its
  environment; its main coroutine then runs the program \<open>mains tid\<close>.
\<close>

definition turn ::
  "'k os \<Rightarrow> (voidp \<Rightarrow> voidp \<Rightarrow> prog) \<Rightarrow> (int \<Rightarrow> prog) \<Rightarrow> int \<Rightarrow> 'k co_state \<times> konts \<Rightarrow>
   fault + ('k co_state \<times> konts)" where
  "turn K code mains tid = (\<lambda>(s, C).
     bnd (co_get_thread_env K tid s) (\<lambda>(ep, s).
     bnd (get_env ep s) (\<lambda>env.
     bnd (nonnull (current env)) (\<lambda>c.
     resume K code tid c (case C c of None \<Rightarrow> KUser (mains tid) | Some k \<Rightarrow> k) s C))))"

section \<open>Executions\<close>

inductive step ::
  "'k os \<Rightarrow> (voidp \<Rightarrow> voidp \<Rightarrow> prog) \<Rightarrow> (int \<Rightarrow> prog) \<Rightarrow> 'k co_state \<times> konts \<Rightarrow> 'k co_state \<times> konts \<Rightarrow> bool"
  for K code mains where
  turn: "turn K code mains tid w = Inr w' \<Longrightarrow> step K code mains w w'"

inductive reachable ::
  "'k os \<Rightarrow> (voidp \<Rightarrow> voidp \<Rightarrow> prog) \<Rightarrow> (int \<Rightarrow> prog) \<Rightarrow> 'k co_state \<times> konts \<Rightarrow> bool"
  for K code mains where
  start: "reachable K code mains (init_state k, \<lambda>_. None)"
| further: "reachable K code mains w \<Longrightarrow> step K code mains w w' \<Longrightarrow> reachable K code mains w'"

inductive_cases stepE: "step K code mains w w'"

end
