(* ===== verification/Executions.thy ===== *)
theory Executions
  imports Machine
begin

text \<open>
  The invariant of whole executions: whatever programs the coroutines of the threads run, every
  reachable state of the process is sound, every control block has a continuation that fits it,
  and the coroutines that have exited are exactly parked at the end of \<open>start\<close>.
\<close>

section \<open>Configurations\<close>

text \<open>
  A continuation fits the coroutine \<open>p\<close>: the local \<open>current\<close> of a blocked call is the coroutine
  itself, and the local \<open>thread_env\<close> of \<open>co_join\<close> and \<open>co_eventloop\<close> is its environment.
\<close>

definition belongs :: "'k co_state \<Rightarrow> taskp \<Rightarrow> envp \<Rightarrow> bool" where
  "belongs s p ep \<longleftrightarrow> (\<exists>t. heap s p = Some t \<and> thread_env t = Some ep)"

fun kont_typed :: "'k co_state \<Rightarrow> taskp \<Rightarrow> kont \<Rightarrow> bool" where
  "kont_typed s p (KUser _) = True"
| "kont_typed s p (KJoin ep _ _) = belongs s p ep"
| "kont_typed s p (KAccept cur _ _) = (cur = Some p)"
| "kont_typed s p (KRead cur _ _ _) = (cur = Some p)"
| "kont_typed s p (KWrite cur _ _ _ _) = (cur = Some p)"
| "kont_typed s p (KLoop ep _) = belongs s p ep"
| "kont_typed s p KDead = True"

text \<open>
  The invariant up to the coroutine \<open>c\<close>, which may not have a continuation yet.
\<close>

definition config_but :: "taskp set \<Rightarrow> 'k co_state \<Rightarrow> konts \<Rightarrow> bool" where
  "config_but N s C \<longleftrightarrow>
     state_ok s \<and> alive s \<and> dom C \<subseteq> dom (heap s) \<and> dom (heap s) \<subseteq> dom C \<union> N \<and>
     (\<forall>p k. C p = Some k \<longrightarrow> kont_typed s p k) \<and>
     (\<forall>p t. heap s p = Some t \<longrightarrow> status t = COROUTINE_EXIT \<longrightarrow> C p = Some KDead)"

abbreviation config_ok :: "'k co_state \<times> konts \<Rightarrow> bool" where
  "config_ok w \<equiv> config_but {} (fst w) (snd w)"

lemma belongs_stays:
  assumes "belongs s p ep" and "stays W s s'" and "p \<in> dom (heap s')"
  shows "belongs s' p ep"
proof -
  obtain t t' where t: "heap s p = Some t" "thread_env t = Some ep" "heap s' p = Some t'"
    using assms(1,3) unfolding belongs_def by blast
  with staysD(1) [OF assms(2) t(1,3)] show ?thesis unfolding belongs_def by auto
qed

lemma kont_typed_stays:
  assumes "kont_typed s p k" and "stays W s s'" and "p \<in> dom (heap s')"
  shows "kont_typed s' p k"
  using assms(1) by (cases k) (simp_all add: belongs_stays [OF _ assms(2,3)])

text \<open>The blocks \<open>F\<close> go, the blocks \<open>N\<close> come: the continuations follow.\<close>

lemma domains_agree:
  assumes ok: "config_but {c} s C" and dom: "dom (heap s') = (dom (heap s) - F) \<union> N" "c \<in> dom (heap s')"
    and N: "\<And>p. p \<in> N \<Longrightarrow> \<exists>f. C' p = Some (KUser f)"
    and C': "C' c = Some k" "\<And>p. p \<in> F \<Longrightarrow> C' p = None"
      "\<And>p. p \<noteq> c \<Longrightarrow> p \<notin> F \<Longrightarrow> p \<notin> N \<Longrightarrow> C' p = C p"
  shows "C' p \<noteq> None \<longleftrightarrow> heap s' p \<noteq> None"
proof (cases "p = c")
  case True
  with dom(2) C'(1) show ?thesis by auto
next
  case False
  have old: "C p \<noteq> None \<longleftrightarrow> heap s p \<noteq> None" using ok False unfolding config_but_def by auto
  have h: "heap s' p \<noteq> None \<longleftrightarrow> heap s p \<noteq> None \<and> p \<notin> F \<or> p \<in> N" using dom(1) by (auto simp: domIff set_eq_iff)
  consider "p \<in> N" | "p \<notin> N" "p \<in> F" | "p \<notin> N" "p \<notin> F" by blast
  then show ?thesis
  proof cases
    case 1
    then show ?thesis using h N by fastforce
  next
    case 2
    then show ?thesis using h C'(2) by simp
  next
    case 3
    then show ?thesis using h C'(3) old False by simp
  qed
qed

lemma config_evolves:
  assumes ok: "config_but {c} s C" and ev: "evolves W X s s'"
    and X: "X = {} \<or> X = {c} \<and> k = KDead"
    and dom: "dom (heap s') = (dom (heap s) - F) \<union> N" "c \<in> dom (heap s')"
    and N: "N \<inter> dom (heap s) = {}" "\<And>p. p \<in> N \<Longrightarrow> \<exists>f. C' p = Some (KUser f)"
    and C': "C' c = Some k" "\<And>p. p \<in> F \<Longrightarrow> C' p = None"
      "\<And>p. p \<noteq> c \<Longrightarrow> p \<notin> F \<Longrightarrow> p \<notin> N \<Longrightarrow> C' p = C p"
    and k: "kont_typed s' c k"
    and c: "\<And>t. heap s c = Some t \<Longrightarrow> status t \<noteq> COROUTINE_EXIT"
  shows "config_ok (s', C')"
proof -
  have same: "C' p \<noteq> None \<longleftrightarrow> heap s' p \<noteq> None" for p by (rule domains_agree [OF ok dom N(2) C'])
  have typed: "kont_typed s' p k'" if p: "C' p = Some k'" for p k'
  proof (cases "p = c \<or> p \<in> N")
    case True
    then show ?thesis using p k C'(1) N(2) [of p] by auto
  next
    case False
    then have "p \<notin> F" using p C'(2) [of p] by auto
    with False p C'(3) have "C p = Some k'" by simp
    then have "kont_typed s p k'" using ok unfolding config_but_def by blast
    moreover have "p \<in> dom (heap s')" using same p by auto
    ultimately show ?thesis using ev kont_typed_stays unfolding evolves_def by blast
  qed
  have dead: "C' p = Some KDead" if p: "heap s' p = Some t" "status t = COROUTINE_EXIT" for p t
  proof -
    have "p \<in> X \<or> (\<exists>t. heap s p = Some t \<and> status t = COROUTINE_EXIT)"
      using ev p unfolding evolves_def exits_in_def by blast
    then show ?thesis
    proof (elim disjE exE conjE)
      assume "p \<in> X"
      then show ?thesis using X C'(1) by auto
    next
      fix t0 assume t0: "heap s p = Some t0" "status t0 = COROUTINE_EXIT"
      then have "C p = Some KDead" using ok unfolding config_but_def by blast
      moreover have "p \<noteq> c" using c t0 by auto
      moreover have "p \<notin> F" using C'(2) [of p] same [of p] p(1) by auto
      moreover have "p \<notin> N" using N(1) t0(1) by auto
      ultimately show ?thesis using C'(3) by simp
    qed
  qed
  have "dom C' = dom (heap s')" using same by (auto simp: domIff)
  with ev typed dead show ?thesis unfolding config_but_def evolves_def by simp
qed


lemma config_effect:
  assumes ok: "config_but {c} s C" and cur: "is_current s ep env c t" and e: "effect W X s s'"
    and X: "X = {} \<or> X = {c} \<and> k = KDead" and k: "kont_typed s' c k"
  shows "config_ok (s', C(c \<mapsto> k))"
proof (rule config_evolves [OF ok _ X, where W = W and F = "{}" and N = "{}"])
  show "status t0 \<noteq> COROUTINE_EXIT" if "heap s c = Some t0" for t0
  proof -
    have "alive s" using ok by (simp add: config_but_def)
    from alive_current [OF this cur] that cur show ?thesis by (auto simp: is_current_def)
  qed
  show "c \<in> dom (heap s')" using e cur by (auto simp: effect_def is_current_def)
qed (use e k in \<open>simp_all add: effect_def\<close>)

lemma belongs_current:
  assumes "state_ok s" and "is_current s ep env c t" and "stays W s s'" and "c \<in> dom (heap s')"
  shows "belongs s' c ep"
  by (rule belongs_stays [OF _ assms(3,4)]) (simp add: belongs_def is_currentD(3,6) [OF assms(1,2)])

section \<open>The kinds of turns\<close>

fun looping :: "kont \<Rightarrow> bool" where
  "looping (KLoop _ _) = True"
| "looping _ = False"

text \<open>
  Where the coroutine \<open>c\<close> of the thread with the environment \<open>ep\<close> can be after a turn that neither
  creates, joins nor ends: behind the call, or in the loop of a call that blocks.
\<close>

inductive continues :: "taskp \<Rightarrow> envp \<Rightarrow> kont \<Rightarrow> kont \<Rightarrow> bool" for c ep where
  Sleep: "continues c ep (KUser (Sleep n p)) (KUser p)"
| Accept: "k \<in> {KUser (Accept fd f), KAccept (Some c) fd f} \<Longrightarrow> k' \<in> {KAccept (Some c) fd f, KUser (f r)} \<Longrightarrow>
    continues c ep k k'"
| Read: "k \<in> {KUser (Read fd len f), KRead (Some c) fd len f} \<Longrightarrow> k' \<in> {KRead (Some c) fd len f, KUser (f r)} \<Longrightarrow>
    continues c ep k k'"
| Write: "k \<in> {KUser (Write fd len f), KWrite (Some c) epf' fd len f} \<Longrightarrow>
    k' \<in> {KWrite (Some c) epf fd len f, KUser (f r)} \<Longrightarrow> continues c ep k k'"
| Loop: "k \<in> {KUser EventLoop, KLoop ep epf} \<Longrightarrow> continues c ep k (KLoop ep epf)"
| Return: "continues c ep (KUser Return) (KUser Return)"

text \<open>The coroutine \<open>c\<close> goes on; no control block comes or goes and nothing exits.\<close>

definition moved :: "taskp \<Rightarrow> envp \<Rightarrow> kont \<Rightarrow> 'k co_state \<Rightarrow> konts \<Rightarrow> 'k co_state \<times> konts \<Rightarrow> bool" where
  "moved c ep k s C w \<longleftrightarrow>
     (\<exists>s' k'. w = (s', C(c \<mapsto> k')) \<and> effect (looping k) {} s s' \<and> continues c ep k k')"

lemma enters_moved:
  assumes cx: "state_ok s" "thread_has s tid ep" "is_current s ep env c t" "alive s"
    and r: "call K code tid c p s C = Inr w"
    and p: "(\<exists>fd f. p = Accept fd f) \<or> (\<exists>fd len f. p = Read fd len f) \<or> (\<exists>fd len f. p = Write fd len f)"
  shows "moved c ep (KUser p) s C w"
  using p
proof (elim disjE exE)
  fix fd f assume p: "p = Accept fd f"
  with r obtain e s' where e: "co_accept_enter K tid fd s = Inr (e, s')"
    "w = (s', C(c \<mapsto> (case e of Inl r \<Rightarrow> KUser (f r) | Inr (cur, epf) \<Rightarrow> KAccept cur fd f)))"
    by (auto elim!: bnd_InrE)
  with enter_effect(1) [OF cx e(1)] show ?thesis
    unfolding moved_def p by (fastforce intro: continues.Accept split: sum.split)
next
  fix fd len f assume p: "p = Read fd len f"
  with r obtain e s' where e: "co_read_enter K tid fd s = Inr (e, s')"
    "w = (s', C(c \<mapsto> (case e of Inl r \<Rightarrow> KUser (f r) | Inr (cur, epf) \<Rightarrow> KRead cur fd len f)))"
    by (auto elim!: bnd_InrE)
  with enter_effect(2) [OF cx e(1)] show ?thesis
    unfolding moved_def p by (fastforce intro: continues.Read split: sum.split)
next
  fix fd len f assume p: "p = Write fd len f"
  with r obtain e s' where e: "co_write_enter K tid fd s = Inr (e, s')"
    "w = (s', C(c \<mapsto> (case e of Inl r \<Rightarrow> KUser (f r) | Inr (cur, epf) \<Rightarrow> KWrite cur epf fd len f)))"
    by (auto elim!: bnd_InrE)
  with enter_effect(3) [OF cx e(1)] show ?thesis
    unfolding moved_def p by (fastforce intro: continues.Write split: sum.split)
qed


text \<open>
  The four kinds of turns: the coroutine goes on, it creates another one, it looks at one that it
  joins, or it ends.
\<close>

lemma call_cases:
  assumes cx: "state_ok s" "thread_has s tid ep" "is_current s ep env c t" "alive s"
    and r: "call K code tid c p s C = Inr w"
  obtains (moves) "moved c ep (KUser p) s C w"
  | (creates) fn a f ret out s' where "p = Create fn a f" "co_create K tid True fn a s = Inr (ret, out, s')"
      "w = (s', if ret = 0 then C(c \<mapsto> KUser (f ret out), brk s \<mapsto> KUser (code fn a))
        else C(c \<mapsto> KUser (f ret out)))"
  | (joins) cid q fin s' where "p = Join cid q" "co_join_turn K tid ep cid s = Inr (fin, s')"
      "w = (s', \<lambda>x. if heap s' x = None then None else (C(c \<mapsto> if fin then KUser q else KJoin ep cid q)) x)"
  | (ends) s' where "p = Return" "0 < tsk_id t" "start_finish K tid c s = Inr s'" "w = (s', C(c \<mapsto> KDead))"
proof (cases p)
  case (Sleep n q)
  with r obtain s' where "co_sleep K tid n s = Inr s'" "w = (s', C(c \<mapsto> KUser q))" by (auto elim!: bnd_InrE)
  with co_sleep_effect [OF cx] Sleep show thesis
    by (intro moves) (auto simp: moved_def intro: continues.Sleep)
next
  case (Create fn a f)
  with r creates show thesis by (auto elim!: bnd_InrE)
next
  case (Join cid q)
  with r obtain e fin s' where j: "co_join K tid cid s = Inr (e, fin, s')"
    "w = (s', \<lambda>x. if heap s' x = None then None else (C(c \<mapsto> if fin then KUser q else KJoin e cid q)) x)"
    by (auto elim!: bnd_InrE)
  then have "e = ep" "co_join_turn K tid ep cid s = Inr (fin, s')"
    by (auto simp: co_join_def thread_has_get [OF cx(2)] elim!: bnd_InrE)
  with joins Join j(2) show thesis by blast
next
  case EventLoop
  with r obtain epf where "w = (s, C(c \<mapsto> KLoop ep epf))"
    by (auto simp: co_eventloop_enter_def thread_has_get [OF cx(2)] elim!: bnd_InrE)
  with mild_effect [OF mild_refl cx(1,4)] EventLoop show thesis
    by (intro moves) (auto simp: moved_def intro: continues.Loop)
next
  case Return
  have t: "get_task c s = Inr t" using cx(3) by (simp add: is_current_def get_task_def)
  show thesis
  proof (cases "tsk_id t = 0")
    case True
    with r Return t have "w = (s, C(c \<mapsto> KUser Return))" by simp
    with mild_effect [OF mild_refl cx(1,4)] Return show thesis
      by (intro moves) (auto simp: moved_def intro: continues.Return)
  next
    case False
    with r Return t ends show thesis by (auto elim!: bnd_InrE)
  qed
qed (use r enters_moved [OF cx r] moves in auto)

lemma resume_cases:
  assumes cx: "state_ok s" "thread_has s tid ep" "is_current s ep env c t" "alive s"
    and k: "kont_typed s c k" and r: "resume K code tid c k s C = Inr w"
  obtains (moves) "moved c ep k s C w"
  | (creates) fn a f ret out s' where "k = KUser (Create fn a f)" "co_create K tid True fn a s = Inr (ret, out, s')"
      "w = (s', if ret = 0 then C(c \<mapsto> KUser (f ret out), brk s \<mapsto> KUser (code fn a))
        else C(c \<mapsto> KUser (f ret out)))"
  | (joins) cid q fin s' where "k = KUser (Join cid q) \<or> k = KJoin ep cid q"
      "co_join_turn K tid ep cid s = Inr (fin, s')"
      "w = (s', \<lambda>x. if heap s' x = None then None else (C(c \<mapsto> if fin then KUser q else KJoin ep cid q)) x)"
  | (ends) s' where "k = KUser Return" "0 < tsk_id t" "start_finish K tid c s = Inr s'" "w = (s', C(c \<mapsto> KDead))"
proof (cases k)
  case (KUser p)
  with r have "call K code tid c p s C = Inr w" by simp
  then show thesis
    by (cases rule: call_cases [OF cx]) (use KUser moves creates joins ends in auto)
next
  case (KJoin e cid q)
  with k have "e = ep" using is_currentD(3,6) [OF cx(1,3)] by (auto simp: belongs_def)
  with r KJoin joins show thesis by (auto elim!: bnd_InrE)
next
  case (KAccept u fd f)
  with k r co_accept_turn_effect [OF cx] show thesis
    by (intro moves) (fastforce simp: moved_def elim!: bnd_InrE intro: continues.Accept split: option.split)
next
  case (KRead u fd len f)
  with k r co_read_turn_effect [OF cx] show thesis
    by (intro moves) (fastforce simp: moved_def elim!: bnd_InrE intro: continues.Read split: option.split)
next
  case (KWrite u epf fd len f)
  with k r co_write_turn_effect [OF cx] show thesis
    by (intro moves) (fastforce simp: moved_def elim!: bnd_InrE intro: continues.Write split: option.split)
next
  case (KLoop e epf)
  with k have "e = ep" using is_currentD(3,6) [OF cx(1,3)] by (auto simp: belongs_def)
  with r KLoop co_eventloop_turn_effect [OF cx] show thesis
    by (intro moves) (fastforce simp: moved_def elim!: bnd_InrE intro: continues.Loop)
next
  case KDead
  with r show thesis by (simp add: start_fatal_def)
qed


section \<open>A call keeps the invariant\<close>

text \<open>
  What a step that resumes the continuation \<open>k\<close> does: the invariant holds again; a block is freed
  only by \<open>co_join\<close>, and only when its coroutine is finished; a coroutine that has exited stays so
  unless the event loop was at work.
\<close>

fun joining :: "kont \<Rightarrow> bool" where
  "joining (KUser p) = (case p of Join _ _ \<Rightarrow> True | _ \<Rightarrow> False)"
| "joining (KJoin _ _ _) = True"
| "joining _ = False"

definition good_step :: "kont \<Rightarrow> 'k co_state \<Rightarrow> konts \<Rightarrow> 'k co_state \<times> konts \<Rightarrow> bool" where
  "good_step k s C w \<longleftrightarrow>
     config_ok w \<and>
     (\<forall>p \<in> dom (heap s) - dom (heap (fst w)). C p = Some KDead \<and> joining k) \<and>
     stays (looping k) s (fst w) \<and>
     (\<forall>p. snd w p = Some KDead \<longrightarrow> C p = Some KDead \<or>
        (\<exists>t. heap (fst w) p = Some t \<and> status t = COROUTINE_EXIT))"

lemma good_effect:
  assumes "config_but {c} s C" and "is_current s ep env c t" and "effect (looping k0) {} s s'"
    and "kont_typed s' c k" and "k \<noteq> KDead"
  shows "good_step k0 s C (s', C(c \<mapsto> k))"
  using config_effect [OF assms(1-3) _ assms(4)] assms(3,5) by (simp add: good_step_def effect_defs)

lemma good_exit:
  assumes "config_but {c} s C" and "is_current s ep env c t" and "effect (looping k0) {c} s s'"
    and "heap s' c = Some t'" and "status t' = COROUTINE_EXIT"
  shows "good_step k0 s C (s', C(c \<mapsto> KDead))"
  using config_effect [OF assms(1-3), of KDead] assms(3-5) by (simp add: good_step_def effect_defs)

lemma join_good:
  assumes ok: "config_but {c} s C" and th: "thread_has s tid ep" and cur: "is_current s ep env c t"
    and r: "co_join_turn K tid ep cid s = Inr (finished, s')"
    and k: "joining k" "\<not> looping k"
  shows "good_step k s C (s', \<lambda>q. if heap s' q = None then None
    else (C(c \<mapsto> if finished then KUser p else KJoin ep cid p)) q)" (is "good_step k s C (s', ?C)")
proof -
  have so: "state_ok s" and al: "alive s" using ok by (simp_all add: config_but_def)
  have hc: "heap s c = Some t" using cur by (simp add: is_current_def)
  note j = co_join_turn_evolves [OF so th cur al r, where W = "looping k"]
  show ?thesis
  proof (cases finished)
    case True
    then obtain q tq where q: "heap s q = Some tq" "status tq = COROUTINE_EXIT" "q \<noteq> c"
      "heap s' = (heap s)(q := None)" using j by auto
    have "C q = Some KDead" using ok q(1,2) unfolding config_but_def by blast
    moreover have "config_ok (s', ?C)"
    proof (rule config_evolves [OF ok, where X = "{}" and F = "{q}" and N = "{}" and k = "KUser p"])
      show "evolves (looping k) {} s s'" using j by blast
      show "?C x = C x" if "x \<noteq> c" "x \<notin> {q}" for x
        using ok that q(4) unfolding config_but_def by (cases "C x") auto
      show "status t0 \<noteq> COROUTINE_EXIT" if "heap s c = Some t0" for t0
        using alive_current [OF al cur] that hc by auto
    qed (use True q hc in auto)
    moreover have "stays (looping k) s s'" using j by (simp add: evolves_def)
    ultimately show ?thesis using q k by (auto simp: good_step_def)
  next
    case False
    with j have e: "effect (looping k) {} s s'" by (simp add: effect_def)
    have b: "belongs s' c ep"
      by (rule belongs_current [OF so cur]) (use e hc in \<open>auto simp: effect_defs\<close>)
    have "?C = C(c \<mapsto> KJoin ep cid p)"
    proof
      fix x
      have "C x = None" if "heap s' x = None"
        using that e ok unfolding effect_def config_but_def by blast
      moreover have "heap s' c \<noteq> None" using e hc unfolding effect_def by blast
      ultimately show "?C x = (C(c \<mapsto> KJoin ep cid p)) x" using False by auto
    qed
    with good_effect [OF ok cur e, of "KJoin ep cid p"] b show ?thesis by simp
  qed
qed

lemma create_good:
  assumes ok: "config_but {c} s C" and th: "thread_has s tid ep" and cur: "is_current s ep env c t"
    and r: "co_create K tid nn fn a s = Inr (r, out, s')"
    and k: "\<not> looping k"
  shows "good_step k s C (s', if r = 0 then C(c \<mapsto> KUser f, brk s \<mapsto> KUser g) else C(c \<mapsto> KUser f))"
proof -
  have so: "state_ok s" and al: "alive s" using ok by (simp_all add: config_but_def)
  have hc: "heap s c = Some t" using cur by (simp add: is_current_def)
  note e = co_create_evolves [OF so th cur al r, where W = "looping k"]
  show ?thesis
  proof (cases "r = 0")
    case False
    with e have "effect (looping k) {} s s'" by (auto simp: effect_def)
    from good_effect [OF ok cur this] False show ?thesis by simp
  next
    case True
    with e have d: "dom (heap s') = insert (brk s) (dom (heap s))" "brk s \<notin> dom (heap s)" by simp_all
    then have ne: "brk s \<noteq> c" using hc by auto
    have "config_ok (s', C(c \<mapsto> KUser f, brk s \<mapsto> KUser g))"
    proof (rule config_evolves [OF ok, where X = "{}" and F = "{}" and N = "{brk s}" and k = "KUser f"])
      show "evolves (looping k) {} s s'" using e by blast
      show "status t0 \<noteq> COROUTINE_EXIT" if "heap s c = Some t0" for t0
        using alive_current [OF al cur] that hc by auto
    qed (use d ne hc in auto)
    moreover have "stays (looping k) s s'" using e by (simp add: evolves_def)
    ultimately show ?thesis using True d by (auto simp: good_step_def)
  qed
qed

lemma continues_typed:
  assumes "continues c ep k k'" and "belongs s c ep"
  shows "kont_typed s c k'" "k' \<noteq> KDead"
  using assms by (auto elim: continues.cases)

lemma resume_good:
  assumes ok: "config_but {c} s C" and th: "thread_has s tid ep" and cur: "is_current s ep env c t"
    and k: "kont_typed s c k" and r: "resume K code tid c k s C = Inr w"
  shows "good_step k s C w"
proof -
  have so: "state_ok s" and al: "alive s" using ok by (simp_all add: config_but_def)
  show ?thesis
    using so th cur al k r
  proof (cases rule: resume_cases)
    case moves
    then obtain s' k' where m: "w = (s', C(c \<mapsto> k'))" "effect (looping k) {} s s'" "continues c ep k k'"
      unfolding moved_def by blast
    have "belongs s' c ep"
      by (rule belongs_current [OF so cur]) (use m(2) cur in \<open>auto simp: effect_defs is_current_def\<close>)
    from good_effect [OF ok cur m(2) continues_typed [OF m(3) this]] show ?thesis by (simp add: m(1))
  next
    case (creates fn a f ret out s')
    with create_good [OF ok th cur creates(2), of k] show ?thesis by simp
  next
    case (joins cid q fin s')
    show ?thesis unfolding joins(3) by (rule join_good [OF ok th cur joins(2)]) (use joins(1) in auto)
  next
    case (ends s')
    show ?thesis unfolding ends(4)
      by (rule good_exit [OF ok cur start_finish_effect [OF so th cur al ends(3)],
            where t' = "t\<lparr>status := COROUTINE_EXIT, fds_idx := 0\<rparr>"])
        (use start_finish_leaves [OF so th cur ends(3)] in simp_all)
  qed
qed

section \<open>Turns and executions\<close>

definition resumed :: "(int \<Rightarrow> prog) \<Rightarrow> int \<Rightarrow> konts \<Rightarrow> taskp \<Rightarrow> kont" where
  "resumed mains tid C c = (case C c of None \<Rightarrow> KUser (mains tid) | Some k \<Rightarrow> k)"

lemma resume_upd:
  assumes "k \<noteq> KDead"
  shows "resume K code tid c k s (C(c \<mapsto> k')) = resume K code tid c k s C"
proof (cases k)
  case (KUser p)
  then show ?thesis by (cases p) (simp_all add: split_def cong: if_cong)
qed (use assms in \<open>simp_all add: split_def cong: if_cong\<close>)

text \<open>
  A turn resumes the current coroutine. The first turn of a thread comes with its environment and
  its main coroutine.
\<close>

lemma entered_ok:
  assumes ok: "config_ok (s, C)" and e: "co_get_thread_env K tid s = Inr (ep, s1)"
  obtains env c t C1 where "config_ok (s1, C1)" "thread_has s1 tid ep" "is_current s1 ep env c t"
    "C1 c = Some (resumed mains tid C c)"
    "turn K code mains tid (s, C) = resume K code tid c (resumed mains tid C c) s1 C1"
    "s1 = s \<and> C1 = C \<or>
     \<not> thread_has s tid ep \<and> ep = brk s \<and> (\<exists>slot fd k. s1 = with_new_env slot fd k s) \<and>
     c = brk s + 1 \<and> C1 = C(c \<mapsto> KUser (mains tid))"
proof -
  have so: "state_ok s" and al: "alive s" using ok by (simp_all add: config_but_def)
  have t: "turn K code mains tid (s, C) = resume K code tid c (resumed mains tid C c) s1 C"
    if "is_current s1 ep env c t" for env c t
    using that e by (simp add: turn_def is_current_def get_env_def nonnull_def resumed_def)
  show thesis
    using e
  proof (cases rule: co_get_thread_env_cases)
    case known
    obtain env where env: "envs s ep = Some env" using thread_has_env [OF so known(1)] by blast
    obtain c tc where c: "is_current s1 ep env c tc"
      by (rule state_ok_current [OF so env]) (use env known in \<open>auto simp: is_current_def\<close>)
    then have "heap s c = Some tc" using known(2) by (simp add: is_current_def)
    then obtain k where k: "C c = Some k" using ok unfolding config_but_def by auto
    then have r: "resumed mains tid C c = k" by (simp add: resumed_def)
    show thesis by (rule that [OF _ _ c _ t [OF c]]) (use ok known k r in simp_all)
  next
    case (created slot fd k)
    obtain env c tc where g: "evolves False {} s s1" "thread_has s1 tid ep" "is_current s1 ep env c tc"
      "heap s c = None \<and> status tc = COROUTINE_RUNNING \<or> s1 = s" "dom (heap s1) = insert c (dom (heap s))"
      by (rule get_thread_env_evolves [OF so al e, where W = False])
    have c: "c = brk s + 1" using g(3) created by (auto simp: is_current_def with_new_env_def)
    have fresh: "heap s c = None" using state_ok_heap [OF so, of c] c by (cases "heap s c") auto
    then have "C c = None" using ok unfolding config_but_def by (cases "C c") auto
    then have r: "resumed mains tid C c = KUser (mains tid)" by (simp add: resumed_def)
    have but: "config_but {c} s C" using ok unfolding config_but_def by auto
    have "config_ok (s1, C(c \<mapsto> KUser (mains tid)))"
      by (rule config_evolves [OF but g(1), where F = "{}" and N = "{c}" and k = "KUser (mains tid)"])
        (use g(5) fresh in auto)
    moreover have "turn K code mains tid (s, C) = resume K code tid c (resumed mains tid C c) s1 (C(c \<mapsto> KUser (mains tid)))"
      unfolding t [OF g(3)] r by (rule resume_upd [symmetric]) simp
    moreover have "\<not> thread_has s tid ep" using created(1,2) by (simp add: thread_has_def)
    ultimately show thesis by (intro that [OF _ g(2,3)]) (use r c created in auto)
  qed
qed

lemma turn_good:
  assumes ok: "config_ok (s, C)" and r: "turn K code mains tid (s, C) = Inr w"
  shows "\<exists>c. good_step (resumed mains tid C c) s C w"
proof -
  have so: "state_ok s" and al: "alive s" using ok by (simp_all add: config_but_def)
  obtain ep s1 where s1: "co_get_thread_env K tid s = Inr (ep, s1)"
    using r by (auto simp: turn_def elim!: bnd_InrE)
  obtain env c t where e: "evolves False {} s s1" "thread_has s1 tid ep" "is_current s1 ep env c t"
      "heap s c = None \<and> status t = COROUTINE_RUNNING \<or> s1 = s" "dom (heap s1) = insert c (dom (heap s))"
    by (rule get_thread_env_evolves [OF so al s1])
  let ?k = "resumed mains tid C c"
  have typed: "kont_typed s1 p k" if "C p = Some k" for p k
  proof -
    have "kont_typed s p k" "p \<in> dom (heap s1)" using ok that e(5) unfolding config_but_def by auto
    then show ?thesis using e(1) kont_typed_stays unfolding evolves_def by blast
  qed
  have "C p = Some KDead" if "heap s1 p = Some tp" "status tp = COROUTINE_EXIT" for p tp
    using ok e(1) that unfolding config_but_def evolves_def exits_in_def by simp blast
  then have ok1: "config_but {c} s1 C"
    using ok e(1,5) typed unfolding config_but_def evolves_def by auto
  have "resume K code tid c ?k s1 C = Inr w"
    using r s1 e(3) by (simp add: turn_def is_current_def get_env_def nonnull_def resumed_def)
  moreover have "kont_typed s1 c ?k" using typed by (simp add: resumed_def split: option.split)
  ultimately have g: "good_step ?k s1 C w" using resume_good [OF ok1 e(2,3)] by blast
  have "stays (looping ?k) s s1" using e(1) unfolding evolves_def by (blast intro: stays_mono)
  moreover have "stays (looping ?k) s1 (fst w)" using g by (simp add: good_step_def)
  moreover have sub: "dom (heap s) \<subseteq> dom (heap s1)" unfolding e(5) by (rule subset_insertI)
  then have "dom (heap s) \<inter> dom (heap (fst w)) \<subseteq> dom (heap s1)" by blast
  ultimately have "stays (looping ?k) s (fst w)" by (rule stays_trans)
  moreover have "config_ok w" using g by (simp add: good_step_def)
  moreover have "C p = Some KDead \<and> joining ?k" if "p \<in> dom (heap s) - dom (heap (fst w))" for p
    using g sub that unfolding good_step_def by blast
  moreover have "\<forall>p. snd w p = Some KDead \<longrightarrow> C p = Some KDead \<or>
      (\<exists>t. heap (fst w) p = Some t \<and> status t = COROUTINE_EXIT)"
    using g by (simp add: good_step_def)
  ultimately have "good_step ?k s C w" unfolding good_step_def by blast
  then show ?thesis ..
qed

lemma step_good:
  assumes "config_ok w" and "step K code mains w w'"
  obtains tid c where "good_step (resumed mains tid (snd w) c) (fst w) (snd w) w'"
  using assms(2)
proof (rule stepE)
  fix tid assume "turn K code mains tid w = Inr w'"
  then have "turn K code mains tid (fst w, snd w) = Inr w'" by simp
  from turn_good [OF _ this] assms(1) that show thesis by auto
qed

lemma reachable_ok: "reachable K code mains w \<Longrightarrow> config_ok w"
proof (induction rule: reachable.induct)
  case (start k)
  show ?case
    by (auto simp: config_but_def state_ok_init) (simp_all add: init_state_def alive_but_def is_current_def)
next
  case (further w w')
  from step_good [OF further(3,2)] show ?case unfolding good_step_def by metis
qed

section \<open>An execution\<close>

text \<open>
  A thread whose main coroutine creates a worker, joins it and returns. The worker returns at once.
  The four steps: create, the first look of \<open>co_join\<close>, the end of the worker, the second look.
\<close>

definition demo_main :: "int \<Rightarrow> prog" where
  "demo_main tid = Create 100 200 (\<lambda>_ out. case out of None \<Rightarrow> Return | Some i \<Rightarrow> Join (int i) Return)"

definition demo_code :: "voidp \<Rightarrow> voidp \<Rightarrow> prog" where
  "demo_code fn a = Return"

definition ex3 :: "nat co_state" where
  "ex3 = ex1\<lparr>heap := (heap ex1)(2 \<mapsto> ex1_worker\<lparr>status := COROUTINE_EXIT\<rparr>)\<rparr>"

definition demo_w :: "nat \<Rightarrow> nat co_state \<times> konts" where
  "demo_w n =
     [(init_state 0, \<lambda>_. None),
      (ex1, [1 \<mapsto> KUser (Join 1 Return), 2 \<mapsto> KUser Return]),
      (ex2, [1 \<mapsto> KJoin 0 1 Return, 2 \<mapsto> KUser Return]),
      (ex3, [1 \<mapsto> KJoin 0 1 Return, 2 \<mapsto> KDead]),
      (without_task 0 ex1_env 1 2 ex3, [1 \<mapsto> KUser Return])] ! n"

lemma demo_w_simps:
  "demo_w 0 = (init_state 0, \<lambda>_. None)"
  "demo_w 1 = (ex1, [1 \<mapsto> KUser (Join 1 Return), 2 \<mapsto> KUser Return])"
  "demo_w 2 = (ex2, [1 \<mapsto> KJoin 0 1 Return, 2 \<mapsto> KUser Return])"
  "demo_w 3 = (ex3, [1 \<mapsto> KJoin 0 1 Return, 2 \<mapsto> KDead])"
  "demo_w 4 = (without_task 0 ex1_env 1 2 ex3, [1 \<mapsto> KUser Return])"
  by (simp_all add: demo_w_def eval_nat_numeral)

lemma turn_known:
  assumes "thread_has s tid ep" and "is_current s ep env c t" and "C c = Some k"
  shows "turn K code mains tid (s, C) = resume K code tid c k s C"
  using assms by (simp add: turn_def is_current_def get_env_def nonnull_def)

lemma demo_create: "turn ex_os demo_code demo_main 1 (demo_w 0) = Inr (demo_w 1)"
proof -
  have c: "envs ex0 0 = Some ex0_env" "current ex0_env = Some 1"
    using ex0_current by (simp_all add: is_current_def)
  show ?thesis
    using c
    by (simp add: demo_w_def turn_def ex0_created get_env_def nonnull_def demo_main_def demo_code_def
        ex1_created [unfolded One_nat_def] ex0_fields fun_upd_def fun_eq_iff numeral_2_eq_2)
qed


lemma ex1_running: "running_at ex1 0 i \<longleftrightarrow> i = 0 \<or> i = 1"
proof -
  have "envs ex1 0 = Some ex1_env" by (simp add: ex1_fields)
  from running_at_ok [OF ex1_ok this, of i] show ?thesis
    by (cases "i = 0"; cases "i = 1")
      (simp_all add: ex1_fields ex1_env_def ex0_main_fields ex1_worker_fields)
qed

lemma ex1_schedule: "schedule K 1 ex1 = Inr ex2"
proof -
  have "choice ex1 0 ex1_env 0 = task ex1_env 1"
    by (rule choice_only_other) (simp_all add: NR_TASKS_def ex1_running)
  then have ch: "choice ex1 0 ex1_env (tsk_id ex0_main) = Some 2"
    by (simp add: ex0_main_fields ex1_env_def)
  have "status t \<noteq> COROUTINE_SLEEP" if "task ex1_env i = Some p" "heap ex1 p = Some t" for i p t
    using that by (auto simp: ex1_entry ex1_fields ex0_main_fields ex1_worker_fields)
  from schedule_awake [OF ex1_ok ex1_thread ex1_current this ch] show ?thesis
    by (simp add: ex2_def ex1_fields)
qed

lemma ex2_schedule: "schedule K 1 ex2 = Inr ex1"
proof -
  let ?env = "ex1_env\<lparr>current := Some 2\<rparr>"
  have e: "envs ex2 0 = Some ?env" by (simp add: ex2_def)
  have run: "running_at ex2 0 i \<longleftrightarrow> i = 0 \<or> i = 1" for i
    using running_at_ok [OF ex2_ok e, of i]
    by (cases "i = 0"; cases "i = 1")
      (simp_all add: ex2_def ex1_fields ex1_env_def ex0_main_fields ex1_worker_fields)
  have "choice ex2 0 ?env 1 = task ?env 0"
    by (rule choice_only_other) (simp_all add: NR_TASKS_def run)
  then have ch: "choice ex2 0 ?env (tsk_id ex1_worker) = Some 1"
    by (simp add: ex1_worker_fields ex1_env_def)
  have "status t \<noteq> COROUTINE_SLEEP" if "task ?env i = Some p" "heap ex2 p = Some t" for i p t
    using that by (auto simp: ex1_entry ex2_def ex1_fields ex0_main_fields ex1_worker_fields)
  from schedule_awake [OF ex2_ok ex2_thread ex2_current this ch] show ?thesis
    by (simp add: ex2_def ex1_fields ex1_env_def)
qed

text \<open>Two coroutines that call \<open>schedule\<close> in turn.\<close>

theorem schedule_fair_witness:
  "\<exists>s. s 0 = ex1 \<and> (\<forall>n. schedule ex_os 1 (s n) = Inr (s (Suc n))) \<and>
    (\<exists>m < NR_TASKS. \<exists>env t. is_current (s m) 0 env 2 t)"
proof -
  let ?s = "\<lambda>n :: nat. if even n then ex1 else ex2"
  let ?env = "\<lambda>n :: nat. if even n then ex1_env else ex1_env\<lparr>current := Some 2\<rparr>"
  let ?c = "\<lambda>n :: nat. if even n then 1 else 2 :: taskp" and ?t = "\<lambda>n :: nat. if even n then ex0_main else ex1_worker"
  have sch: "schedule ex_os 1 (?s n) = Inr (?s (Suc n))" for n by (simp add: ex1_schedule ex2_schedule)
  have cur: "is_current (?s n) 0 (?env n) (?c n) (?t n)" for n using ex1_current ex2_current by simp
  have "\<exists>m < NR_TASKS. ?c m = 2"
  proof (rule schedule_fair [where s = ?s and s' = "\<lambda>n. ?s (Suc n)" and env = ?env and env' = "\<lambda>n. ?env (Suc n)"
        and t = ?t and t' = "\<lambda>n. ?t (Suc n)" and K = ex_os and tid = 1 and ep = 0 and j = 1])
    show "\<forall>n. state_ok (?s n) \<and> thread_has (?s n) 1 0 \<and> is_current (?s n) 0 (?env n) (?c n) (?t n) \<and>
        schedule ex_os 1 (?s n) = Inr (?s (Suc n))"
      using cur sch ex1_ok ex2_ok ex1_thread ex2_thread by simp
    show "\<forall>n. is_current (?s (Suc n)) 0 (?env (Suc n)) (?c (Suc n)) (?t (Suc n)) \<and>
        tsk_id (?t (Suc n)) = tsk_id (?t (Suc n))"
      using cur by blast
    show "\<forall>n. task (?env n) 1 = Some 2 \<and> (\<exists>tp. heap (?s n) 2 = Some tp \<and> status tp = COROUTINE_RUNNING)"
      by (simp add: ex1_entry [simplified] ex2_def ex1_fields ex1_worker_fields)
  qed
  then obtain m where "m < NR_TASKS" "?c m = 2" by blast
  with cur [of m] have "is_current (?s m) 0 (?env m) 2 (?t m)" by simp
  with \<open>m < NR_TASKS\<close> have "\<exists>m < NR_TASKS. \<exists>env t. is_current (?s m) 0 env 2 t" by blast
  moreover have "?s 0 = ex1" by simp
  ultimately show ?thesis using sch by (intro exI [of _ ?s]) blast
qed

text \<open>
  The first one sleeps; when time has passed and the other one has begun to wait, the call of
  \<open>schedule\<close> by the other one wakes the first.
\<close>

definition ex_os_still :: "nat os" where
  "ex_os_still = ex_os\<lparr>os_gettimeofday := (\<lambda>k. (Some \<lparr>tv_sec = int k, tv_usec = 0\<rparr>, k))\<rparr>"

lemma ex_os_still_ms: "ms_at ex_os_still k j = Some (word_of_int (1000 * int k))"
proof -
  have "clock_after ex_os_still k j = k" by (induction j) (simp_all add: ex_os_still_def)
  then show ?thesis by (simp add: ms_at_def) (simp add: ex_os_still_def mult.commute)
qed

lemma still_asleep:
  obtains s t where "co_sleep ex_os_still 1 1 ex1 = schedule ex_os_still 1 s" and "state_ok s" and "thread_has s 1 0"
    and "is_current s 0 ex1_env 1 t" and "kst s = 0" and "heap s = [1 \<mapsto> t, 2 \<mapsto> ex1_worker]"
    and "status t = COROUTINE_SLEEP" and "wakeuptime t = 1000" and "tsk_id t = 0"
proof -
  let ?s = "asleep ex_os_still ex1 1 ex0_main 0 1"
  let ?t = "ex0_main\<lparr>wakeuptime := 0 + word_of_int (1000 * 1), status := COROUTINE_SLEEP\<rparr>"
  have "ms_at ex_os_still (kst ex1) 0 = Some 0" by (simp add: ex_os_still_ms ex1_fields)
  from co_sleep_asleep [OF ex1_thread ex1_current this, of 1]
  have "co_sleep ex_os_still 1 1 ex1 = schedule ex_os_still 1 ?s" by (simp add: fits_int_def)
  moreover note ok = asleep_ok [OF ex1_ok ex1_thread ex1_current, of ex_os_still 0 1]
  moreover have "kst ?s = 0" by (simp add: asleep_def ex1_fields ex_os_still_def)
  moreover have "heap ?s = [1 \<mapsto> ?t, 2 \<mapsto> ex1_worker]" by (simp add: asleep_def ex1_fields fun_upd_twist)
  ultimately show thesis using that [of ?s ?t] by (simp add: ex0_main_fields)
qed

lemma still_first:
  obtains a t where "co_sleep ex_os_still 1 1 ex1 = Inr a" and "state_ok a" and "thread_has a 1 0" and "kst a = 0"
    and "is_current a 0 (ex1_env\<lparr>current := Some 2\<rparr>) 2 ex1_worker" and "heap a = [1 \<mapsto> t, 2 \<mapsto> ex1_worker]"
    and "status t = COROUTINE_SLEEP" and "wakeuptime t = 1000"
proof -
  obtain s t where s: "co_sleep ex_os_still 1 1 ex1 = schedule ex_os_still 1 s" "state_ok s" "thread_has s 1 0"
      "is_current s 0 ex1_env 1 t" "kst s = 0" "heap s = [1 \<mapsto> t, 2 \<mapsto> ex1_worker]"
      "status t = COROUTINE_SLEEP" "wakeuptime t = 1000" "tsk_id t = 0"
    by (rule still_asleep)
  note c = is_currentD [OF s(2,4)]
  have "running_at s 0 1"
    using running_at_ok [OF s(2) c(1), of 1] by (simp add: s(6) ex1_worker_fields ex1_env_def del: One_nat_def)
  then obtain a where a: "schedule ex_os_still 1 s = Inr a"
    using schedule_ends [OF s(2-4), of ex_os_still 0] by (auto simp: ex_os_still_ms)
  obtain p where p: "rescheduled ex_os_still 0 ex1_env (tsk_id t) s a p"
    by (rule schedule_rescheduled [OF s(2-4) a])
  then obtain n s1 where n: "woken ex_os_still 0 n s s1"
      and a1: "a = s1\<lparr>envs := (envs s1)(0 \<mapsto> ex1_env\<lparr>current := Some p\<rparr>)\<rparr>"
    unfolding rescheduled_def by blast
  have "clock_after ex_os_still k j = k" for k j by (induction j) (simp_all add: ex_os_still_def)
  then have k: "kst s1 = 0" using n s(5) by (simp add: woken_def)
  have "heap s1 1 = Some t"
    by (rule woken_taskE [OF n, of 1 t]) (auto simp: s(5,6,8) ex_os_still_ms)
  moreover have "heap s1 2 = Some ex1_worker"
    by (rule woken_taskE [OF n, of 2 ex1_worker]) (auto simp: s(6) ex1_worker_fields)
  moreover have "dom (heap s1) = {1, 2}" using n by (auto simp: woken_def s(6))
  ultimately have h: "heap s1 = [1 \<mapsto> t, 2 \<mapsto> ex1_worker]"
    by (intro ext) (auto simp: dom_def split: if_splits)
  obtain tp where "state_ok a" "is_current a 0 (ex1_env\<lparr>current := Some p\<rparr>) p tp" "status tp = COROUTINE_RUNNING"
    using rescheduled_ok [OF s(2,4) p] by blast
  moreover from this have "p = 2" "tp = ex1_worker"
    using s(7) by (auto simp: is_current_def a1 h split: if_splits)
  moreover have "thread_has a 1 0" using s(3) n by (simp add: thread_has_def a1 woken_def)
  ultimately show thesis using that [of a t] s(1,7,8) a h k by (simp add: a1)
qed

theorem co_sleep_not_early_witness:
  "\<exists>a b d t0 t. co_sleep ex_os_still 1 1 ex1 = Inr a \<and> heap a 1 = Some t0 \<and> status t0 = COROUTINE_SLEEP \<and>
    heap b 1 = heap a 1 \<and> schedule ex_os_still 1 b = Inr d \<and> heap d 1 = Some t \<and> status t = COROUTINE_RUNNING \<and>
    (reads_past ex_os_still 1000 (kst ex1) (kst a) \<or> reads_past ex_os_still 1000 (kst b) (kst d))"
proof -
  let ?K = ex_os_still and ?w = "ex1_worker\<lparr>status := COROUTINE_WAIT\<rparr>" and ?env = "ex1_env\<lparr>current := Some 2\<rparr>"
  obtain a t where a: "co_sleep ?K 1 1 ex1 = Inr a" "state_ok a" "thread_has a 1 0" "kst a = 0"
      "is_current a 0 ?env 2 ex1_worker" "heap a = [1 \<mapsto> t, 2 \<mapsto> ex1_worker]"
      "status t = COROUTINE_SLEEP" "wakeuptime t = 1000" by (rule still_first)
  let ?b = "a\<lparr>kst := 5, heap := (heap a)(2 \<mapsto> ?w)\<rparr>"
  have same: "same_tasks a ?b" using a(6) by (auto simp: same_tasks_def)
  have okb: "state_ok ?b" using same a(2) by (rule state_ok_same_tasks)
  have thb: "thread_has ?b 1 0" and curb: "is_current ?b 0 ?env 2 ?w"
    using a(3,5) by (simp_all add: thread_has_def is_current_def)
  have "will_wake ?K ?b ?env 0"
    unfolding will_wake_def ex_os_still_ms
    by (rule exI [of _ 0], rule exI [of _ 1], rule exI [of _ t])
      (simp add: a(6-8) ex1_env_def word_less_def)
  then obtain d where d: "schedule ?K 1 ?b = Inr d"
    using schedule_ends [OF okb thb curb, of ?K 0] by (auto simp: ex_os_still_ms)
  obtain p where p: "rescheduled ?K 0 ?env (tsk_id ?w) ?b d p" by (rule schedule_rescheduled [OF okb thb curb d])
  obtain tp where cur: "is_current d 0 (?env\<lparr>current := Some p\<rparr>) p tp" and st: "status tp = COROUTINE_RUNNING"
    and okd: "state_ok d" using rescheduled_ok [OF okb curb p] by blast
  have "heap d 2 = Some ?w" using rescheduled_frame [OF p] by simp
  then have "p \<noteq> 2" using cur st by (auto simp: is_current_def)
  moreover have "p = 1 \<or> p = 2" using is_currentD(5) [OF okd cur] by (auto simp: ex1_entry)
  ultimately have t: "heap d 1 = Some tp" using cur by (simp add: is_current_def)
  let ?s = "\<lambda>n. if n = 0 then ex1 else ?b" and ?s' = "\<lambda>n :: nat. if n = 0 then a else d"
  have "\<exists>n \<le> 1. reads_past ?K (uint (0 :: 32 word) + 1000 * 1) (kst (?s n)) (kst (?s' n))"
  proof (rule co_sleep_not_early [where s = ?s and s' = ?s' and tid = 1 and ep = 0 and seconds = 1
        and env = "\<lambda>_. ?env" and cur = "\<lambda>_. 2" and tn = "\<lambda>_. ?w"])
    show "heap (?s' 1) 1 = Some tp" using t by simp
    show "ms_at ?K (kst (?s 0)) 0 = Some 0" by (simp add: ex_os_still_ms ex1_fields)
  qed (use ex1_ok ex1_thread ex1_current a(1,6) okb thb curb d st in simp_all)
  then have "reads_past ?K 1000 (kst ex1) (kst a) \<or> reads_past ?K 1000 (kst ?b) (kst d)"
    by (auto split: if_splits)
  moreover have "heap ?b 1 = heap a 1" "heap a 1 = Some t" by (simp_all add: a(6))
  ultimately show ?thesis using a(1,7) d t st by blast
qed

lemma demo_join_first: "turn ex_os demo_code demo_main 1 (demo_w 1) = Inr (demo_w 2)"
proof -
  have "co_join_turn ex_os 1 0 1 ex1 = Inr (False, ex2)"
    using co_join_turn_eq [of ex1 0 ex1_env 1 2 ex1_worker ex_os 1]
    by (simp add: ex1_fields ex1_entry NR_TASKS_def ex1_worker_fields ex1_schedule)
  then have j: "co_join ex_os 1 1 ex1 = Inr (0, False, ex2)"
    by (simp add: co_join_def thread_has_get [OF ex1_thread])
  have h: "heap ex2 = [1 \<mapsto> ex0_main, 2 \<mapsto> ex1_worker]" by (simp add: ex2_def ex1_fields)
  show ?thesis
    unfolding demo_w_simps by (simp add: turn_known [OF ex1_thread ex1_current] j h fun_eq_iff)
qed

definition ex2_done :: "nat co_state" where
  "ex2_done = ex2\<lparr>heap := (heap ex2)(2 \<mapsto> ex1_worker\<lparr>status := COROUTINE_EXIT\<rparr>)\<rparr>"

lemma ex2_done_same: "same_tasks ex2 ex2_done"
  unfolding ex2_done_def by (rule same_tasks_upd [where t = ex1_worker]) (simp_all add: ex2_def ex1_fields)

lemma ex2_done_ok: "state_ok ex2_done"
  using ex2_done_same ex2_ok by (rule state_ok_same_tasks)

lemma ex2_done_current:
  "is_current ex2_done 0 (ex1_env\<lparr>current := Some 2\<rparr>) 2 (ex1_worker\<lparr>status := COROUTINE_EXIT\<rparr>)"
  by (simp add: is_current_def ex2_done_def ex2_def)

lemma ex2_done_running: "running_at ex2_done 0 i \<longleftrightarrow> i = 0"
proof -
  have "envs ex2_done 0 = Some (ex1_env\<lparr>current := Some 2\<rparr>)" by (simp add: ex2_done_def ex2_def)
  from running_at_ok [OF ex2_done_ok this, of i] show ?thesis
    by (auto simp: ex1_entry ex2_done_def ex2_def ex1_fields ex0_main_fields)
qed

lemma ex2_finish: "start_finish ex_os 1 2 ex2 = Inr ex3"
proof -
  let ?t = "ex1_worker\<lparr>status := COROUTINE_EXIT\<rparr>"
  have w: "heap ex2 2 = Some ex1_worker" using ex2_current by (simp add: is_current_def)
  have "fds_idx ?t = 0" by (simp add: ex1_worker_def)
  then have "release_fds ex_os (Some 0) 2 ex2_done = Some (Inr ex2_done)"
    by (intro release_fds_done [where t = ?t]) (simp_all add: ex2_done_def)
  then have clean: "start_cleanup ex_os 2 ex2 = Inr ex2_done"
    by (simp add: start_cleanup_unfold [OF w ex1_worker_fields(3)] ex2_done_def)
  let ?env = "ex1_env\<lparr>current := Some 2\<rparr>"
  have "choice ex2_done 0 ?env 1 = task ?env 0"
    by (rule choice_only_other) (simp_all add: NR_TASKS_def ex2_done_running)
  then have ch: "choice ex2_done 0 ?env (tsk_id ?t) = Some 1"
    by (simp add: ex1_worker_fields ex1_env_def)
  have th: "thread_has ex2_done 1 0" using ex2_thread by (simp add: thread_has_def ex2_done_def)
  have "status t \<noteq> COROUTINE_SLEEP" if "task ?env i = Some p" "heap ex2_done p = Some t" for i p t
    using that by (auto simp: ex1_entry ex2_done_def ex2_def ex1_fields ex0_main_fields split: if_splits)
  from schedule_awake [OF ex2_done_ok th ex2_done_current this ch]
  have "schedule ex_os 1 ex2_done = Inr ex3"
    by (simp add: ex2_done_def ex2_def ex3_def ex1_fields ex1_env_def)
  with clean show ?thesis by (simp add: start_finish_def)
qed

lemma demo_finish: "turn ex_os demo_code demo_main 1 (demo_w 2) = Inr (demo_w 3)"
  using ex2_current unfolding demo_w_simps
  by (simp add: turn_known [OF ex2_thread ex2_current] ex2_finish is_current_def get_task_def
      ex1_worker_fields fun_upd_twist)

lemma ex3_thread: "thread_has ex3 1 0"
  using ex1_thread by (simp add: thread_has_def ex3_def)

lemma ex3_current: "is_current ex3 0 ex1_env 1 ex0_main"
  using ex1_current by (simp add: is_current_def ex3_def)

lemma demo_join_second: "turn ex_os demo_code demo_main 1 (demo_w 3) = Inr (demo_w 4)"
proof -
  have "co_join_turn ex_os 1 0 1 ex3 = Inr (True, without_task 0 ex1_env 1 2 ex3)"
    using co_join_turn_eq [of ex3 0 ex1_env 1 2 "ex1_worker\<lparr>status := COROUTINE_EXIT\<rparr>" ex_os 1]
    by (simp add: ex3_def ex1_fields ex1_entry NR_TASKS_def)
  moreover have "heap (without_task 0 ex1_env 1 2 ex3) = [1 \<mapsto> ex0_main]"
    by (simp add: without_task_def ex3_def ex1_fields fun_upd_def fun_eq_iff)
  ultimately show ?thesis
    unfolding demo_w_simps by (simp add: turn_known [OF ex3_thread ex3_current] fun_eq_iff)
qed

lemmas demo_steps = step.turn [OF demo_create] step.turn [OF demo_join_first]
  step.turn [OF demo_finish] step.turn [OF demo_join_second]

lemma demo_reachable:
  "reachable ex_os demo_code demo_main (demo_w 1)" "reachable ex_os demo_code demo_main (demo_w 2)"
  "reachable ex_os demo_code demo_main (demo_w 3)" "reachable ex_os demo_code demo_main (demo_w 4)"
proof -
  have "reachable ex_os demo_code demo_main (demo_w 0)"
    unfolding demo_w_simps by (rule reachable.start)
  then show 1: "reachable ex_os demo_code demo_main (demo_w 1)"
    using demo_steps(1) by (rule reachable.further)
  show 2: "reachable ex_os demo_code demo_main (demo_w 2)"
    using 1 demo_steps(2) by (rule reachable.further)
  show 3: "reachable ex_os demo_code demo_main (demo_w 3)"
    using 2 demo_steps(3) by (rule reachable.further)
  show "reachable ex_os demo_code demo_main (demo_w 4)"
    using 3 demo_steps(4) by (rule reachable.further)
qed

section \<open>Properties\<close>

text \<open>
  C8: In every execution the live control blocks are exactly the coroutines that have a place to
  continue at, and the local variables of a suspended call fit its coroutine: current is the
  coroutine itself, thread_env its environment.
\<close>

theorem machine_typed:
  assumes "reachable K code mains (s, C)"
  shows "dom C = dom (heap s) \<and> (\<forall>p k. C p = Some k \<longrightarrow> kont_typed s p k)"
  using reachable_ok [OF assms] unfolding config_but_def fst_conv snd_conv by blast

theorem machine_typed_witness: "belongs ex2 1 0"
proof -
  have "reachable ex_os demo_code demo_main (ex2, [1 \<mapsto> KJoin 0 1 Return, 2 \<mapsto> KUser Return])"
    using demo_reachable(2) unfolding demo_w_simps .
  from conjunct2 [OF machine_typed [OF this]]
  have "([1 \<mapsto> KJoin 0 1 Return, 2 \<mapsto> KUser Return] :: konts) 1 = Some (KJoin 0 1 Return) \<longrightarrow>
      kont_typed ex2 1 (KJoin 0 1 Return)" by (elim allE)
  then show ?thesis by simp
qed

text \<open>
  C7: In every execution, whatever programs the coroutines run and however the kernel answers,
  every reachable state is well-formed, the current coroutine of every thread is running or
  about to block, and every coroutine that has exited is parked behind the last schedule of
  start.
\<close>

theorem machine_invariant:
  assumes "reachable K code mains (s, C)"
  shows "state_ok s \<and>
    (\<forall>ep env. envs s ep = Some env \<longrightarrow>
      (\<exists>c t. is_current s ep env c t \<and> (status t = COROUTINE_RUNNING \<or> status t = COROUTINE_WAIT))) \<and>
    (\<forall>p t. heap s p = Some t \<longrightarrow> status t = COROUTINE_EXIT \<longrightarrow> C p = Some KDead)"
proof -
  have ok: "state_ok s" "alive s" and dead: "\<forall>p t. heap s p = Some t \<longrightarrow> status t = COROUTINE_EXIT \<longrightarrow> C p = Some KDead"
    using reachable_ok [OF assms] unfolding config_but_def by simp_all
  have "\<exists>c t. is_current s ep env c t \<and> (status t = COROUTINE_RUNNING \<or> status t = COROUTINE_WAIT)"
    if env: "envs s ep = Some env" for ep env
  proof -
    obtain c t where "current env = Some c" "heap s c = Some t" by (rule state_ok_current [OF ok(1) env])
    then have "is_current s ep env c t" using env by (simp add: is_current_def)
    with alive_current [OF ok(2) this] show ?thesis by blast
  qed
  with ok(1) dead show ?thesis by blast
qed

theorem machine_invariant_witness: "state_ok ex3 \<and> (\<exists>c t. is_current ex3 0 ex1_env c t \<and> status t \<noteq> COROUTINE_EXIT)"
proof -
  have "reachable ex_os demo_code demo_main (ex3, [1 \<mapsto> KJoin 0 1 Return, 2 \<mapsto> KDead])"
    using demo_reachable(3) unfolding demo_w_simps .
  from machine_invariant [OF this] have m: "state_ok ex3"
      "envs ex3 0 = Some ex1_env \<Longrightarrow> \<exists>c t. is_current ex3 0 ex1_env c t \<and>
        (status t = COROUTINE_RUNNING \<or> status t = COROUTINE_WAIT)" by blast+
  moreover have "envs ex3 0 = Some ex1_env" using ex3_current by (simp add: is_current_def)
  ultimately show ?thesis by (metis co_status.distinct(5,11))
qed

text \<open>
  C9: Along every execution, a control block is freed only when its coroutine has finished, and
  afterwards it has no continuation and is not the current coroutine of any thread.
\<close>

theorem join_frees_finished:
  assumes "reachable K code mains (s, C)" and "step K code mains (s, C) (s', C')"
    and "heap s p = Some t" and "heap s' p = None"
  shows "C p = Some KDead \<and> C' p = None \<and> (\<forall>ep env. envs s' ep = Some env \<longrightarrow> current env \<noteq> Some p)"
proof -
  note w = reachable_ok [OF assms(1)]
  obtain tid c where g: "good_step (resumed mains tid C c) s C (s', C')"
    using step_good [OF w assms(2)] by auto
  then have "C p = Some KDead" using assms(3,4) by (auto simp: good_step_def)
  moreover have "C' p = None" "state_ok s'"
    using g assms(4) unfolding good_step_def config_but_def fst_conv snd_conv by blast+
  moreover have "current env \<noteq> Some p" if "envs s' ep = Some env" for ep env
    using state_ok_current [OF \<open>state_ok s'\<close> that] assms(4) by (metis option.distinct(1) option.inject)
  ultimately show ?thesis by blast
qed

theorem join_frees_finished_witness:
  "[1 \<mapsto> KJoin 0 1 Return, 2 \<mapsto> KDead] (2 :: taskp) = Some KDead \<and>
   heap (without_task 0 ex1_env 1 2 ex3) 2 = None \<and>
   (\<forall>ep env. \<not> (envs (without_task 0 ex1_env 1 2 ex3) ep = Some env \<and> current env = Some 2))"
proof -
  have r: "reachable ex_os demo_code demo_main (ex3, [1 \<mapsto> KJoin 0 1 Return, 2 \<mapsto> KDead])"
    using demo_reachable(3) unfolding demo_w_simps .
  have st: "step ex_os demo_code demo_main (ex3, [1 \<mapsto> KJoin 0 1 Return, 2 \<mapsto> KDead])
      (without_task 0 ex1_env 1 2 ex3, [1 \<mapsto> KUser Return])"
    using demo_steps(4) unfolding demo_w_simps .
  have h: "heap ex3 2 = Some (ex1_worker\<lparr>status := COROUTINE_EXIT\<rparr>)" by (simp add: ex3_def)
  have h': "heap (without_task 0 ex1_env 1 2 ex3) 2 = None" by (simp add: without_task_def)
  from join_frees_finished [OF r st h h'] h' show ?thesis by blast
qed

end
