(* ===== verification/Programs.thy ===== *)
theory Programs
  imports Executions
begin

text \<open>
  Properties of executions that come from what the programs of the coroutines never call: programs
  without \<open>co_join\<close> never free a control block, and programs without \<open>co_eventloop\<close> never resume
  a coroutine that has finished.
\<close>

section \<open>What a program calls\<close>

text \<open>Every call the program may make satisfies \<open>P\<close>.\<close>

coinductive prog_all :: "(prog \<Rightarrow> bool) \<Rightarrow> prog \<Rightarrow> bool" for P where
  Sleep: "P (Sleep n p) \<Longrightarrow> prog_all P p \<Longrightarrow> prog_all P (Sleep n p)"
| Create: "P (Create fn a f) \<Longrightarrow> (\<And>r out. prog_all P (f r out)) \<Longrightarrow> prog_all P (Create fn a f)"
| Join: "P (Join cid p) \<Longrightarrow> prog_all P p \<Longrightarrow> prog_all P (Join cid p)"
| Accept: "P (Accept fd g) \<Longrightarrow> (\<And>r. prog_all P (g r)) \<Longrightarrow> prog_all P (Accept fd g)"
| Read: "P (Read fd len g) \<Longrightarrow> (\<And>r. prog_all P (g r)) \<Longrightarrow> prog_all P (Read fd len g)"
| Write: "P (Write fd len g) \<Longrightarrow> (\<And>r. prog_all P (g r)) \<Longrightarrow> prog_all P (Write fd len g)"
| EventLoop: "P EventLoop \<Longrightarrow> prog_all P EventLoop"
| Abort: "P (Abort n) \<Longrightarrow> prog_all P (Abort n)"
| Return: "P Return \<Longrightarrow> prog_all P Return"

inductive_simps prog_all_simps [simp]:
  "prog_all P (Sleep n p)" "prog_all P (Create fn a f)" "prog_all P (Join cid p)"
  "prog_all P (Accept fd g)" "prog_all P (Read fd len g)" "prog_all P (Write fd len g)"
  "prog_all P EventLoop" "prog_all P (Abort n)" "prog_all P Return"

fun kont_all :: "(prog \<Rightarrow> bool) \<Rightarrow> kont \<Rightarrow> bool" where
  "kont_all P (KUser p) = prog_all P p"
| "kont_all P (KJoin ep cid p) = (P (Join cid p) \<and> prog_all P p)"
| "kont_all P (KAccept cur fd g) = (P (Accept fd g) \<and> (\<forall>r. prog_all P (g r)))"
| "kont_all P (KRead cur fd len g) = (P (Read fd len g) \<and> (\<forall>r. prog_all P (g r)))"
| "kont_all P (KWrite cur epf fd len g) = (P (Write fd len g) \<and> (\<forall>r. prog_all P (g r)))"
| "kont_all P (KLoop ep epf) = P EventLoop"
| "kont_all P KDead = True"

definition konts_all :: "(prog \<Rightarrow> bool) \<Rightarrow> konts \<Rightarrow> bool" where
  "konts_all P C \<longleftrightarrow> (\<forall>p k. C p = Some k \<longrightarrow> kont_all P k)"

lemma konts_all_upd: "konts_all P C \<Longrightarrow> kont_all P k \<Longrightarrow> konts_all P (C(c \<mapsto> k))"
  by (simp add: konts_all_def)

lemma konts_all_part:
  "konts_all P C \<Longrightarrow> konts_all P (\<lambda>q. if Q q then None else C q)"
  by (simp add: konts_all_def)

lemma call_all:
  assumes "call K code tid c p s C = Inr (s', C')" and "prog_all P p" and "konts_all P C"
    and "\<And>fn a. prog_all P (code fn a)"
  shows "konts_all P C'"
  using assms
  by (cases p)
    (auto elim!: bnd_InrE intro!: konts_all_upd konts_all_part split: sum.splits prod.splits if_splits)

lemma resume_all:
  assumes "resume K code tid c k s C = Inr (s', C')" and "kont_all P k" and "konts_all P C"
    and "\<And>fn a. prog_all P (code fn a)"
  shows "konts_all P C'"
  using assms call_all [of K code tid c _ s C s' C' P]
  by (cases k)
    (auto elim!: bnd_InrE intro!: konts_all_upd konts_all_part split: option.splits if_splits)

text \<open>A discipline of the programs is a discipline of the execution.\<close>

lemma step_all:
  assumes "step K code mains (s, C) (s', C')" and "konts_all P C"
    and "\<And>fn a. prog_all P (code fn a)" and "\<And>tid. prog_all P (mains tid)"
  shows "konts_all P C'"
  using assms(1)
proof (rule stepE)
  fix tid assume "turn K code mains tid (s, C) = Inr (s', C')"
  then obtain c s1 where r: "resume K code tid c (case C c of None \<Rightarrow> KUser (mains tid) | Some k \<Rightarrow> k) s1 C
      = Inr (s', C')"
    by (auto simp: turn_def elim!: bnd_InrE)
  have "kont_all P (case C c of None \<Rightarrow> KUser (mains tid) | Some k \<Rightarrow> k)"
    using assms(2,4) by (auto simp: konts_all_def split: option.split)
  from resume_all [OF r this assms(2,3)] show ?thesis .
qed

lemma reachable_all:
  assumes "reachable K code mains w"
    and "\<And>fn a. prog_all P (code fn a)" and "\<And>tid. prog_all P (mains tid)"
  shows "konts_all P (snd w)"
  using assms(1)
proof (induction rule: reachable.induct)
  case (start k)
  show ?case by (simp add: konts_all_def)
next
  case (further w w')
  have "step K code mains (fst w, snd w) (fst w', snd w')" using further(2) by simp
  from step_all [OF this further(3) assms(2,3)] show ?case .
qed

lemma resumed_all:
  assumes "konts_all P C" and "\<And>tid. prog_all P (mains tid)"
  shows "kont_all P (resumed mains tid C c)"
  using assms by (auto simp: resumed_def konts_all_def split: option.split)


section \<open>Programs without co\_join\<close>

definition no_join :: "prog \<Rightarrow> bool" where
  "no_join p \<longleftrightarrow> (\<forall>cid q. p \<noteq> Join cid q)"

lemma no_join_joining:
  assumes "kont_all no_join k"
  shows "\<not> joining k"
proof (cases k)
  case (KUser p)
  with assms show ?thesis by (cases p) (simp_all add: no_join_def)
next
  case (KJoin ep cid p)
  with assms show ?thesis by (simp add: no_join_def)
qed simp_all

lemma no_join_step:
  assumes r: "reachable K code mains (s, C)" and st: "step K code mains (s, C) (s', C')"
    and code: "\<And>fn a. prog_all no_join (code fn a)" and mains: "\<And>tid. prog_all no_join (mains tid)"
  shows "dom (heap s) \<subseteq> dom (heap s')" "\<exists>W. stays W s s'"
proof -
  obtain tid c where g: "good_step (resumed mains tid C c) s C (s', C')"
    using step_good [OF reachable_ok [OF r] st] by auto
  have "konts_all no_join C" using reachable_all [OF r code mains] by simp
  then have "\<not> joining (resumed mains tid C c)" using no_join_joining resumed_all mains by blast
  with g show "dom (heap s) \<subseteq> dom (heap s')" unfolding good_step_def by auto
  show "\<exists>W. stays W s s'" using g by (auto simp: good_step_def)
qed

text \<open>So every slot of a table that is taken stays taken, by the same coroutine.\<close>

lemma no_join_slots:
  assumes r: "reachable K code mains (s, C)" and st: "step K code mains (s, C) (s', C')"
    and code: "\<And>fn a. prog_all no_join (code fn a)" and mains: "\<And>tid. prog_all no_join (mains tid)"
    and env: "envs s ep = Some env" and p: "task env i = Some p"
  shows "\<exists>env'. envs s' ep = Some env' \<and> task env' i = Some p"
proof -
  have ok: "state_ok s" using reachable_ok [OF r] by (simp add: config_but_def)
  have ok': "state_ok s'" using reachable_ok [OF reachable.further [OF r st]] by (simp add: config_but_def)
  obtain t where t: "heap s p = Some t" "tsk_id t = i" "thread_env t = Some ep"
    by (rule state_ok_entry [OF ok env p])
  obtain t' where t': "heap s' p = Some t'"
    using no_join_step(1) [OF r st code mains] t(1) by blast
  obtain W where "stays W s s'" using no_join_step(2) [OF r st code mains] by blast
  from staysD(1,2) [OF this t(1) t'] t have "tsk_id t' = i" "thread_env t' = Some ep" by simp_all
  with state_ok_task [OF ok' t'] show ?thesis by fastforce
qed

lemma no_join_table:
  assumes r: "reachable K code mains (s, C)" and st: "step K code mains (s, C) (s', C')"
    and code: "\<And>fn a. prog_all no_join (code fn a)" and mains: "\<And>tid. prog_all no_join (mains tid)"
    and env: "envs s ep = Some env"
  shows "\<exists>env'. envs s' ep = Some env' \<and> (\<forall>i p. task env i = Some p \<longrightarrow> task env' i = Some p)"
proof -
  note slot = no_join_slots [OF r st code mains env]
  have "state_ok s" using reachable_ok [OF r] by (simp add: config_but_def)
  then obtain c i where "task env i = Some c" using env unfolding state_ok_def env_ok_def by blast
  then obtain env' where env': "envs s' ep = Some env'" using slot by blast
  moreover have "task env' i = Some p" if "task env i = Some p" for i p
    using slot [OF that] env' by simp
  ultimately show ?thesis by blast
qed

section \<open>Programs without co\_eventloop\<close>

definition no_loop :: "prog \<Rightarrow> bool" where
  "no_loop p \<longleftrightarrow> p \<noteq> EventLoop"

lemma no_loop_looping: "kont_all no_loop k \<Longrightarrow> \<not> looping k"
  by (cases k) (simp_all add: no_loop_def)

lemma no_loop_dead:
  assumes "reachable K code mains w"
    and code: "\<And>fn a. prog_all no_loop (code fn a)" and mains: "\<And>tid. prog_all no_loop (mains tid)"
  shows "\<forall>p. snd w p = Some KDead \<longrightarrow> (\<exists>t. heap (fst w) p = Some t \<and> status t = COROUTINE_EXIT)"
  using assms(1)
proof (induction rule: reachable.induct)
  case (start k)
  show ?case by simp
next
  case (further w w')
  obtain tid c where g: "good_step (resumed mains tid (snd w) c) (fst w) (snd w) w'"
    using step_good [OF reachable_ok [OF further(1)] further(2)] by blast
  let ?k = "resumed mains tid (snd w) c"
  have "konts_all no_loop (snd w)" by (rule reachable_all [OF further(1) code mains])
  then have "\<not> looping ?k" using no_loop_looping resumed_all mains by blast
  then have st: "stays False (fst w) (fst w')" using g by (simp add: good_step_def)
  have ok': "config_ok w'" using g by (simp add: good_step_def)
  show ?case
  proof (intro allI impI)
    fix p assume dead: "snd w' p = Some KDead"
    then consider "snd w p = Some KDead" | "\<exists>t. heap (fst w') p = Some t \<and> status t = COROUTINE_EXIT"
      using g unfolding good_step_def by blast
    then show "\<exists>t. heap (fst w') p = Some t \<and> status t = COROUTINE_EXIT"
    proof cases
      case 1
      then obtain t where t: "heap (fst w) p = Some t" "status t = COROUTINE_EXIT"
        using further(3) by blast
      obtain t' where t': "heap (fst w') p = Some t'"
        using dead ok' unfolding config_but_def by blast
      from staysD(3) [OF st t(1) t'] t(2) t' show ?thesis by blast
    qed blast
  qed
qed


section \<open>Properties\<close>

text \<open>
  C10: If no program calls co_eventloop, a coroutine has exited exactly when it is parked at the
  end of start, and it never becomes current again, so the fatal error of start is unreachable.
\<close>

theorem finished_never_runs:
  assumes "reachable K code mains (s, C)"
    and "\<And>fn a. prog_all no_loop (code fn a)" and "\<And>tid. prog_all no_loop (mains tid)"
  shows "(\<forall>p. C p = Some KDead \<longleftrightarrow> (\<exists>t. heap s p = Some t \<and> status t = COROUTINE_EXIT)) \<and>
    (\<forall>ep env c t. is_current s ep env c t \<longrightarrow> C c \<noteq> Some KDead)"
proof -
  have al: "alive s" and ex: "\<forall>p t. heap s p = Some t \<longrightarrow> status t = COROUTINE_EXIT \<longrightarrow> C p = Some KDead"
    using reachable_ok [OF assms(1)] by (simp_all add: config_but_def)
  have d: "\<forall>p. C p = Some KDead \<longrightarrow> (\<exists>t. heap s p = Some t \<and> status t = COROUTINE_EXIT)"
    using no_loop_dead [OF assms] by simp
  have "C c \<noteq> Some KDead" if cur: "is_current s ep env c t" for ep env c t
  proof
    assume "C c = Some KDead"
    with d cur have "status t = COROUTINE_EXIT" by (auto simp: is_current_def)
    with alive_current [OF al cur] show False by simp
  qed
  with ex d show ?thesis by blast
qed

theorem finished_never_runs_witness:
  "([1 \<mapsto> KJoin 0 1 Return, 2 \<mapsto> KDead] :: konts) 2 = Some KDead \<and>
   (\<exists>t. heap ex3 2 = Some t \<and> status t = COROUTINE_EXIT) \<and>
   (\<forall>t. \<not> is_current ex3 0 ex1_env 2 t)"
proof -
  let ?C = "[1 \<mapsto> KJoin 0 1 Return, 2 \<mapsto> KDead] :: konts"
  have r: "reachable ex_os demo_code demo_main (ex3, ?C)"
    using demo_reachable(3) unfolding demo_w_simps .
  have p: "prog_all no_loop (demo_code fn a)" "prog_all no_loop (demo_main tid)" for fn a tid
    by (simp_all add: demo_code_def demo_main_def no_loop_def split: option.split)
  have two: "?C 2 = Some KDead" by simp
  with finished_never_runs [OF r p] show ?thesis by blast
qed

end
