(* ===== verification/Examples.thy ===== *)
theory Examples
  imports Programs
begin

text \<open>
  The example programs \<open>demo01.c\<close> (sleeping coroutines in two threads, then joined) and
  \<open>demo03.c\<close> (an echo server with one coroutine per client), as programs over the library. What
  they print is left out. A local variable that a failed \<open>co_create\<close> leaves uninitialised holds the
  parameter \<open>junk\<close>. The functions of a program have the addresses that its \<open>code\<close> knows them by.
\<close>

section \<open>demo01.c\<close>

text \<open>\<open>int i = n; while (i--) co_sleep(d);\<close> and then \<open>p\<close>.\<close>

fun sleep_loop :: "nat \<Rightarrow> int \<Rightarrow> prog \<Rightarrow> prog" where
  "sleep_loop 0 d p = p"
| "sleep_loop (Suc i) d p = Sleep d (sleep_loop i d p)"

definition fun1 :: prog where
  "fun1 = sleep_loop 2 4 Return"

definition fun2 :: prog where
  "fun2 = sleep_loop 10 1 Return"

definition fun3 :: prog where
  "fun3 = sleep_loop 2 1 Return"

definition fun4 :: prog where
  "fun4 = sleep_loop 8 1 Return"

definition fun5 :: prog where
  "fun5 = sleep_loop 4 1 Return"

definition demo01_code :: "voidp \<Rightarrow> voidp \<Rightarrow> prog" where
  "demo01_code fn a =
     (if fn = 1 then fun1 else if fn = 2 then fun2 else if fn = 3 then fun3
      else if fn = 4 then fun4 else fun5)"

text \<open>The value of \<open>tid\<close> after \<open>co_create(\&tid, \<dots>)\<close>.\<close>

definition id_or :: "int \<Rightarrow> nat option \<Rightarrow> int" where
  "id_or junk out = (case out of Some i \<Rightarrow> int i | None \<Rightarrow> junk)"

definition th_fn :: "int \<Rightarrow> prog" where
  "th_fn junk =
     Create 4 0 (\<lambda>_ tid4. Create 5 0 (\<lambda>_ tid5.
     sleep_loop 2 3
       (Join (id_or junk tid4) (Join (id_or junk tid5) Return))))"

definition demo01_main :: "voidp \<Rightarrow> int \<Rightarrow> prog" where
  "demo01_main info junk =
     Create 1 0 (\<lambda>_ tid1. Create 2 0 (\<lambda>_ tid2. Create 3 info (\<lambda>_ tid3.
     sleep_loop 2 3
       (Join (id_or junk tid1) (Join (id_or junk tid2) (Join (id_or junk tid3) Return))))))"

text \<open>The thread \<open>t0\<close> runs \<open>main\<close>, the other one \<open>th_fn\<close>.\<close>

definition demo01_mains :: "int \<Rightarrow> voidp \<Rightarrow> int \<Rightarrow> int \<Rightarrow> prog" where
  "demo01_mains t0 info junk tid = (if tid = t0 then demo01_main info junk else th_fn junk)"

section \<open>demo03.c\<close>

text \<open>Where \<open>do_client\<close> is: at the head of its loop, behind \<open>co_read\<close>, behind \<open>co_write\<close>.\<close>

datatype (discs_sels) client_at = AtRead | AfterRead int | AfterWrite int

primcorec do_client_at :: "int \<Rightarrow> client_at \<Rightarrow> prog" where
  "do_client_at clifd at =
     (case at of
        AtRead \<Rightarrow> Read clifd 63 (\<lambda>n. do_client_at clifd (AfterRead n))
      | AfterRead n \<Rightarrow>
          if n < 0 then Abort (Exit (-1))
          else if n = 0 then Return
          else if 64 \<le> n then Abort OutOfBounds
          else Write clifd (nat n) (\<lambda>n. do_client_at clifd (AfterWrite n))
      | AfterWrite n \<Rightarrow>
          if n < 0 then Abort (Exit (-1))
          else Read clifd 63 (\<lambda>n. do_client_at clifd (AfterRead n)))"

text \<open>\<open>(int)(long)arg\<close>.\<close>

definition int_of_arg :: "voidp \<Rightarrow> int" where
  "int_of_arg a = sint (ucast a :: 32 word)"

definition do_client :: "voidp \<Rightarrow> prog" where
  "do_client a = do_client_at (int_of_arg a) AtRead"

text \<open>\<open>my_accept\<close> is at \<open>co_accept\<close> or behind it; \<open>listenfd\<close> is what its argument points to.\<close>

datatype (discs_sels) accept_at = AtAccept | AfterAccept int

primcorec my_accept_at :: "int \<Rightarrow> accept_at \<Rightarrow> prog" where
  "my_accept_at listenfd at =
     (case at of
        AtAccept \<Rightarrow> Accept listenfd (\<lambda>clifd. my_accept_at listenfd (AfterAccept clifd))
      | AfterAccept clifd \<Rightarrow>
          if clifd < 0 then Abort (Exit (-1))
          else Create 1 (word_of_int clifd) (\<lambda>_ _. my_accept_at listenfd AtAccept))"

definition demo03_code :: "int \<Rightarrow> voidp \<Rightarrow> voidp \<Rightarrow> prog" where
  "demo03_code listenfd fn a = (if fn = 1 then do_client a else my_accept_at listenfd AtAccept)"

text \<open>\<open>main\<close>, given the result of \<open>bind\<close>; what follows \<open>co_eventloop\<close> is never reached.\<close>

definition demo03_main :: "int \<Rightarrow> voidp \<Rightarrow> prog" where
  "demo03_main ret a = (if ret < 0 then Abort (Exit (-1)) else Create 2 a (\<lambda>_ _. EventLoop))"

section \<open>How they behave\<close>

lemma do_client_at_simps:
  "do_client_at fd AtRead = Read fd 63 (\<lambda>n. do_client_at fd (AfterRead n))"
  "do_client_at fd (AfterRead n) =
     (if n < 0 then Abort (Exit (-1)) else if n = 0 then Return else if 64 \<le> n then Abort OutOfBounds
      else Write fd (nat n) (\<lambda>n. do_client_at fd (AfterWrite n)))"
  "do_client_at fd (AfterWrite n) =
     (if n < 0 then Abort (Exit (-1)) else do_client_at fd AtRead)"
  by (subst do_client_at.code; simp)+


lemma my_accept_at_simps:
  "my_accept_at l AtAccept = Accept l (\<lambda>clifd. my_accept_at l (AfterAccept clifd))"
  "my_accept_at l (AfterAccept clifd) =
     (if clifd < 0 then Abort (Exit (-1)) else Create 1 (word_of_int clifd) (\<lambda>_ _. my_accept_at l AtAccept))"
  by (subst my_accept_at.code; simp)+

text \<open>The two loops, as the source writes them.\<close>

lemma do_client_loop:
  "do_client_at fd AtRead =
     Read fd 63 (\<lambda>n.
       if n < 0 then Abort (Exit (-1)) else if n = 0 then Return else if 64 \<le> n then Abort OutOfBounds
       else Write fd (nat n) (\<lambda>m. if m < 0 then Abort (Exit (-1)) else do_client_at fd AtRead))"
  by (rule trans [OF do_client_at_simps(1)]) (simp only: do_client_at_simps(2,3))

lemma my_accept_loop:
  "my_accept_at l AtAccept =
     Accept l (\<lambda>clifd. if clifd < 0 then Abort (Exit (-1))
       else Create 1 (word_of_int clifd) (\<lambda>_ _. my_accept_at l AtAccept))"
  by (rule trans [OF my_accept_at_simps(1)]) (simp only: my_accept_at_simps(2))

text \<open>The descriptor that \<open>my_accept\<close> passes through the \<open>void *\<close> argument arrives unchanged.\<close>

lemma int_of_arg_word: "fits_int x \<Longrightarrow> int_of_arg (word_of_int x) = x"
  by (simp add: int_of_arg_def fits_int_def unsigned_of_int signed_of_int signed_take_bit_take_bit
      signed_take_bit_int_eq_self del: take_bit_of_int)

text \<open>What the programs never call.\<close>

lemma prog_all_do_client:
  assumes "\<And>fd len g. P (Read fd len g)" and "\<And>fd len g. P (Write fd len g)"
    and "\<And>f. P (Abort f)" and "P Return"
  shows "prog_all P (do_client_at fd at)"
proof (coinduction arbitrary: at rule: prog_all.coinduct)
  case prog_all
  show ?case
  proof (cases at)
    case AtRead
    show ?thesis unfolding AtRead do_client_at_simps(1) using assms(1) by blast
  next
    case (AfterRead n)
    show ?thesis unfolding AfterRead do_client_at_simps(2) using assms(2-4) by simp blast
  next
    case (AfterWrite n)
    show ?thesis unfolding AfterWrite do_client_at_simps(3,1) using assms(1,3) by simp blast
  qed
qed

lemma prog_all_my_accept:
  assumes "\<And>fd g. P (Accept fd g)" and "\<And>fn a g. P (Create fn a g)" and "\<And>f. P (Abort f)"
  shows "prog_all P (my_accept_at l at)"
proof (coinduction arbitrary: at rule: prog_all.coinduct)
  case prog_all
  show ?case
  proof (cases at)
    case AtAccept
    show ?thesis unfolding AtAccept my_accept_at_simps(1) using assms(1) by blast
  next
    case (AfterAccept n)
    show ?thesis unfolding AfterAccept my_accept_at_simps(2) using assms(2,3) by simp blast
  qed
qed

lemma demo03_no_join:
  "prog_all no_join (demo03_code l fn a)" "prog_all no_join (demo03_main ret a)"
  by (simp_all add: demo03_code_def do_client_def demo03_main_def no_join_def
      prog_all_do_client prog_all_my_accept)

lemma sleep_loop_all:
  assumes "\<And>d p. P (Sleep d p)" and "prog_all P p"
  shows "prog_all P (sleep_loop i d p)"
  using assms by (induction i) simp_all

lemma demo01_no_loop: "prog_all no_loop (demo01_code fn a)" "prog_all no_loop (demo01_mains t0 info junk tid)"
  by (simp_all add: demo01_code_def fun1_def fun2_def fun3_def fun4_def fun5_def demo01_mains_def
      demo01_main_def th_fn_def sleep_loop_all no_loop_def)


text \<open>Slots that are taken stay taken along an execution.\<close>

lemma no_join_table_steps:
  assumes "(step K code mains)\<^sup>*\<^sup>* w w'" and "reachable K code mains w"
    and code: "\<And>fn a. prog_all no_join (code fn a)" and mains: "\<And>tid. prog_all no_join (mains tid)"
    and "envs (fst w) ep = Some env"
  shows "reachable K code mains w' \<and>
    (\<exists>env'. envs (fst w') ep = Some env' \<and> (\<forall>i p. task env i = Some p \<longrightarrow> task env' i = Some p))"
  using assms(1)
proof (induction rule: rtranclp_induct)
  case base
  with assms(2,5) show ?case by blast
next
  case (step w1 w2)
  then obtain env1 where 1: "reachable K code mains (fst w1, snd w1)" "envs (fst w1) ep = Some env1"
    and kept: "\<And>i p. task env i = Some p \<Longrightarrow> task env1 i = Some p" by auto
  have st: "step K code mains (fst w1, snd w1) (fst w2, snd w2)" using step(2) by simp
  obtain env2 where 2: "envs (fst w2) ep = Some env2" "\<And>i p. task env1 i = Some p \<Longrightarrow> task env2 i = Some p"
    using no_join_table [OF 1(1) st code mains 1(2)] by blast
  moreover have "reachable K code mains w2" by (rule reachable.further [OF _ step(2)]) (use 1(1) in simp)
  ultimately show ?case using kept by blast
qed

section \<open>An execution of demo03\<close>

definition ex_server :: "nat co_state" where
  "ex_server = with_new_task X86_64 0 ex0_env 1 2 77 0 ex0"

definition ex_server_env :: thread_env_t where
  "ex_server_env = \<lparr>task_count = 2, current = Some 1, epfd = 3, task = [0 \<mapsto> 1, 1 \<mapsto> 2]\<rparr>"

lemma ex_server_created: "co_create ex_os 1 True 2 77 ex0 = Inr (0, Some 1, ex_server)"
proof -
  have "envs ex0 0 = Some ex0_env" by (simp add: ex0_fields)
  from co_create_eq [OF ex0_thread this] show ?thesis
    unfolding ex0_slot ex_server_def by (simp add: ex_os_def NR_TASKS_def ex0_fields)
qed

lemma ex_server_envs: "envs ex_server 0 = Some ex_server_env"
  by (simp add: ex_server_def with_new_task_def ex_server_env_def ex0_env_def ex0_fields)

abbreviation server_konts :: "kont \<Rightarrow> konts" where
  "server_konts k \<equiv> [1 \<mapsto> k, 2 \<mapsto> KUser (my_accept_at 5 AtAccept)]"

lemma server_turns:
  "turn ex_os (demo03_code 5) (\<lambda>_. demo03_main 0 77) 1 (init_state 0, \<lambda>_. None) =
     Inr (ex_server, server_konts (KUser EventLoop))"
  "turn ex_os (demo03_code 5) (\<lambda>_. demo03_main 0 77) 1 (ex_server, server_konts (KUser EventLoop)) =
     Inr (ex_server, server_konts (KLoop 0 3))"
proof -
  have c: "envs ex0 0 = Some ex0_env" "current ex0_env = Some 1"
    using ex0_current by (simp_all add: is_current_def)
  show "turn ex_os (demo03_code 5) (\<lambda>_. demo03_main 0 77) 1 (init_state 0, \<lambda>_. None) =
      Inr (ex_server, server_konts (KUser EventLoop))"
    using c
    by (simp add: turn_def ex0_created get_env_def nonnull_def demo03_main_def demo03_code_def
        ex_server_created [unfolded One_nat_def] ex0_fields fun_eq_iff)
  have th: "thread_has ex_server 1 0" using ex0_thread by (simp add: thread_has_def ex_server_def with_new_task_def)
  have cur: "is_current ex_server 0 ex_server_env 1 ex0_main"
    by (simp add: is_current_def ex_server_envs) (simp add: ex_server_env_def ex_server_def with_new_task_def ex0_fields)
  show "turn ex_os (demo03_code 5) (\<lambda>_. demo03_main 0 77) 1 (ex_server, server_konts (KUser EventLoop)) =
      Inr (ex_server, server_konts (KLoop 0 3))"
    by (simp add: turn_known [OF th cur] co_eventloop_enter_def thread_has_get [OF th] get_env_def
        ex_server_envs fun_eq_iff) (simp add: ex_server_env_def)
qed

section \<open>Properties\<close>

text \<open>
  C37: The echo server never gives back a slot of its coroutine table: every slot that is taken
  is held by the same coroutine in every later state, co_create never gives out its id again,
  and once all slots are taken, co_create returns -1 and changes nothing in every later state.
\<close>

theorem demo03_slots_stay:
  assumes "reachable K (demo03_code l) (\<lambda>_. demo03_main ret a) w"
    and "(step K (demo03_code l) (\<lambda>_. demo03_main ret a))\<^sup>*\<^sup>* w w'"
    and "envs (fst w) ep = Some env"
  shows "\<exists>env'. envs (fst w') ep = Some env' \<and> (\<forall>i p. task env i = Some p \<longrightarrow> task env' i = Some p) \<and>
    (\<forall>tid fn x i s1. thread_has (fst w') tid ep \<longrightarrow>
       co_create K tid True fn x (fst w') = Inr (0, Some i, s1) \<longrightarrow> task env i = None) \<and>
    (free_slot env 0 = NR_TASKS \<longrightarrow> (\<forall>tid fn x. thread_has (fst w') tid ep \<longrightarrow>
       co_create K tid True fn x (fst w') = Inr (-1, None, fst w')))"
proof -
  obtain env' where env': "envs (fst w') ep = Some env'" "\<And>i p. task env i = Some p \<Longrightarrow> task env' i = Some p"
    using no_join_table_steps [OF assms(2,1) demo03_no_join assms(3)] by blast
  have "co_create K tid True fn x (fst w') = Inr (-1, None, fst w')"
    if full: "free_slot env 0 = NR_TASKS" and th: "thread_has (fst w') tid ep" for tid fn x
  proof -
    have taken: "task env' i \<noteq> None" if "i < NR_TASKS" for i
      using free_slot_spec [of 0 env] full env'(2) [of i] that by fastforce
    have "free_slot env' 0 \<le> NR_TASKS" "free_slot env' 0 < NR_TASKS \<longrightarrow> task env' (free_slot env' 0) = None"
      using free_slot_spec [of 0 env'] by simp_all
    with taken [of "free_slot env' 0"] have "free_slot env' 0 = NR_TASKS" by linarith
    then show ?thesis by (simp add: co_create_eq [OF th env'(1)])
  qed
  moreover have "task env i = None"
    if th: "thread_has (fst w') tid ep" and new: "co_create K tid True fn x (fst w') = Inr (0, Some i, s1)"
    for tid fn x i s1
  proof -
    have "task env' i = None"
      using new free_slot_spec [of 0 env'] by (auto simp: co_create_eq [OF th env'(1)] split: if_splits prod.splits)
    then show ?thesis using env'(2) [of i] by (cases "task env i") auto
  qed
  ultimately show ?thesis using env' by blast
qed

lemma ex_server_thread: "thread_has ex_server 1 0"
  using ex0_thread by (simp add: thread_has_def ex_server_def with_new_task_def)

lemma ex_server_creates: "\<exists>s. co_create ex_os 1 True 1 7 ex_server = Inr (0, Some 2, s)"
proof -
  have "free_slot ex_server_env 0 = 2"
    by (simp add: free_slot.simps ex_server_env_def NR_TASKS_def numeral_2_eq_2)
  then show ?thesis
    by (simp add: co_create_eq [OF ex_server_thread ex_server_envs] NR_TASKS_def) (simp add: ex_os_def)
qed

theorem demo03_slots_stay_witness:
  "\<exists>env' i s. envs (fst (ex_server, server_konts (KLoop 0 3))) 0 = Some env' \<and>
    task env' 0 = Some 1 \<and> task env' 1 = Some 2 \<and>
    co_create ex_os 1 True 1 7 ex_server = Inr (0, Some i, s) \<and> task ex_server_env i = None"
proof -
  let ?w = "(ex_server, server_konts (KUser EventLoop))"
  have "reachable ex_os (demo03_code 5) (\<lambda>_. demo03_main 0 77) ?w"
    using reachable.start step.turn [OF server_turns(1)] by (rule reachable.further)
  moreover have "(step ex_os (demo03_code 5) (\<lambda>_. demo03_main 0 77))\<^sup>*\<^sup>* ?w (ex_server, server_konts (KLoop 0 3))"
    using step.turn [OF server_turns(2)] by (rule r_into_rtranclp)
  moreover have "envs (fst ?w) 0 = Some ex_server_env" by (simp add: ex_server_envs)
  ultimately have all: "\<exists>env'. envs (fst (ex_server, server_konts (KLoop 0 3))) 0 = Some env' \<and>
      (\<forall>i p. task ex_server_env i = Some p \<longrightarrow> task env' i = Some p) \<and>
      (\<forall>tid fn x i s1. thread_has (fst (ex_server, server_konts (KLoop 0 3))) tid 0 \<longrightarrow>
         co_create ex_os tid True fn x (fst (ex_server, server_konts (KLoop 0 3))) = Inr (0, Some i, s1) \<longrightarrow>
         task ex_server_env i = None) \<and>
      (free_slot ex_server_env 0 = NR_TASKS \<longrightarrow> (\<forall>tid fn x. thread_has (fst (ex_server, server_konts (KLoop 0 3))) tid 0 \<longrightarrow>
         co_create ex_os tid True fn x (fst (ex_server, server_konts (KLoop 0 3))) =
           Inr (-1, None, fst (ex_server, server_konts (KLoop 0 3)))))"
    by (rule demo03_slots_stay)
  obtain s where s: "co_create ex_os 1 True 1 7 ex_server = Inr (0, Some 2, s)" using ex_server_creates by blast
  obtain env' where env': "envs ex_server 0 = Some env'"
    and kept: "\<And>i p. task ex_server_env i = Some p \<Longrightarrow> task env' i = Some p"
    and new: "\<And>i s. co_create ex_os 1 True 1 7 ex_server = Inr (0, Some i, s) \<Longrightarrow> task ex_server_env i = None"
    using all ex_server_thread unfolding fst_conv by (elim exE conjE) simp
  have "task env' 0 = Some 1" "task env' 1 = Some 2" by (rule kept, simp add: ex_server_env_def)+
  with env' s new [OF s] show ?thesis by (intro exI [of _ env'] exI [of _ 2] exI [of _ s]) simp
qed

end
