(* ===== verification/EchoServer.thy ===== *)
theory EchoServer
  imports Examples
begin

text \<open>
  The echo server \<open>demo03.c\<close> as a whole: the laws of the kernel it relies on, the invariant of its
  coroutines (one that accepts, one per client), and what a change of one coroutine, a scheduling
  decision and a blocking call do to it.
\<close>

section \<open>Scheduling without sleepers\<close>

lemma choice_least:
  assumes cid: "cid < NR_TASKS" and main: "running_at s ep 0"
    and above: "\<And>i. running_at s ep i \<Longrightarrow> i = 0 \<or> cid < i" and bound: "\<And>i. running_at s ep i \<Longrightarrow> i < NR_TASKS"
  shows "\<exists>i. choice s ep env cid = task env i \<and> running_at s ep i \<and>
    (\<forall>j. running_at s ep j \<longrightarrow> j \<noteq> 0 \<longrightarrow> i \<noteq> 0 \<and> i \<le> j)"
proof (cases "ring_next NR_TASKS cid (running_at s ep)")
  case None
  then have no: "\<not> running_at s ep j" if "j < NR_TASKS" "j \<noteq> cid" for j
    using that ring_next_None [OF cid] by blast
  have "cid = 0" using no [of 0] main cid by fastforce
  moreover have "\<not> running_at s ep j" if "j \<noteq> 0" for j
    using no [of j] bound [of j] that calculation by auto
  ultimately show ?thesis using None main by (auto simp: choice_def intro!: exI [of _ 0])
next
  case (Some i)
  note n = ring_next_Some [OF cid Some]
  have "i \<noteq> 0 \<and> i \<le> j" if j: "running_at s ep j" "j \<noteq> 0" for j
  proof -
    have "cid < j" "j < NR_TASKS" using above [OF j(1)] bound [OF j(1)] j(2) by simp_all
    moreover have "ring_dist NR_TASKS cid i \<le> ring_dist NR_TASKS cid j" using n j(1) calculation by simp
    ultimately show ?thesis using n cid above [of i] by (auto simp: ring_dist_def split: if_splits)
  qed
  with n Some show ?thesis by (intro exI [of _ i]) (simp add: choice_def)
qed

lemma schedule_next:
  assumes ok: "state_ok s" and th: "thread_has s tid ep" and cur: "is_current s ep env c t"
    and all: "\<And>p tp. heap s p = Some tp \<Longrightarrow> thread_env tp = Some ep \<and> status tp \<noteq> COROUTINE_SLEEP"
    and main: "running_at s ep 0"
    and later: "\<And>p tp. heap s p = Some tp \<Longrightarrow> status tp = COROUTINE_RUNNING \<Longrightarrow> tsk_id tp \<noteq> 0 \<Longrightarrow>
      tsk_id t < tsk_id tp"
  obtains p tp where "schedule K tid s = Inr (s\<lparr>envs := (envs s)(ep \<mapsto> env\<lparr>current := Some p\<rparr>)\<rparr>)"
    and "heap s p = Some tp" and "status tp = COROUTINE_RUNNING" and "task env (tsk_id tp) = Some p"
    and "\<forall>q tq. heap s q = Some tq \<longrightarrow> status tq = COROUTINE_RUNNING \<longrightarrow> tsk_id tq \<noteq> 0 \<longrightarrow>
      tsk_id tp \<noteq> 0 \<and> tsk_id tp \<le> tsk_id tq"
proof -
  note c = is_currentD [OF ok cur]
  have run: "running_at s ep i \<longleftrightarrow>
      (\<exists>p tp. task env i = Some p \<and> heap s p = Some tp \<and> status tp = COROUTINE_RUNNING)" for i
    by (rule running_at_ok [OF ok c(1)])
  have above: "i = 0 \<or> tsk_id t < i" if r: "running_at s ep i" for i
  proof -
    obtain p tp where p: "task env i = Some p" "heap s p = Some tp" "status tp = COROUTINE_RUNNING"
      using r run by blast
    have "tsk_id tp = i" using state_ok_entry [OF ok c(1) p(1)] p(2) by fastforce
    with later [OF p(2,3)] show ?thesis by auto
  qed
  have bound: "i < NR_TASKS" if r: "running_at s ep i" for i
    using r run state_ok_entry [OF ok c(1)] by metis
  from choice_least [OF c(4) main above bound] obtain i where i: "choice s ep env (tsk_id t) = task env i" "running_at s ep i"
    and least: "\<And>j. running_at s ep j \<Longrightarrow> j \<noteq> 0 \<Longrightarrow> i \<noteq> 0 \<and> i \<le> j" by blast
  obtain p tp where p: "task env i = Some p" "heap s p = Some tp" "status tp = COROUTINE_RUNNING"
    using i(2) run by blast
  have id: "tsk_id tp = i" using state_ok_entry [OF ok c(1) p(1)] p(2) by fastforce
  show thesis
  proof (rule that)
    show "schedule K tid s = Inr (s\<lparr>envs := (envs s)(ep \<mapsto> env\<lparr>current := Some p\<rparr>)\<rparr>)"
      by (rule schedule_awake [OF ok th cur]) (use all i p in auto)
    show "\<forall>q tq. heap s q = Some tq \<longrightarrow> status tq = COROUTINE_RUNNING \<longrightarrow> tsk_id tq \<noteq> 0 \<longrightarrow>
      tsk_id tp \<noteq> 0 \<and> tsk_id tp \<le> tsk_id tq"
    proof (intro allI impI)
      fix q tq assume q: "heap s q = Some tq" "status tq = COROUTINE_RUNNING" "tsk_id tq \<noteq> 0"
      have "task env (tsk_id tq) = Some q"
        using state_ok_task [OF ok q(1)] all [OF q(1)] c(1) by fastforce
      then have "running_at s ep (tsk_id tq)" using q run by blast
      with least q(3) id show "tsk_id tp \<noteq> 0 \<and> tsk_id tp \<le> tsk_id tq" by simp
    qed
  qed (use p id in simp_all)
qed

section \<open>The kernel\<close>

text \<open>
  Two views of the kernel: the events \<open>watch k fd\<close> that the epoll instance of the process watches a
  descriptor for (0 when it is not registered), and the set \<open>opened k\<close> of open descriptors. The laws
  are what the manual pages say of the calls. Memory is in nobody's view. \<open>epoll_ctl\<close> that reports
  success has done what it was asked, and removing a registered descriptor succeeds. \<open>epoll_wait\<close>
  reports at most as many events as it was given room for, each of a different registered
  descriptor; which bits an event carries is left open, because \<open>EPOLLERR\<close> and \<open>EPOLLHUP\<close> are
  reported unasked. \<open>accept\<close> returns a descriptor that was not open, \<open>read\<close> returns no more than it was
  asked for.
\<close>

definition sees :: "('k \<Rightarrow> int \<Rightarrow> 32 word) \<Rightarrow> ('k \<Rightarrow> int set) \<Rightarrow> 'k \<Rightarrow> 'k \<Rightarrow> bool" where
  "sees watch opened k k' \<longleftrightarrow> watch k' = watch k \<and> opened k' = opened k"

text \<open>
  The bit that the waiter of a descriptor needs to go on, by what the descriptor is watched for: the
  library adds \<open>EPOLLOUT\<close> for a writer and takes it away when the writer goes on.
\<close>

definition wanted :: "32 word \<Rightarrow> 32 word" where
  "wanted w = (if w AND EPOLLOUT = 0 then EPOLLIN else EPOLLOUT)"

definition epoll_laws :: "'k os \<Rightarrow> ('k \<Rightarrow> int \<Rightarrow> 32 word) \<Rightarrow> ('k \<Rightarrow> int set) \<Rightarrow> bool" where
  "epoll_laws K watch opened \<longleftrightarrow>
     (\<forall>k b k'. os_calloc K k = (b, k') \<longrightarrow> sees watch opened k k') \<and>
     (\<forall>k r k'. os_epoll_create K k = (r, k') \<longrightarrow> sees watch opened k k') \<and>
     (\<forall>epf fd ev k r k'. os_epoll_ctl K epf EPOLL_CTL_ADD fd (Some ev) k = (r, k') \<longrightarrow> 0 \<le> r \<longrightarrow>
        ev_events ev \<noteq> 0 \<longrightarrow> watch k' = (watch k)(fd := ev_events ev) \<and> opened k' = opened k) \<and>
     (\<forall>epf fd ev k r k'. os_epoll_ctl K epf EPOLL_CTL_MOD fd (Some ev) k = (r, k') \<longrightarrow> 0 \<le> r \<longrightarrow>
        ev_events ev \<noteq> 0 \<longrightarrow> watch k' = (watch k)(fd := ev_events ev) \<and> opened k' = opened k) \<and>
     (\<forall>epf fd k r k'. os_epoll_ctl K epf EPOLL_CTL_DEL fd None k = (r, k') \<longrightarrow> watch k fd \<noteq> 0 \<longrightarrow>
        watch k' = (watch k)(fd := 0) \<and> opened k' = opened k) \<and>
     (\<forall>epf k evs k'. os_epoll_wait K epf k = (Some evs, k') \<longrightarrow>
        sees watch opened k k' \<and> length evs \<le> 1024 \<and> distinct (map ev_fd evs) \<and>
        (\<forall>ev \<in> set evs. watch k (ev_fd ev) \<noteq> 0)) \<and>
     (\<forall>fd k r k'. os_accept K fd k = (r, k') \<longrightarrow> 0 \<le> r \<longrightarrow>
        watch k' = watch k \<and> r \<notin> opened k \<and> opened k' = insert r (opened k)) \<and>
     (\<forall>fd n k r k'. os_read K fd n k = (r, k') \<longrightarrow> r \<le> int n \<and> sees watch opened k k') \<and>
     (\<forall>fd n k r k'. os_write K fd n k = (r, k') \<longrightarrow> sees watch opened k k')"

text \<open>Every allocation succeeds.\<close>

definition has_memory :: "'k os \<Rightarrow> bool" where
  "has_memory K \<longleftrightarrow> (\<forall>k. fst (os_calloc K k))"

lemma has_memoryD: "has_memory K \<Longrightarrow> os_calloc K k = (b, k') \<Longrightarrow> b"
  unfolding has_memory_def by (metis fst_conv)

section \<open>One coroutine\<close>

text \<open>
  The descriptor a coroutine of the server works on: a client coroutine was created with it as the
  argument, the accepting coroutine has the listening one.
\<close>

definition desc :: "int \<Rightarrow> task_struct_t \<Rightarrow> int" where
  "desc l t = (if co_fn t = 1 then int_of_arg (arg t) else l)"

text \<open>
  Where a coroutine is: about to make a call (\<open>Ready True\<close> when it may not have waited before),
  in the waiting loop of a call for an event, or at the end.
\<close>

datatype stage = Ready bool | Waits "32 word" | Over

inductive role :: "int \<Rightarrow> taskp \<Rightarrow> bool \<Rightarrow> kont \<Rightarrow> stage \<Rightarrow> bool" for d p where
  accept: "role d p False (KUser (my_accept_at d AtAccept)) (Ready True)"
| accepted: "0 \<le> r \<Longrightarrow> role d p False (KUser (my_accept_at d (AfterAccept r))) (Ready False)"
| accepting: "role d p False (KAccept (Some p) d (\<lambda>r. my_accept_at d (AfterAccept r))) (Waits EPOLLIN)"
| read: "role d p True (KUser (do_client_at d AtRead)) (Ready True)"
| has_read: "0 \<le> n \<Longrightarrow> n \<le> 63 \<Longrightarrow> role d p True (KUser (do_client_at d (AfterRead n))) (Ready False)"
| reading: "role d p True (KRead (Some p) d 63 (\<lambda>n. do_client_at d (AfterRead n))) (Waits EPOLLIN)"
| written: "0 \<le> n \<Longrightarrow> role d p True (KUser (do_client_at d (AfterWrite n))) (Ready False)"
| writing: "role d p True (KWrite (Some p) epf d len (\<lambda>n. do_client_at d (AfterWrite n))) (Waits EPOLLOUT)"
| over: "role d p client KDead Over"

text \<open>What is known of its descriptor: the kernel watches it for what the control block records.\<close>

definition unregistered :: "task_struct_t \<Rightarrow> int \<Rightarrow> 32 word \<Rightarrow> bool" where
  "unregistered t d w \<longleftrightarrow> fds_idx t = 0 \<and> ev_fd (events t (nat d)) = 0 \<and> w = 0"

definition registered_for :: "task_struct_t \<Rightarrow> int \<Rightarrow> 32 word \<Rightarrow> 32 word \<Rightarrow> bool" where
  "registered_for t d E w \<longleftrightarrow>
     fds_idx t = 1 \<and> fds t 0 = d \<and> events t (nat d) = \<lparr>ev_events = E, ev_fd = d\<rparr> \<and> w = E"

text \<open>\<open>Q\<close> is the queue of its descriptor \<open>d\<close>, \<open>e\<close> are its links, \<open>w\<close> is what the kernel watches \<open>d\<close> for.\<close>

fun fits ::
  "envp \<Rightarrow> taskp \<Rightarrow> int \<Rightarrow> task_struct_t \<Rightarrow> (envp \<times> int, taskp) tq_entry option \<Rightarrow> taskp list \<Rightarrow>
   32 word \<Rightarrow> stage \<Rightarrow> bool" where
  "fits ep p d t e Q w (Ready first) \<longleftrightarrow>
     status t = COROUTINE_RUNNING \<and> Q = [] \<and>
     (first \<and> unregistered t d w \<or> registered_for t d EPOLLIN w \<and> e = Some (stale_entry (ep, d)))"
| "fits ep p d t e Q w (Waits ev) \<longleftrightarrow>
     registered_for t d (EPOLLIN OR ev) w \<and> e = Some (stale_entry (ep, d)) \<and>
     (if revents t (nat d) AND ev = 0 then status t = COROUTINE_WAIT \<and> Q = [p]
      else status t = COROUTINE_RUNNING \<and> Q = [])"
| "fits ep p d t e Q w Over \<longleftrightarrow> status t = COROUTINE_EXIT \<and> Q = [] \<and> w = 0"

section \<open>The invariant\<close>

type_synonym waiters = "envp \<times> int \<Rightarrow> taskp list"

definition member ::
  "int \<Rightarrow> ('k \<Rightarrow> int \<Rightarrow> 32 word) \<Rightarrow> envp \<Rightarrow> waiters \<Rightarrow> 'k co_state \<Rightarrow> konts \<Rightarrow> taskp \<Rightarrow> task_struct_t \<Rightarrow> bool"
where
  "member l watch ep q s C p t \<longleftrightarrow>
     (\<exists>k g. C p = Some k \<and> role (desc l t) p (co_fn t = 1) k g \<and>
        fits ep p (desc l t) t (tq_elems (queues s) p) (q (ep, desc l t)) (watch (kst s) (desc l t)) g)"

definition usable :: "('k \<Rightarrow> int set) \<Rightarrow> 'k co_state \<Rightarrow> int \<Rightarrow> bool" where
  "usable opened s d \<longleftrightarrow> 0 < d \<and> d < int MAX_FD \<and> 0 \<in> opened (kst s) \<and> d \<in> opened (kst s)"

text \<open>The main coroutine has the index 0 and is in \<open>co_eventloop\<close>.\<close>

definition main_ok :: "'k co_state \<Rightarrow> envp \<Rightarrow> thread_env_t \<Rightarrow> konts \<Rightarrow> bool" where
  "main_ok s ep env C \<longleftrightarrow>
     (\<exists>m t. task env 0 = Some m \<and> heap s m = Some t \<and> status t = COROUTINE_RUNNING \<and>
        (C m = Some (KUser EventLoop) \<or> (\<exists>epf. C m = Some (KLoop ep epf))))"

definition members_ok ::
  "int \<Rightarrow> ('k \<Rightarrow> int \<Rightarrow> 32 word) \<Rightarrow> ('k \<Rightarrow> int set) \<Rightarrow> envp \<Rightarrow> waiters \<Rightarrow> 'k co_state \<Rightarrow> konts \<Rightarrow> bool" where
  "members_ok l watch opened ep q s C \<longleftrightarrow>
     (\<forall>p t. heap s p = Some t \<longrightarrow> thread_env t = Some ep) \<and>
     (\<forall>p t. heap s p = Some t \<longrightarrow> tsk_id t \<noteq> 0 \<longrightarrow>
        member l watch ep q s C p t \<and> usable opened s (desc l t)) \<and>
     (\<forall>p t p' t'. heap s p = Some t \<longrightarrow> tsk_id t \<noteq> 0 \<longrightarrow> heap s p' = Some t' \<longrightarrow> tsk_id t' \<noteq> 0 \<longrightarrow>
        desc l t = desc l t' \<longrightarrow> p = p') \<and>
     (\<forall>d. watch (kst s) d \<noteq> 0 \<longrightarrow> (\<exists>p t. heap s p = Some t \<and> tsk_id t \<noteq> 0 \<and> desc l t = d)) \<and>
     (\<forall>h p. p \<in> set (q h) \<longrightarrow> (\<exists>t. heap s p = Some t \<and> tsk_id t \<noteq> 0 \<and> h = (ep, desc l t))) \<and>
     (\<forall>p t fn a f. heap s p = Some t \<longrightarrow> C p = Some (KUser (Create fn a f)) \<longrightarrow>
        usable opened s (int_of_arg a) \<and>
        (\<forall>p' t'. heap s p' = Some t' \<longrightarrow> tsk_id t' \<noteq> 0 \<longrightarrow> desc l t' \<noteq> int_of_arg a))"

definition server_ok ::
  "int \<Rightarrow> ('k \<Rightarrow> int \<Rightarrow> 32 word) \<Rightarrow> ('k \<Rightarrow> int set) \<Rightarrow> int \<Rightarrow> envp \<Rightarrow> thread_env_t \<Rightarrow> waiters \<Rightarrow>
   'k co_state \<Rightarrow> konts \<Rightarrow> bool" where
  "server_ok l watch opened tid ep env q s C \<longleftrightarrow>
     thread_has s tid ep \<and> envs s ep = Some env \<and> tq_family (queues s) q \<and> main_ok s ep env C \<and>
     members_ok l watch opened ep q s C \<and> (\<forall>i j. task env i \<noteq> None \<longrightarrow> j < i \<longrightarrow> task env j \<noteq> None)"

text \<open>
  The current coroutine has not ended, the runnable ones come after it in the table; when the main coroutine runs,
  only coroutines that never waited are runnable.
\<close>

definition in_order :: "'k co_state \<Rightarrow> task_struct_t \<Rightarrow> bool" where
  "in_order s tc \<longleftrightarrow> status tc \<noteq> COROUTINE_EXIT \<and>
     (\<forall>p t. heap s p = Some t \<longrightarrow> tsk_id t \<noteq> 0 \<longrightarrow> status t = COROUTINE_RUNNING \<longrightarrow>
        (if tsk_id tc = 0 then fds_idx t = 0 else tsk_id tc \<le> tsk_id t))"

section \<open>Changes of one coroutine\<close>

lemma member_frame:
  assumes "member l watch ep q s C p t" and "C' p = C p"
    and "tq_elems (queues s') p = tq_elems (queues s) p" and "q' (ep, desc l t) = q (ep, desc l t)"
    and "watch (kst s') (desc l t) = watch (kst s) (desc l t)"
  shows "member l watch ep q' s' C' p t"
  using assms by (simp add: member_def)

lemma members_okD:
  assumes "members_ok l watch opened ep q s C"
  shows "heap s p = Some t \<Longrightarrow> thread_env t = Some ep"
    and "heap s p = Some t \<Longrightarrow> tsk_id t \<noteq> 0 \<Longrightarrow> member l watch ep q s C p t"
    and "heap s p = Some t \<Longrightarrow> tsk_id t \<noteq> 0 \<Longrightarrow> usable opened s (desc l t)"
    and "heap s p = Some t \<Longrightarrow> tsk_id t \<noteq> 0 \<Longrightarrow> heap s p' = Some t' \<Longrightarrow> tsk_id t' \<noteq> 0 \<Longrightarrow>
      desc l t = desc l t' \<Longrightarrow> p = p'"
    and "watch (kst s) d \<noteq> 0 \<Longrightarrow> \<exists>p t. heap s p = Some t \<and> tsk_id t \<noteq> 0 \<and> desc l t = d"
    and "heap s p = Some t \<Longrightarrow> C p = Some (KUser (Create fn a f)) \<Longrightarrow> usable opened s (int_of_arg a)"
    and "heap s p = Some t \<Longrightarrow> C p = Some (KUser (Create fn a f)) \<Longrightarrow> heap s p' = Some t' \<Longrightarrow>
      tsk_id t' \<noteq> 0 \<Longrightarrow> desc l t' \<noteq> int_of_arg a"
    and "p \<in> set (q h) \<Longrightarrow> \<exists>t. heap s p = Some t \<and> tsk_id t \<noteq> 0 \<and> h = (ep, desc l t)"
  using assms unfolding members_ok_def by blast+

lemma fits_queue: "fits ep p d t e Q w g \<Longrightarrow> set Q \<subseteq> {p}"
  by (cases g) (auto split: if_splits)

text \<open>
  A step of the coroutine \<open>c\<close> that changes its own block, its own queue, its own links and what the
  kernel watches its descriptor for.
\<close>

definition own_change ::
  "int \<Rightarrow> ('k \<Rightarrow> int \<Rightarrow> 32 word) \<Rightarrow> ('k \<Rightarrow> int set) \<Rightarrow> envp \<Rightarrow> taskp \<Rightarrow> task_struct_t \<Rightarrow> task_struct_t \<Rightarrow>
   waiters \<Rightarrow> 'k co_state \<Rightarrow> waiters \<Rightarrow> 'k co_state \<Rightarrow> bool" where
  "own_change l watch opened ep c t t' q s q' s1 \<longleftrightarrow>
     heap s c = Some t \<and> tsk_id t \<noteq> 0 \<and> heap s1 = (heap s)(c \<mapsto> t') \<and>
     tsk_id t' = tsk_id t \<and> thread_env t' = thread_env t \<and> desc l t' = desc l t \<and>
     (\<forall>p. p \<noteq> c \<longrightarrow> tq_elems (queues s1) p = tq_elems (queues s) p) \<and>
     (\<forall>h. h \<noteq> (ep, desc l t) \<longrightarrow> q' h = q h) \<and>
     (\<forall>d. d \<noteq> desc l t \<longrightarrow> watch (kst s1) d = watch (kst s) d) \<and> opened (kst s) \<subseteq> opened (kst s1)"

lemma own_changeD:
  assumes "own_change l watch opened ep c t t' q s q' s1"
  shows "heap s c = Some t" "tsk_id t \<noteq> 0" "heap s1 = (heap s)(c \<mapsto> t')"
    "tsk_id t' = tsk_id t" "thread_env t' = thread_env t" "desc l t' = desc l t"
    "p \<noteq> c \<Longrightarrow> tq_elems (queues s1) p = tq_elems (queues s) p"
    "h \<noteq> (ep, desc l t) \<Longrightarrow> q' h = q h"
    "d \<noteq> desc l t \<Longrightarrow> watch (kst s1) d = watch (kst s) d"
    "usable opened s d \<Longrightarrow> usable opened s1 d"
  using assms unfolding own_change_def usable_def by blast+

lemma own_change_before:
  assumes ch: "own_change l watch opened ep c t t' q s q' s1" and p: "heap s1 p = Some tp"
  obtains t0 where "heap s p = Some t0" "tsk_id tp = tsk_id t0" "thread_env tp = thread_env t0" "desc l tp = desc l t0"
proof (cases "p = c")
  case True
  with p own_changeD [OF ch] that [of t] show thesis by auto
next
  case False
  with p own_changeD(3) [OF ch] that [of tp] show thesis by auto
qed

lemma own_change_forth:
  assumes "own_change l watch opened ep c t t' q s q' s1" and "heap s p = Some t0"
  shows "\<exists>tp. heap s1 p = Some tp \<and> tsk_id tp = tsk_id t0 \<and> desc l tp = desc l t0"
  using assms(2) own_changeD(1,3,4,6) [OF assms(1)] by (cases "p = c") auto

lemma own_change_member:
  assumes ch: "own_change l watch opened ep c t t' q s q' s1" and ok: "members_ok l watch opened ep q s C"
    and mem: "member l watch ep q' s1 (C(c \<mapsto> k)) c t'" and p: "heap s1 p = Some tp" "tsk_id tp \<noteq> 0"
  shows "member l watch ep q' s1 (C(c \<mapsto> k)) p tp"
proof (cases "p = c")
  case True
  with p mem own_changeD(3) [OF ch] show ?thesis by simp
next
  case False
  note D = members_okD [OF ok] and O = own_changeD [OF ch]
  have old: "heap s p = Some tp" using p(1) False by (simp add: O(3))
  have "desc l tp \<noteq> desc l t" using D(4) [OF old p(2) O(1,2)] False by blast
  from member_frame [OF D(2) [OF old p(2)], of "C(c \<mapsto> k)" s1 q'] this O(7-9) False
  show ?thesis by simp
qed

lemma own_change_watched:
  assumes ch: "own_change l watch opened ep c t t' q s q' s1" and ok: "members_ok l watch opened ep q s C"
    and d: "watch (kst s1) d \<noteq> 0"
  shows "\<exists>p tp. heap s1 p = Some tp \<and> tsk_id tp \<noteq> 0 \<and> desc l tp = d"
proof (cases "d = desc l t")
  case True
  with own_changeD [OF ch] show ?thesis by (intro exI [of _ c] exI [of _ t']) simp
next
  case False
  then obtain p tp where "heap s p = Some tp" "tsk_id tp \<noteq> 0" "desc l tp = d"
    using members_okD(5) [OF ok, of d] own_changeD(9) [OF ch] d by auto
  with own_change_forth [OF ch] show ?thesis by metis
qed

lemma own_change_queued:
  assumes ch: "own_change l watch opened ep c t t' q s q' s1" and ok: "members_ok l watch opened ep q s C"
    and mem: "member l watch ep q' s1 (C(c \<mapsto> k)) c t'" and x: "p \<in> set (q' x)"
  shows "\<exists>tp. heap s1 p = Some tp \<and> tsk_id tp \<noteq> 0 \<and> x = (ep, desc l tp)"
proof (cases "x = (ep, desc l t)")
  case True
  note O = own_changeD [OF ch]
  have "set (q' (ep, desc l t)) \<subseteq> {c}" using mem O(6) by (auto simp: member_def dest!: fits_queue)
  then have "p = c" using x True by auto
  then show ?thesis using True O by (intro exI [of _ t']) simp
next
  case False
  then obtain tp where "heap s p = Some tp" "tsk_id tp \<noteq> 0" "x = (ep, desc l tp)"
    using members_okD(8) [OF ok, of p x] own_changeD(8) [OF ch] x by auto
  with own_change_forth [OF ch] show ?thesis by metis
qed

lemma members_change:
  assumes ok: "members_ok l watch opened ep q s C" and ch: "own_change l watch opened ep c t t' q s q' s1"
    and mem: "member l watch ep q' s1 (C(c \<mapsto> k)) c t'"
    and new: "\<And>fn a f. k = KUser (Create fn a f) \<Longrightarrow> usable opened s1 (int_of_arg a) \<and>
        (\<forall>p' t'. heap s p' = Some t' \<longrightarrow> tsk_id t' \<noteq> 0 \<longrightarrow> desc l t' \<noteq> int_of_arg a)"
  shows "members_ok l watch opened ep q' s1 (C(c \<mapsto> k))"
  unfolding members_ok_def
proof (intro conjI allI impI)
  note D = members_okD [OF ok] and O = own_changeD [OF ch]
  fix p tp assume p: "heap s1 p = Some tp"
  then obtain t0 where t0: "heap s p = Some t0" "tsk_id tp = tsk_id t0" "thread_env tp = thread_env t0"
    "desc l tp = desc l t0" by (rule own_change_before [OF ch])
  show "thread_env tp = Some ep" using D(1) [OF t0(1)] t0(3) by simp
  show "member l watch ep q' s1 (C(c \<mapsto> k)) p tp" if "tsk_id tp \<noteq> 0"
    by (rule own_change_member [OF ch ok mem p that])
  show "usable opened s1 (desc l tp)" if "tsk_id tp \<noteq> 0" using D(3) [OF t0(1)] O(10) t0(2,4) that by simp
  show "p = p'" if nz: "tsk_id tp \<noteq> 0" and p': "heap s1 p' = Some tp'" "tsk_id tp' \<noteq> 0" and d: "desc l tp = desc l tp'"
    for p' tp'
    using p'(1) by (rule own_change_before [OF ch]) (use D(4) [OF t0(1)] t0(2,4) nz p'(2) d in simp)
  show "usable opened s1 (int_of_arg a)" if "(C(c \<mapsto> k)) p = Some (KUser (Create fn a f))" for fn a f
    using that new D(6) [OF t0(1)] O(10) by (auto split: if_splits)
  show "desc l tp' \<noteq> int_of_arg a"
    if k: "(C(c \<mapsto> k)) p = Some (KUser (Create fn a f))" and p': "heap s1 p' = Some tp'" and nz: "tsk_id tp' \<noteq> 0"
    for fn a f p' tp'
  proof -
    obtain t1 where "heap s p' = Some t1" "tsk_id tp' = tsk_id t1" "desc l tp' = desc l t1"
      using p' by (rule own_change_before [OF ch])
    with nz k new D(7) [OF t0(1)] show ?thesis by (auto split: if_splits)
  qed
qed (use own_change_watched [OF ch ok] own_change_queued [OF ch ok mem] in blast)+

section \<open>The server between two calls\<close>

definition serving ::
  "int \<Rightarrow> ('k \<Rightarrow> int \<Rightarrow> 32 word) \<Rightarrow> ('k \<Rightarrow> int set) \<Rightarrow> int \<Rightarrow> envp \<Rightarrow> thread_env_t \<Rightarrow> waiters \<Rightarrow> taskp \<Rightarrow>
   task_struct_t \<Rightarrow> 'k co_state \<Rightarrow> konts \<Rightarrow> bool" where
  "serving l watch opened tid ep env q c t s C \<longleftrightarrow>
     state_ok s \<and> server_ok l watch opened tid ep env q s C \<and> is_current s ep env c t \<and> in_order s t"

lemma server_okD:
  assumes "server_ok l watch opened tid ep env q s C"
  shows "thread_has s tid ep" "envs s ep = Some env" "tq_family (queues s) q" "main_ok s ep env C"
    "members_ok l watch opened ep q s C"
    "task env i \<noteq> None \<Longrightarrow> j < i \<Longrightarrow> task env j \<noteq> None"
  using assms unfolding server_ok_def by blast+

lemma entry_of:
  assumes ok: "state_ok s" and sv: "server_ok l watch opened tid ep env q s C" and p: "heap s p = Some t"
  shows "task env (tsk_id t) = Some p"
proof -
  have "thread_env t = Some ep" by (rule members_okD(1) [OF server_okD(5) [OF sv] p])
  with state_ok_task [OF ok p] server_okD(2) [OF sv] show ?thesis by fastforce
qed

lemma main_of:
  assumes ok: "state_ok s" and sv: "server_ok l watch opened tid ep env q s C"
    and p: "heap s p = Some t" "tsk_id t = 0"
  shows "status t = COROUTINE_RUNNING" "C p = Some (KUser EventLoop) \<or> (\<exists>epf. C p = Some (KLoop ep epf))"
proof -
  obtain m tm where m: "task env 0 = Some m" "heap s m = Some tm" "status tm = COROUTINE_RUNNING"
      "C m = Some (KUser EventLoop) \<or> (\<exists>epf. C m = Some (KLoop ep epf))"
    using server_okD(4) [OF sv] unfolding main_ok_def by blast
  have "p = m" using entry_of [OF ok sv p(1)] p(2) m(1) by simp
  with p(1) m show "status t = COROUTINE_RUNNING"
    "C p = Some (KUser EventLoop) \<or> (\<exists>epf. C p = Some (KLoop ep epf))" by simp_all
qed

lemma fits_status:
  "fits ep p d t e Q w g \<Longrightarrow> status t \<noteq> COROUTINE_SLEEP"
  by (cases g) (auto split: if_splits)

lemma no_sleeper:
  assumes "state_ok s" and sv: "server_ok l watch opened tid ep env q s C" and p: "heap s p = Some t"
  shows "status t \<noteq> COROUTINE_SLEEP"
proof (cases "tsk_id t = 0")
  case True
  with main_of(1) [OF assms] show ?thesis by simp
next
  case False
  from members_okD(2) [OF server_okD(5) [OF sv] p this] show ?thesis
    unfolding member_def by (auto dest: fits_status)
qed

lemma server_change:
  assumes ok: "state_ok s" and sv: "server_ok l watch opened tid ep env q s C"
    and c: "heap s c = Some t" "tsk_id t \<noteq> 0"
    and sim: "same_tasks s s1" and h: "heap s1 = (heap s)(c \<mapsto> t')" and d: "desc l t' = desc l t"
    and links: "\<And>p. p \<noteq> c \<Longrightarrow> tq_elems (queues s1) p = tq_elems (queues s) p"
    and q: "tq_family (queues s1) (q((ep, desc l t) := Q))"
    and w: "\<And>d. d \<noteq> desc l t \<Longrightarrow> watch (kst s1) d = watch (kst s) d"
    and o: "opened (kst s) \<subseteq> opened (kst s1)"
    and r: "role (desc l t) c (co_fn t' = 1) k g" "fits ep c (desc l t) t' (tq_elems (queues s1) c) Q (watch (kst s1) (desc l t)) g"
    and new: "\<And>fn a f. k = KUser (Create fn a f) \<Longrightarrow> usable opened s1 (int_of_arg a) \<and>
        (\<forall>p' t'. heap s p' = Some t' \<longrightarrow> tsk_id t' \<noteq> 0 \<longrightarrow> desc l t' \<noteq> int_of_arg a)"
  shows "server_ok l watch opened tid ep env (q((ep, desc l t) := Q)) s1 (C(c \<mapsto> k))"
proof -
  have e: "envs s1 = envs s" using sim unfolding same_tasks_def by blast
  have t': "tsk_id t' = tsk_id t" "thread_env t' = thread_env t"
    using same_tasks_back [OF sim, of c t'] c(1) h by fastforce+
  have mem: "member l watch ep (q((ep, desc l t) := Q)) s1 (C(c \<mapsto> k)) c t'"
    using r by (auto simp: member_def d)
  have "own_change l watch opened ep c t t' q s (q((ep, desc l t) := Q)) s1"
    using c h t' d links w o by (simp add: own_change_def)
  then have "members_ok l watch opened ep (q((ep, desc l t) := Q)) s1 (C(c \<mapsto> k))"
    by (rule members_change [OF server_okD(5) [OF sv] _ mem new])
  moreover have "main_ok s1 ep env (C(c \<mapsto> k))"
  proof -
    obtain m tm where m: "task env 0 = Some m" "heap s m = Some tm" "status tm = COROUTINE_RUNNING"
        "C m = Some (KUser EventLoop) \<or> (\<exists>epf. C m = Some (KLoop ep epf))"
      using server_okD(4) [OF sv] unfolding main_ok_def by blast
    have "tsk_id tm = 0"
      using state_ok_entry [OF ok server_okD(2) [OF sv] m(1)] m(2) by fastforce
    then have "m \<noteq> c" using c m(2) by auto
    with m show ?thesis unfolding main_ok_def by (intro exI [of _ m] exI [of _ tm]) (simp add: h)
  qed
  moreover have "thread_has s1 tid ep" using server_okD(1) [OF sv] same_tasks_thread [OF sim] by simp
  ultimately show ?thesis
    using server_okD(2,6) [OF sv] q e unfolding server_ok_def by auto
qed

lemma schedule_serves:
  assumes ok: "state_ok s" and sv: "server_ok l watch opened tid ep env q s C"
    and cur: "is_current s ep env c t"
    and later: "\<And>p tp. heap s p = Some tp \<Longrightarrow> status tp = COROUTINE_RUNNING \<Longrightarrow> tsk_id tp \<noteq> 0 \<Longrightarrow>
      tsk_id t < tsk_id tp"
  shows "\<exists>s' env' c' t'. schedule K tid s = Inr s' \<and> serving l watch opened tid ep env' q c' t' s' C \<and>
    heap s' = heap s"
proof -
  note D = server_okD [OF sv]
  obtain m tm where m: "task env 0 = Some m" "heap s m = Some tm" "status tm = COROUTINE_RUNNING"
    using D(4) unfolding main_ok_def by blast
  have run: "running_at s ep 0" using running_at_ok [OF ok D(2)] m by blast
  have all: "thread_env tp = Some ep \<and> status tp \<noteq> COROUTINE_SLEEP" if "heap s p = Some tp" for p tp
    using members_okD(1) [OF D(5) that] no_sleeper [OF ok sv that] by simp
  obtain p tp where p: "schedule K tid s = Inr (s\<lparr>envs := (envs s)(ep \<mapsto> env\<lparr>current := Some p\<rparr>)\<rparr>)"
      "heap s p = Some tp" "status tp = COROUTINE_RUNNING"
    and least: "\<forall>q tq. heap s q = Some tq \<longrightarrow> status tq = COROUTINE_RUNNING \<longrightarrow> tsk_id tq \<noteq> 0 \<longrightarrow>
      tsk_id tp \<noteq> 0 \<and> tsk_id tp \<le> tsk_id tq"
    by (rule schedule_next [where K = K, OF ok D(1) cur all run later])
  let ?env = "env\<lparr>current := Some p\<rparr>" and ?s = "s\<lparr>envs := (envs s)(ep \<mapsto> env\<lparr>current := Some p\<rparr>)\<rparr>"
  have "state_ok ?s" using schedule_ok [OF ok D(1) cur p(1)] by simp
  moreover have "server_ok l watch opened tid ep ?env q ?s C"
    using D unfolding server_ok_def
    by (simp add: thread_has_def main_ok_def members_ok_def member_def usable_def)
  moreover have "is_current ?s ep ?env p tp" using p(2) by (simp add: is_current_def)
  moreover have "in_order ?s tp" using least p(3) by (auto simp: in_order_def)
  ultimately have "serving l watch opened tid ep ?env q p tp ?s C" by (simp add: serving_def)
  moreover have "heap ?s = heap s" by simp
  ultimately show ?thesis using p(1) by blast
qed

lemma step_aside:
  assumes sg: "serving l watch opened tid ep env q c t s C" and nz: "tsk_id t \<noteq> 0"
    and sim: "same_tasks s s1" and h: "heap s1 = (heap s)(c \<mapsto> t')" and st: "status t' \<noteq> COROUTINE_RUNNING"
    and sv: "server_ok l watch opened tid ep env q' s1 C'"
  shows "\<exists>s' env' c' t'. schedule K tid s1 = Inr s' \<and> serving l watch opened tid ep env' q' c' t' s' C'"
proof -
  have ok: "state_ok s" and sv0: "server_ok l watch opened tid ep env q s C"
    and cur: "is_current s ep env c t" and ord: "in_order s t"
    using sg by (simp_all add: serving_def)
  have c: "heap s c = Some t" using cur by (simp add: is_current_def)
  have ok1: "state_ok s1" using sim ok by (rule state_ok_same_tasks)
  obtain t0 where "heap s c = Some t0" "tsk_id t' = tsk_id t0"
    by (rule same_tasks_back [OF sim, of c t']) (simp add: h)
  then have id: "tsk_id t' = tsk_id t" using c by simp
  have "envs s1 = envs s" using sim unfolding same_tasks_def by blast
  then have cur1: "is_current s1 ep env c t'" using cur by (simp add: is_current_def h)
  have "tsk_id t' < tsk_id tp"
    if p: "heap s1 p = Some tp" "status tp = COROUTINE_RUNNING" "tsk_id tp \<noteq> 0" for p tp
  proof -
    have ne: "p \<noteq> c" using p(1,2) st by (auto simp: h)
    then have hp: "heap s p = Some tp" using p(1) by (simp add: h)
    then have "tsk_id t \<le> tsk_id tp" using ord p(2,3) nz unfolding in_order_def by auto
    moreover have "tsk_id t \<noteq> tsk_id tp"
      using entry_of [OF ok sv0 hp] entry_of [OF ok sv0 c] ne by auto
    ultimately show ?thesis by (simp add: id)
  qed
  then have "\<exists>s' env' c' t'. schedule K tid s1 = Inr s' \<and> serving l watch opened tid ep env' q' c' t' s' C' \<and>
      heap s' = heap s1" by (rule schedule_serves [OF ok1 sv cur1])
  then show ?thesis by blast
qed

section \<open>Calls that block\<close>

lemma epoll_laws_all:
  assumes "epoll_laws K watch opened"
  shows "\<forall>k b k'. os_calloc K k = (b, k') \<longrightarrow> sees watch opened k k'"
    and "\<forall>k r k'. os_epoll_create K k = (r, k') \<longrightarrow> sees watch opened k k'"
    and "\<forall>epf fd ev k r k'. os_epoll_ctl K epf EPOLL_CTL_ADD fd (Some ev) k = (r, k') \<longrightarrow> 0 \<le> r \<longrightarrow>
        ev_events ev \<noteq> 0 \<longrightarrow> watch k' = (watch k)(fd := ev_events ev) \<and> opened k' = opened k"
    and "\<forall>epf fd ev k r k'. os_epoll_ctl K epf EPOLL_CTL_MOD fd (Some ev) k = (r, k') \<longrightarrow> 0 \<le> r \<longrightarrow>
        ev_events ev \<noteq> 0 \<longrightarrow> watch k' = (watch k)(fd := ev_events ev) \<and> opened k' = opened k"
    and "\<forall>epf fd k r k'. os_epoll_ctl K epf EPOLL_CTL_DEL fd None k = (r, k') \<longrightarrow> watch k fd \<noteq> 0 \<longrightarrow>
        watch k' = (watch k)(fd := 0) \<and> opened k' = opened k"
    and "\<forall>epf k evs k'. os_epoll_wait K epf k = (Some evs, k') \<longrightarrow>
        sees watch opened k k' \<and> length evs \<le> 1024 \<and> distinct (map ev_fd evs) \<and>
        (\<forall>ev \<in> set evs. watch k (ev_fd ev) \<noteq> 0)"
    and "\<forall>fd k r k'. os_accept K fd k = (r, k') \<longrightarrow> 0 \<le> r \<longrightarrow>
        watch k' = watch k \<and> r \<notin> opened k \<and> opened k' = insert r (opened k)"
    and "\<forall>fd n k r k'. os_read K fd n k = (r, k') \<longrightarrow> r \<le> int n \<and> sees watch opened k k'"
    and "\<forall>fd n k r k'. os_write K fd n k = (r, k') \<longrightarrow> sees watch opened k k'"
  using assms unfolding epoll_laws_def by - (elim conjE, assumption)+

lemmas epoll_lawsD = epoll_laws_all [rule_format]

lemma desc_cong: "co_fn t' = co_fn t \<Longrightarrow> arg t' = arg t \<Longrightarrow> desc l t' = desc l t"
  by (simp add: desc_def)

lemma usable_index: "usable opened s d \<Longrightarrow> fd_index d = Inr (nat d) \<and> int (nat d) = d \<and> 0 < d"
  by (simp add: usable_def fd_index_def)

lemma masked: "((x :: 32 word) AND NOT ev) AND ev = 0"
  by (simp add: bit_eq_iff bit_simps)

text \<open>What a coroutine that is about to wait registers with the kernel.\<close>

lemma interest_of_ready:
  assumes laws: "epoll_laws K watch opened" and fd: "fd_index d = Inr (nat d)" "int (nat d) = d" "0 < d"
    and r: "first \<and> unregistered t d (watch k d) \<or> registered_for t d EPOLLIN (watch k d)"
    and ev: "ev = EPOLLIN \<or> ev = EPOLLOUT \<and> \<not> first"
  shows "\<exists>r t' k'. interest K epf (nat d) ev (blocked_task (nat d) ev t) k = Inr (r, t', k') \<and>
    co_fn t' = co_fn t \<and> arg t' = arg t \<and> status t' = COROUTINE_WAIT \<and> revents t' (nat d) AND ev = 0 \<and>
    (0 \<le> r \<longrightarrow> registered_for t' d (EPOLLIN OR ev) (watch k' d) \<and>
      (\<forall>d'. d' \<noteq> d \<longrightarrow> watch k' d' = watch k d') \<and> opened k' = opened k)"
proof -
  let ?n = "nat d" and ?t = "blocked_task (nat d) ev t"
  have b: "events (blocked_task m e x) = events x" "fds_idx (blocked_task m e x) = fds_idx x"
    "fds (blocked_task m e x) = fds x" for m e x by (simp_all add: blocked_task_def)
  have "\<exists>r t' k'. interest K epf ?n ev ?t k = Inr (r, t', k') \<and>
    (0 \<le> r \<longrightarrow> registered_for t' d (EPOLLIN OR ev) (watch k' d) \<and>
      (\<forall>d'. d' \<noteq> d \<longrightarrow> watch k' d' = watch k d') \<and> opened k' = opened k)"
  proof (cases "registered_for t d EPOLLIN (watch k d)")
    case False
    with r ev have u: "unregistered t d (watch k d)" "ev = EPOLLIN" by auto
    obtain r k' where c: "os_epoll_ctl K epf EPOLL_CTL_ADD d (Some \<lparr>ev_events = EPOLLIN, ev_fd = d\<rparr>) k = (r, k')"
      by fastforce
    have "watch k' = (watch k)(d := EPOLLIN) \<and> opened k' = opened k" if "0 \<le> r"
      using epoll_lawsD(3) [OF laws c that] by simp
    with u c fd show ?thesis
      by (auto simp: interest_def b unregistered_def registered_for_def MAX_FD_def)
  next
    case True
    then have e: "events t ?n = \<lparr>ev_events = EPOLLIN, ev_fd = d\<rparr>" "fds_idx t = 1" "fds t 0 = d"
      "watch k d = EPOLLIN" by (simp_all add: registered_for_def)
    show ?thesis
    proof (cases "ev = EPOLLIN")
      case True
      then have "interest K epf ?n ev ?t k = Inr (0, ?t, k)"
        using e fd(3) by (simp add: interest_def b needs_mod_def)
      with True e show ?thesis by (simp add: registered_for_def b)
    next
      case False
      with ev have ev: "ev = EPOLLOUT" by blast
      obtain r k' where c: "os_epoll_ctl K epf EPOLL_CTL_MOD d
          (Some \<lparr>ev_events = EPOLLOUT OR EPOLLIN, ev_fd = d\<rparr>) k = (r, k')" by fastforce
      have "watch k' = (watch k)(d := EPOLLOUT OR EPOLLIN) \<and> opened k' = opened k" if "0 \<le> r"
        using epoll_lawsD(4) [OF laws c that] by simp
      with e c fd ev show ?thesis
        by (auto simp: interest_def b registered_for_def needs_mod_def)
    qed
  qed
  then obtain r t' k' where i: "interest K epf ?n ev ?t k = Inr (r, t', k')"
    "0 \<le> r \<longrightarrow> registered_for t' d (EPOLLIN OR ev) (watch k' d) \<and>
      (\<forall>d'. d' \<noteq> d \<longrightarrow> watch k' d' = watch k d') \<and> opened k' = opened k" by blast
  then show ?thesis
    using interest_Inr [OF i(1)] by (auto simp: blocked_task_def masked)
qed

text \<open>An empty wait queue gets its only element.\<close>

lemma first_waiter:
  assumes ok: "state_ok s" and sv: "server_ok l watch opened tid ep env q s C"
    and c: "heap s c = Some t" and us: "usable opened s (desc l t)" and Q: "q (ep, desc l t) = []"
  shows "\<exists>m. TAILQ_INSERT_TAIL (ep, desc l t) (Some c) (queues s) = Inr m \<and>
    tq_family m (q((ep, desc l t) := [c])) \<and> tq_elems m c = Some (stale_entry (ep, desc l t)) \<and>
    (\<forall>p. p \<noteq> c \<longrightarrow> tq_elems m p = tq_elems (queues s) p)"
proof -
  let ?h = "(ep, desc l t)"
  note D = server_okD [OF sv]
  have h: "?h \<in> dom (tq_heads (queues s))"
    using state_ok_blocks(2) [OF ok] D(2) us by (auto simp: usable_def)
  have e: "c \<in> dom (tq_elems (queues s))" using state_ok_blocks(1) [OF ok] c by auto
  have "tq_rep (queues s) ?h []" using tq_family_rep [OF D(3) h] Q by simp
  then obtain m where m: "TAILQ_INSERT_TAIL ?h (Some c) (queues s) = Inr m"
      "tq_rep m ?h [c]" "tq_frame ?h {c} (queues s) m"
    using TAILQ_INSERT_TAIL_rep [of "queues s" ?h "[]" c] e by auto
  have "c \<notin> set (q h')" if "h' \<noteq> ?h" for h'
    using members_okD(8) [OF D(5), of c h'] c that by auto
  then have "tq_family m (q(?h := [c]))" by (intro tq_family_update [OF D(3) m(3,2)]) auto
  with m show ?thesis by (auto simp: tq_rep_def stale_entry_def tq_frame_def)
qed

lemma enter_waits:
  assumes laws: "epoll_laws K watch opened" and sg: "serving l watch opened tid ep env q c t s C"
    and nz: "tsk_id t \<noteq> 0"
    and fit: "fits ep c (desc l t) t (tq_elems (queues s) c) (q (ep, desc l t)) (watch (kst s) (desc l t)) (Ready first)"
    and ev: "ev = EPOLLIN \<or> ev = EPOLLOUT \<and> \<not> first"
    and k: "role (desc l t) c (co_fn t = 1) k (Waits ev)"
  shows "\<exists>r s1 t'. add_queue K tid (desc l t) ev s = Inr (r, s1) \<and> thread_has s1 tid ep \<and>
    is_current s1 ep env c t' \<and>
    (0 \<le> r \<longrightarrow> serving l watch opened tid ep env (q((ep, desc l t) := [c])) c t' s1 (C(c \<mapsto> k)))"
proof -
  let ?d = "desc l t"
  have ok: "state_ok s" and sv: "server_ok l watch opened tid ep env q s C"
    and cur: "is_current s ep env c t" and ord: "in_order s t"
    using sg by (simp_all add: serving_def)
  note D = server_okD [OF sv] and c = is_currentD [OF ok cur]
  have us: "usable opened s ?d" by (rule members_okD(3) [OF D(5) c(3) nz])
  note fd = usable_index [OF us, THEN conjunct1] usable_index [OF us, THEN conjunct2, THEN conjunct1]
    usable_index [OF us, THEN conjunct2, THEN conjunct2]
  have reg: "first \<and> unregistered t ?d (watch (kst s) ?d) \<or> registered_for t ?d EPOLLIN (watch (kst s) ?d)"
    and Q: "q (ep, ?d) = []" using fit by auto
  obtain r t' k' where i: "interest K (epfd env) (nat ?d) ev (blocked_task (nat ?d) ev t) (kst s) = Inr (r, t', k')"
    and f: "co_fn t' = co_fn t" "arg t' = arg t" "status t' = COROUTINE_WAIT" "revents t' (nat ?d) AND ev = 0"
    and g: "0 \<le> r \<longrightarrow> registered_for t' ?d (EPOLLIN OR ev) (watch k' ?d) \<and>
      (\<forall>d'. d' \<noteq> ?d \<longrightarrow> watch k' d' = watch (kst s) d') \<and> opened k' = opened (kst s)"
    using interest_of_ready [OF laws fd reg ev, of "epfd env"] by blast
  let ?s = "s\<lparr>heap := (heap s)(c \<mapsto> t'), kst := k'\<rparr>"
  have sim: "same_tasks s ?s" by (rule add_queue_kernel [OF ok cur i])
  have th: "thread_has ?s tid ep" using D(1) same_tasks_thread [OF sim] by simp
  have cur': "is_current ?s ep env c t'" using c by (simp add: is_current_def)
  show ?thesis
  proof (cases "r < 0")
    case True
    then have "add_queue K tid ?d ev s = Inr (r, ?s)" by (rule add_queue_refused [OF D(1) cur fd(1) i])
    with True th cur' show ?thesis by auto
  next
    case False
    obtain m where m: "TAILQ_INSERT_TAIL (ep, ?d) (Some c) (queues s) = Inr m"
      "tq_family m (q((ep, ?d) := [c]))" "tq_elems m c = Some (stale_entry (ep, ?d))"
      "\<And>p. p \<noteq> c \<Longrightarrow> tq_elems m p = tq_elems (queues s) p"
      using first_waiter [OF ok sv c(3) us Q] by blast
    let ?s1 = "?s\<lparr>queues := m\<rparr>"
    have sim1: "same_tasks s ?s1"
      using same_tasks_queues [OF sim, of m] TAILQ_INSERT_TAIL_blocks [OF m(1)] by simp
    have add: "add_queue K tid ?d ev s = Inr (0, ?s1)"
      using False m(1) by (simp add: add_queue_eq [OF D(1) cur fd(1)] i on_queues_def)
    have "server_ok l watch opened tid ep env (q((ep, ?d) := [c])) ?s1 (C(c \<mapsto> k))"
    proof (rule server_change [OF ok sv c(3) nz sim1, where t' = t' and g = "Waits ev"])
      show "role ?d c (co_fn t' = 1) k (Waits ev)" using k f by simp
      show "usable opened ?s1 (int_of_arg a) \<and>
          (\<forall>p' t'. heap s p' = Some t' \<longrightarrow> tsk_id t' \<noteq> 0 \<longrightarrow> desc l t' \<noteq> int_of_arg a)"
        if "k = KUser (Create fn a f)" for fn a f using k that by cases simp_all
    qed (use f g False m(2-4) desc_cong [OF f(1,2)] in auto)
    moreover have "in_order ?s1 t'"
      using ord f(3) interest_Inr [OF i] by (auto simp: in_order_def blocked_task_def)
    moreover have "state_ok ?s1" using sim1 ok by (rule state_ok_same_tasks)
    moreover have "is_current ?s1 ep env c t'" using cur' by (simp add: is_current_def)
    ultimately have "serving l watch opened tid ep env (q((ep, ?d) := [c])) c t' ?s1 (C(c \<mapsto> k))"
      by (simp add: serving_def)
    moreover have "thread_has ?s1 tid ep" using th by (simp add: thread_has_def)
    ultimately show ?thesis using add \<open>is_current ?s1 ep env c t'\<close> by blast
  qed
qed

text \<open>A step of the current coroutine after which it goes on.\<close>

lemma serving_change:
  assumes sg: "serving l watch opened tid ep env q c t s C" and nz: "tsk_id t \<noteq> 0"
    and sim: "same_tasks s s1" and h: "heap s1 = (heap s)(c \<mapsto> t')"
    and f: "co_fn t' = co_fn t" "arg t' = arg t"
    and links: "tq_elems (queues s1) = tq_elems (queues s)"
    and q: "tq_family (queues s1) q" and Q: "q (ep, desc l t) = []"
    and w: "\<And>d. d \<noteq> desc l t \<Longrightarrow> watch (kst s1) d = watch (kst s) d"
    and o: "opened (kst s) \<subseteq> opened (kst s1)"
    and r: "g \<noteq> Over" "role (desc l t) c (co_fn t = 1) k g"
      "fits ep c (desc l t) t' (tq_elems (queues s) c) [] (watch (kst s1) (desc l t)) g"
    and new: "\<And>fn a f. k = KUser (Create fn a f) \<Longrightarrow> usable opened s1 (int_of_arg a) \<and>
        (\<forall>p' t'. heap s p' = Some t' \<longrightarrow> tsk_id t' \<noteq> 0 \<longrightarrow> desc l t' \<noteq> int_of_arg a)"
  shows "serving l watch opened tid ep env q c t' s1 (C(c \<mapsto> k))"
proof -
  have ok: "state_ok s" and sv: "server_ok l watch opened tid ep env q s C"
    and cur: "is_current s ep env c t" and ord: "in_order s t"
    using sg by (simp_all add: serving_def)
  have c: "heap s c = Some t" using cur by (simp add: is_current_def)
  have qq: "q((ep, desc l t) := []) = q" using Q by auto
  have id: "tsk_id t' = tsk_id t" using same_tasks_back [OF sim, of c t'] c h by fastforce
  have "server_ok l watch opened tid ep env (q((ep, desc l t) := [])) s1 (C(c \<mapsto> k))"
    by (rule server_change [OF ok sv c nz sim h desc_cong [OF f], where g = g])
      (use links q w o r new f in \<open>simp_all add: qq\<close>)
  moreover have "envs s1 = envs s" using sim unfolding same_tasks_def by blast
  then have "is_current s1 ep env c t'" using cur by (simp add: is_current_def h)
  moreover have "status t' \<noteq> COROUTINE_EXIT" using r(1,3) by (cases g) (auto split: if_splits)
  then have "in_order s1 t'" using ord nz id by (auto simp: in_order_def h)
  ultimately show ?thesis using state_ok_same_tasks [OF sim ok] qq by (simp add: serving_def)
qed

lemma member_cases:
  assumes "serving l watch opened tid ep env q c t s C" and "tsk_id t \<noteq> 0"
  obtains k g where "C c = Some k" and "role (desc l t) c (co_fn t = 1) k g"
    and "fits ep c (desc l t) t (tq_elems (queues s) c) (q (ep, desc l t)) (watch (kst s) (desc l t)) g"
proof -
  have "heap s c = Some t" "server_ok l watch opened tid ep env q s C"
    using assms(1) by (simp_all add: serving_def is_current_def)
  from members_okD(2) [OF server_okD(5) [OF this(2)] this(1) assms(2)] that show thesis
    by (auto simp: member_def)
qed

lemma serving_usable:
  assumes "serving l watch opened tid ep env q c t s C" and "tsk_id t \<noteq> 0"
  shows "usable opened s (desc l t)"
  using assms members_okD(3) [OF server_okD(5)] by (auto simp: serving_def is_current_def)

section \<open>Waiting\<close>

lemma await_serves:
  assumes sg: "serving l watch opened tid ep env q c t s C" and nz: "tsk_id t \<noteq> 0"
    and k: "C c = Some k" "role (desc l t) c (co_fn t = 1) k (Waits ev)"
    and fit: "fits ep c (desc l t) t (tq_elems (queues s) c) (q (ep, desc l t)) (watch (kst s) (desc l t)) (Waits ev)"
  shows "(\<exists>s' env' c' t'. await K tid (Some c) (desc l t) ev s = Inr (False, s') \<and>
      serving l watch opened tid ep env' q c' t' s' (C(c \<mapsto> k))) \<or>
    await K tid (Some c) (desc l t) ev s = Inr (True, s) \<and> status t = COROUTINE_RUNNING \<and> q (ep, desc l t) = []"
proof -
  have sv: "server_ok l watch opened tid ep env q s C" and c: "heap s c = Some t"
    using sg by (simp_all add: serving_def is_current_def)
  have fd: "fd_index (desc l t) = Inr (nat (desc l t))" using usable_index [OF serving_usable [OF sg nz]] by simp
  note aw = await_eq [where K = K and tid = tid and ev = ev, OF c fd]
  show ?thesis
  proof (cases "revents t (nat (desc l t)) AND ev = 0")
    case False
    with fit aw show ?thesis by simp
  next
    case True
    then have st: "status t = COROUTINE_WAIT" using fit by simp
    then have same: "(heap s)(c \<mapsto> t\<lparr>status := COROUTINE_WAIT\<rparr>) = heap s" using c by (simp add: map_upd_triv)
    have "C(c \<mapsto> k) = C" using k(1) by (simp add: map_upd_triv)
    moreover obtain s' env' c' t' where "schedule K tid s = Inr s'" "serving l watch opened tid ep env' q c' t' s' C"
      using step_aside [OF sg nz same_tasks_refl, of t q C K] c st sv by (auto simp: map_upd_triv)
    ultimately show ?thesis using aw True same by auto
  qed
qed

end
