(* ===== verification/EchoTurns.thy ===== *)
theory EchoTurns
  imports EchoServer
begin

text \<open>
  The turns of the echo server: a turn of a client, of the accepting coroutine or of the event loop
  goes on or ends in a call of \<open>exit\<close>, and it keeps the invariant unless the kernel has answered it
  in one of two ways that the library cannot cope with.
\<close>

section \<open>What the kernel may answer\<close>

text \<open>The thread is about to call \<open>epoll_wait\<close>, which reports the event \<open>ev\<close>.\<close>

definition told :: "'k os \<Rightarrow> int \<Rightarrow> 'k co_state \<times> konts \<Rightarrow> epoll_event \<Rightarrow> bool" where
  "told K tid w ev \<longleftrightarrow>
     (\<exists>ep env c t ep' epf evs k. thread_has (fst w) tid ep \<and> is_current (fst w) ep env c t \<and>
        snd w c = Some (KLoop ep' epf) \<and> os_epoll_wait K epf (kst (fst w)) = (Some evs, k) \<and> ev \<in> set evs)"

text \<open>The thread is about to call \<open>accept\<close>, which returns \<open>r\<close>.\<close>

definition accepts :: "'k os \<Rightarrow> int \<Rightarrow> 'k co_state \<times> konts \<Rightarrow> int \<Rightarrow> bool" where
  "accepts K tid w r \<longleftrightarrow>
     (\<exists>ep env c t d f k. thread_has (fst w) tid ep \<and> is_current (fst w) ep env c t \<and>
        snd w c = Some (KAccept (Some c) d f) \<and> revents t (nat d) AND EPOLLIN \<noteq> 0 \<and>
        os_accept K d (kst (fst w)) = (r, k))"

text \<open>
  The next turn strays: it is told of an event without the bit that the waiter of the descriptor
  needs (only \<open>EPOLLERR\<close> or \<open>EPOLLHUP\<close>, or only input for a writer), or it accepts a descriptor for
  which the library has no queue.
\<close>

definition strays :: "'k os \<Rightarrow> ('k \<Rightarrow> int \<Rightarrow> 32 word) \<Rightarrow> int \<Rightarrow> 'k co_state \<times> konts \<Rightarrow> bool" where
  "strays K watch tid w \<longleftrightarrow>
     (\<exists>ev. told K tid w ev \<and> ev_events ev AND wanted (watch (kst (fst w)) (ev_fd ev)) = 0) \<or>
     (\<exists>r. accepts K tid w r \<and> int MAX_FD \<le> r)"

lemma strays_event:
  assumes "thread_has s tid ep" and "is_current s ep env c t" and "C c = Some (KLoop ep' epf)"
    and "os_epoll_wait K epf (kst s) = (Some evs, k)" and "ev \<in> set evs"
    and "ev_events ev AND wanted (watch (kst s) (ev_fd ev)) = 0"
  shows "strays K watch tid (s, C)"
  using assms unfolding strays_def told_def fst_conv snd_conv by blast

lemma strays_accept:
  assumes "thread_has s tid ep" and "is_current s ep env c t" and "C c = Some (KAccept (Some c) d f)"
    and "revents t (nat d) AND EPOLLIN \<noteq> 0" and "os_accept K d (kst s) = (r, k)" and "int MAX_FD \<le> r"
  shows "strays K watch tid (s, C)"
  using assms unfolding strays_def accepts_def fst_conv snd_conv by blast

section \<open>Turns of the clients and of the accepting coroutine\<close>

text \<open>
  The server is about to call \<open>exit\<close>: the current coroutine has found that a system call failed.
\<close>

definition doomed :: "int \<Rightarrow> 'k co_state \<Rightarrow> konts \<Rightarrow> bool" where
  "doomed tid s C \<longleftrightarrow>
     (\<exists>ep env c t. thread_has s tid ep \<and> is_current s ep env c t \<and> C c = Some (KUser (Abort (Exit (- 1)))))"

definition fine ::
  "int \<Rightarrow> ('k \<Rightarrow> int \<Rightarrow> 32 word) \<Rightarrow> ('k \<Rightarrow> int set) \<Rightarrow> int \<Rightarrow> 'k co_state \<times> konts \<Rightarrow> bool" where
  "fine l watch opened tid w \<longleftrightarrow>
     doomed tid (fst w) (snd w) \<or> (\<exists>ep env q c t. serving l watch opened tid ep env q c t (fst w) (snd w))"

text \<open>The turn ends well: with a call of \<open>exit\<close>, or in a state that is fine when \<open>ok\<close> holds.\<close>

definition goes_on ::
  "int \<Rightarrow> ('k \<Rightarrow> int \<Rightarrow> 32 word) \<Rightarrow> ('k \<Rightarrow> int set) \<Rightarrow> int \<Rightarrow> bool \<Rightarrow> fault + ('k co_state \<times> konts) \<Rightarrow> bool" where
  "goes_on l watch opened tid ok r \<longleftrightarrow>
     (case r of Inl f \<Rightarrow> \<exists>n. f = Exit n | Inr w \<Rightarrow> ok \<longrightarrow> fine l watch opened tid w)"

lemma goes_on_simps [simp]:
  "goes_on l watch opened tid ok (Inl f) \<longleftrightarrow> (\<exists>n. f = Exit n)"
  "goes_on l watch opened tid ok (Inr w) \<longleftrightarrow> (ok \<longrightarrow> fine l watch opened tid w)"
  by (simp_all add: goes_on_def)

lemma fine_serving: "serving l watch opened tid ep env q c t s C \<Longrightarrow> fine l watch opened tid (s, C)"
  unfolding fine_def by auto

lemma fine_doomed:
  assumes "thread_has s tid ep" and "is_current s ep env c t"
  shows "fine l watch opened tid (s, C(c \<mapsto> KUser (Abort (Exit (- 1)))))"
  using assms by (auto simp: fine_def doomed_def)

lemma doomed_kst:
  assumes "serving l watch opened tid ep env q c t s C"
  shows "fine l watch opened tid (s\<lparr>kst := k\<rparr>, C(c \<mapsto> KUser (Abort (Exit (- 1)))))"
  using assms
  by (intro fine_doomed [where ep = ep and env = env and t = t])
    (simp_all add: serving_def server_ok_def is_current_def thread_has_def)

lemma or_self: "EPOLLIN OR EPOLLIN = EPOLLIN" "(EPOLLIN OR EPOLLOUT) AND NOT EPOLLOUT = EPOLLIN"
  by simp_all

text \<open>A system call on the descriptor that was waited for, which leaves the interests alone.\<close>

lemma input_serves:
  assumes sg: "serving l watch opened tid ep env q c t s C" and nz: "tsk_id t \<noteq> 0"
    and fit: "fits ep c (desc l t) t (tq_elems (queues s) c) (q (ep, desc l t)) (watch (kst s) (desc l t)) (Waits EPOLLIN)"
    and run: "status t = COROUTINE_RUNNING" "q (ep, desc l t) = []"
    and k1: "watch k1 = watch (kst s)" "opened (kst s) \<subseteq> opened k1"
    and k: "role (desc l t) c (co_fn t = 1) k (Ready False)"
    and new: "\<And>fn a f. k = KUser (Create fn a f) \<Longrightarrow> usable opened (s\<lparr>kst := k1\<rparr>) (int_of_arg a) \<and>
        (\<forall>p' t'. heap s p' = Some t' \<longrightarrow> tsk_id t' \<noteq> 0 \<longrightarrow> desc l t' \<noteq> int_of_arg a)"
  shows "serving l watch opened tid ep env q c t (s\<lparr>kst := k1\<rparr>) (C(c \<mapsto> k))" (is "serving _ _ _ _ _ _ _ _ _ ?s _")
proof (rule serving_change [OF sg nz, where g = "Ready False"])
  show "same_tasks s ?s" by (rule kst_same_tasks)
  show "heap ?s = (heap s)(c \<mapsto> t)" using sg by (simp add: serving_def is_current_def map_upd_triv)
  show "tq_family (queues ?s) q" using sg by (simp add: serving_def server_ok_def)
  show "fits ep c (desc l t) t (tq_elems (queues s) c) [] (watch (kst ?s) (desc l t)) (Ready False)"
    using fit run(1) by (simp add: k1(1))
qed (use run(2) k1 k new in simp_all)

lemma accepted_serves:
  assumes sg: "serving l watch opened tid ep env q c t s C" and nz: "tsk_id t \<noteq> 0" and client: "co_fn t \<noteq> 1"
    and fit: "fits ep c (desc l t) t (tq_elems (queues s) c) (q (ep, desc l t)) (watch (kst s) (desc l t)) (Waits EPOLLIN)"
    and aw: "status t = COROUTINE_RUNNING" "q (ep, desc l t) = []" and r: "0 \<le> r" "r < int MAX_FD"
    and k1: "watch k1 = watch (kst s)" "r \<notin> opened (kst s)" "opened k1 = insert r (opened (kst s))"
  shows "serving l watch opened tid ep env q c t (s\<lparr>kst := k1\<rparr>)
    (C(c \<mapsto> KUser (my_accept_at (desc l t) (AfterAccept r))))" (is "serving _ _ _ _ _ _ _ _ _ ?s (C(c \<mapsto> ?k))")
proof -
  have us: "usable opened s (desc l t)" by (rule serving_usable [OF sg nz])
  then have "r \<noteq> 0" using k1(2) by (auto simp: usable_def)
  have arg: "int_of_arg (word_of_int r) = r"
    using r by (intro int_of_arg_word) (simp add: fits_int_def MAX_FD_def)
  have M: "members_ok l watch opened ep q s C" using sg by (simp add: serving_def server_ok_def)
  show ?thesis
  proof (rule input_serves [OF sg nz fit aw])
    show "role (desc l t) c (co_fn t = 1) ?k (Ready False)" using client r(1) by (simp add: role.intros)
    fix fn x f assume "?k = KUser (Create fn x f)"
    then have x: "int_of_arg x = r" using r(1) arg by (simp add: my_accept_at_simps)
    have "desc l tp \<noteq> r" if "heap s p = Some tp" "tsk_id tp \<noteq> 0" for p tp
      using members_okD(3) [OF M that] k1(2) by (auto simp: usable_def)
    then show "usable opened ?s (int_of_arg x) \<and>
        (\<forall>p' t'. heap s p' = Some t' \<longrightarrow> tsk_id t' \<noteq> 0 \<longrightarrow> desc l t' \<noteq> int_of_arg x)"
      using x us r k1(3) \<open>r \<noteq> 0\<close> by (auto simp: usable_def)
  qed (use k1 in auto)
qed

lemma accept_turn:
  assumes laws: "epoll_laws K watch opened" and sg: "serving l watch opened tid ep env q c t s C"
    and nz: "tsk_id t \<noteq> 0" and client: "co_fn t \<noteq> 1"
    and k: "C c = Some k" "k = KAccept (Some c) (desc l t) (\<lambda>r. my_accept_at (desc l t) (AfterAccept r))"
    and fit: "fits ep c (desc l t) t (tq_elems (queues s) c) (q (ep, desc l t)) (watch (kst s) (desc l t)) (Waits EPOLLIN)"
  shows "goes_on l watch opened tid (\<not> strays K watch tid (s, C)) (resume K code tid c k s C)"
proof -
  let ?d = "desc l t"
  have rk: "role ?d c (co_fn t = 1) k (Waits EPOLLIN)" using client by (simp add: k(2) role.intros)
  from await_serves [OF sg nz k(1) rk fit, of K]
  show ?thesis
  proof (elim disjE exE conjE)
    fix s' env' c' t'
    assume "await K tid (Some c) ?d EPOLLIN s = Inr (False, s')"
      "serving l watch opened tid ep env' q c' t' s' (C(c \<mapsto> k))"
    then show ?thesis by (auto simp: k(2) co_accept_turn_def fine_serving)
  next
    assume aw: "await K tid (Some c) ?d EPOLLIN s = Inr (True, s)" "status t = COROUTINE_RUNNING" "q (ep, ?d) = []"
    obtain r k1 where r: "os_accept K ?d (kst s) = (r, k1)" by fastforce
    let ?s = "s\<lparr>kst := k1\<rparr>" and ?k = "KUser (my_accept_at ?d (AfterAccept r))"
    have res: "resume K code tid c k s C = Inr (?s, C(c \<mapsto> ?k))"
      using aw r by (simp add: k(2) co_accept_turn_def syscall_def)
    have th: "thread_has s tid ep" "is_current s ep env c t"
      using sg by (simp_all add: serving_def server_ok_def)
    have "revents t (nat ?d) AND EPOLLIN \<noteq> 0" using fit aw(2) by (auto split: if_splits)
    then have big: "strays K watch tid (s, C)" if "int MAX_FD \<le> r"
      using strays_accept [where C = C, OF th k(1) [unfolded k(2)] _ r that] by blast
    consider "r < 0" | "0 \<le> r" "r < int MAX_FD" | "int MAX_FD \<le> r" by linarith
    then show ?thesis
    proof cases
      case 1
      with doomed_kst [OF sg] show ?thesis by (simp add: res my_accept_at_simps)
    next
      case 3
      with big show ?thesis by (simp add: res)
    next
      case 2
      have a: "watch k1 = watch (kst s)" "r \<notin> opened (kst s)" "r < int MAX_FD"
          "opened k1 = insert r (opened (kst s))"
        using epoll_lawsD(7) [OF laws r 2(1)] 2(2) by simp_all
      have "serving l watch opened tid ep env q c t ?s (C(c \<mapsto> ?k))"
        by (rule accepted_serves [OF sg nz client fit aw(2,3) 2 a(1,2,4)])
      then show ?thesis by (simp add: res fine_serving)
    qed
  qed
qed

lemma read_turn:
  assumes laws: "epoll_laws K watch opened" and sg: "serving l watch opened tid ep env q c t s C"
    and nz: "tsk_id t \<noteq> 0" and client: "co_fn t = 1"
    and k: "C c = Some k" "k = KRead (Some c) (desc l t) 63 (\<lambda>n. do_client_at (desc l t) (AfterRead n))"
    and fit: "fits ep c (desc l t) t (tq_elems (queues s) c) (q (ep, desc l t)) (watch (kst s) (desc l t)) (Waits EPOLLIN)"
  shows "goes_on l watch opened tid ok (resume K code tid c k s C)"
proof -
  let ?d = "desc l t"
  have rk: "role ?d c (co_fn t = 1) k (Waits EPOLLIN)" using client by (simp add: k(2) role.intros)
  from await_serves [OF sg nz k(1) rk fit, of K]
  show ?thesis
  proof (elim disjE exE conjE)
    fix s' env' c' t'
    assume "await K tid (Some c) ?d EPOLLIN s = Inr (False, s')"
      "serving l watch opened tid ep env' q c' t' s' (C(c \<mapsto> k))"
    then show ?thesis by (auto simp: k(2) co_read_turn_def fine_serving)
  next
    assume aw: "await K tid (Some c) ?d EPOLLIN s = Inr (True, s)" "status t = COROUTINE_RUNNING" "q (ep, ?d) = []"
    obtain n k1 where n: "os_read K ?d 63 (kst s) = (n, k1)" by fastforce
    let ?s = "s\<lparr>kst := k1\<rparr>" and ?k = "KUser (do_client_at ?d (AfterRead n))"
    have res: "resume K code tid c k s C = Inr (?s, C(c \<mapsto> ?k))"
      using aw n by (simp add: k(2) co_read_turn_def syscall_def)
    have a: "n \<le> 63" "watch k1 = watch (kst s)" "opened k1 = opened (kst s)"
      using epoll_lawsD(8) [OF laws n] by (simp_all add: sees_def)
    show ?thesis
    proof (cases "n < 0")
      case True
      with doomed_kst [OF sg] show ?thesis by (simp add: res do_client_at_simps)
    next
      case False
      have "serving l watch opened tid ep env q c t ?s (C(c \<mapsto> ?k))"
      proof (rule input_serves [OF sg nz fit aw(2,3)])
        show "role ?d c (co_fn t = 1) ?k (Ready False)" using client False a(1) by (simp add: role.intros)
      qed (use a in \<open>auto simp: do_client_at_simps split: if_splits\<close>)
      then show ?thesis by (simp add: res fine_serving)
    qed
  qed
qed


lemma write_turn:
  assumes laws: "epoll_laws K watch opened" and sg: "serving l watch opened tid ep env q c t s C"
    and nz: "tsk_id t \<noteq> 0" and client: "co_fn t = 1"
    and k: "C c = Some k" "k = KWrite (Some c) epf (desc l t) len (\<lambda>n. do_client_at (desc l t) (AfterWrite n))"
    and fit: "fits ep c (desc l t) t (tq_elems (queues s) c) (q (ep, desc l t)) (watch (kst s) (desc l t)) (Waits EPOLLOUT)"
  shows "goes_on l watch opened tid ok (resume K code tid c k s C)"
proof -
  let ?d = "desc l t"
  have rk: "role ?d c (co_fn t = 1) k (Waits EPOLLOUT)" using client by (simp add: k(2) role.intros)
  from await_serves [OF sg nz k(1) rk fit, of K]
  show ?thesis
  proof (elim disjE exE conjE)
    fix s' env' c' t'
    assume "await K tid (Some c) ?d EPOLLOUT s = Inr (False, s')"
      "serving l watch opened tid ep env' q c' t' s' (C(c \<mapsto> k))"
    then show ?thesis by (auto simp: k(2) co_write_turn_def fine_serving)
  next
    assume aw: "await K tid (Some c) ?d EPOLLOUT s = Inr (True, s)" "status t = COROUTINE_RUNNING" "q (ep, ?d) = []"
    have c: "heap s c = Some t" using sg by (simp add: serving_def is_current_def)
    have fd: "fd_index ?d = Inr (nat ?d)" using usable_index [OF serving_usable [OF sg nz]] by simp
    have reg: "fds_idx t = 1" "fds t 0 = ?d" "events t (nat ?d) = \<lparr>ev_events = EPOLLIN OR EPOLLOUT, ev_fd = ?d\<rparr>"
        "tq_elems (queues s) c = Some (stale_entry (ep, ?d))"
      using fit by (simp_all add: registered_for_def)
    let ?ev = "\<lparr>ev_events = EPOLLIN, ev_fd = ?d\<rparr>"
    let ?t = "t\<lparr>events := (events t)(nat ?d := ?ev),
      revents := (revents t)(nat ?d := revents t (nat ?d) AND NOT EPOLLOUT)\<rparr>"
    obtain r k1 where r: "os_epoll_ctl K epf EPOLL_CTL_MOD ?d (Some ?ev) (kst s) = (r, k1)" by fastforce
    obtain n k2 where n: "os_write K ?d len k1 = (n, k2)" by fastforce
    let ?s = "s\<lparr>heap := (heap s)(c \<mapsto> ?t), kst := if r < 0 then k1 else k2\<rparr>"
    let ?v = "if r < 0 then r else n"
    let ?k = "KUser (do_client_at ?d (AfterWrite ?v))"
    have res: "resume K code tid c k s C = Inr (?s, C(c \<mapsto> ?k))"
      using aw r n c fd reg(3) or_self(2)
      by (simp add: k(2) co_write_turn_def syscall_def nonnull_def mod_task_def get_task_def)
    have sim: "same_tasks s ?s" using c by (auto simp: same_tasks_def)
    show ?thesis
    proof (cases "?v < 0")
      case True
      have "thread_has ?s tid ep" "is_current ?s ep env c ?t"
        using sg by (simp_all add: serving_def server_ok_def is_current_def thread_has_def)
      from fine_doomed [OF this] True show ?thesis by (simp add: res do_client_at_simps)
    next
      case False
      then have r0: "0 \<le> r" "0 \<le> n" by (simp_all split: if_splits)
      have a: "watch k2 = (watch (kst s))(?d := EPOLLIN)" "opened k2 = opened (kst s)"
        using epoll_lawsD(4) [OF laws r r0(1)] epoll_lawsD(9) [OF laws n] by (simp_all add: sees_def)
      have "serving l watch opened tid ep env q c ?t ?s (C(c \<mapsto> ?k))"
      proof (rule serving_change [OF sg nz sim, where g = "Ready False"])
        show "tq_family (queues ?s) q" using sg by (simp add: serving_def server_ok_def)
        show "role ?d c (co_fn t = 1) ?k (Ready False)" using client r0 by (simp add: role.intros)
        show "fits ep c ?d ?t (tq_elems (queues s) c) [] (watch (kst ?s) ?d) (Ready False)"
          using aw(2) r0 reg by (simp add: a(1) registered_for_def)
      qed (use aw(3) a r0 in \<open>auto simp: do_client_at_simps split: if_splits\<close>)
      then show ?thesis by (simp add: res fine_serving)
    qed
  qed
qed


section \<open>Calls of the clients and of the accepting coroutine\<close>

text \<open>The status that \<open>co_read\<close> and \<open>co_write\<close> set before \<open>add_queue\<close> is the one \<open>add_queue\<close> sets.\<close>

lemma enter_eq:
  assumes th: "thread_has s tid ep" and cur: "is_current s ep env c t" and fd: "fd_index d = Inr n"
  shows "co_accept_enter K tid d s = bnd (add_queue K tid d EPOLLIN s)
      (\<lambda>(r, s). Inr (if r < 0 then Inl r else Inr (Some c, epfd env), s))"
    and "co_read_enter K tid d s = bnd (add_queue K tid d EPOLLIN s)
      (\<lambda>(r, s). Inr (if r < 0 then Inl r else Inr (Some c, epfd env), s))"
    and "co_write_enter K tid d s = bnd (add_queue K tid d EPOLLOUT s)
      (\<lambda>(r, s). Inr (if r < 0 then Inl r else Inr (Some c, epfd env), s))"
proof -
  have c: "envs s ep = Some env" "current env = Some c" "heap s c = Some t"
    using cur by (simp_all add: is_current_def)
  let ?s = "s\<lparr>heap := (heap s)(c \<mapsto> t\<lparr>status := COROUTINE_WAIT\<rparr>)\<rparr>"
  have s: "thread_has ?s tid ep" "is_current ?s ep env c (t\<lparr>status := COROUTINE_WAIT\<rparr>)"
    using th c by (simp_all add: thread_has_def is_current_def)
  have "add_queue K tid d ev ?s = add_queue K tid d ev s" for ev
    by (simp add: add_queue_eq [OF th cur fd] add_queue_eq [OF s fd] blocked_task_def)
  then show "co_read_enter K tid d s = bnd (add_queue K tid d EPOLLIN s)
      (\<lambda>(r, s). Inr (if r < 0 then Inl r else Inr (Some c, epfd env), s))"
    "co_write_enter K tid d s = bnd (add_queue K tid d EPOLLOUT s)
      (\<lambda>(r, s). Inr (if r < 0 then Inl r else Inr (Some c, epfd env), s))"
    using c
    by (simp_all add: co_read_enter_def co_write_enter_def thread_has_get [OF th] get_env_def nonnull_def
        mod_task_def get_task_def cong: if_cong)
  show "co_accept_enter K tid d s = bnd (add_queue K tid d EPOLLIN s)
      (\<lambda>(r, s). Inr (if r < 0 then Inl r else Inr (Some c, epfd env), s))"
    using c by (simp add: co_accept_enter_def thread_has_get [OF th] get_env_def cong: if_cong)
qed

lemma call_waits:
  assumes laws: "epoll_laws K watch opened" and sg: "serving l watch opened tid ep env q c t s C"
    and nz: "tsk_id t \<noteq> 0"
    and fit: "fits ep c (desc l t) t (tq_elems (queues s) c) (q (ep, desc l t)) (watch (kst s) (desc l t)) (Ready first)"
    and ev: "ev = EPOLLIN \<or> ev = EPOLLOUT \<and> \<not> first"
    and k: "role (desc l t) c (co_fn t = 1) k (Waits ev)"
    and res: "resume K code tid c k0 s C = bnd (add_queue K tid (desc l t) ev s)
      (\<lambda>(r, s). Inr (s, C(c \<mapsto> if r < 0 then KUser (Abort (Exit (- 1))) else k)))"
  shows "goes_on l watch opened tid ok (resume K code tid c k0 s C)"
proof -
  obtain r s1 t' where a: "add_queue K tid (desc l t) ev s = Inr (r, s1)" "thread_has s1 tid ep"
      "is_current s1 ep env c t'"
    and g: "0 \<le> r \<longrightarrow> serving l watch opened tid ep env (q((ep, desc l t) := [c])) c t' s1 (C(c \<mapsto> k))"
    using enter_waits [OF laws sg nz fit ev k] by blast
  show ?thesis
  proof (cases "r < 0")
    case True
    with fine_doomed [OF a(2,3)] show ?thesis by (simp add: res a(1))
  next
    case False
    with g show ?thesis by (auto simp: res a(1) intro!: fine_serving)
  qed
qed

lemma ready_weaken: "fits ep p d t e Q w (Ready False) \<Longrightarrow> fits ep p d t e Q w (Ready first)"
  by auto

text \<open>The calls of a client.\<close>

lemma client_calls:
  assumes laws: "epoll_laws K watch opened" and sg: "serving l watch opened tid ep env q c t s C"
    and nz: "tsk_id t \<noteq> 0" and client: "co_fn t = 1"
  shows "fits ep c (desc l t) t (tq_elems (queues s) c) (q (ep, desc l t)) (watch (kst s) (desc l t)) (Ready first) \<Longrightarrow>
      goes_on l watch opened tid ok (resume K code tid c (KUser (do_client_at (desc l t) AtRead)) s C)"
      (is "?F1 \<Longrightarrow> ?R")
    and "fits ep c (desc l t) t (tq_elems (queues s) c) (q (ep, desc l t)) (watch (kst s) (desc l t)) (Ready False) \<Longrightarrow>
      0 < n \<Longrightarrow> n \<le> 63 \<Longrightarrow>
      goes_on l watch opened tid ok (resume K code tid c (KUser (do_client_at (desc l t) (AfterRead n))) s C)"
      (is "?F2 \<Longrightarrow> _ \<Longrightarrow> _ \<Longrightarrow> ?W")
proof -
  let ?d = "desc l t"
  have th: "thread_has s tid ep" and cur: "is_current s ep env c t"
    using sg by (simp_all add: serving_def server_ok_def)
  have fd: "fd_index ?d = Inr (nat ?d)" using usable_index [OF serving_usable [OF sg nz]] by simp
  note enter = enter_eq [OF th cur fd, where K = K]
  show ?R if ?F1
  proof (rule call_waits [OF laws sg nz that])
    show "role ?d c (co_fn t = 1) (KRead (Some c) ?d 63 (\<lambda>n. do_client_at ?d (AfterRead n))) (Waits EPOLLIN)"
      using client by (simp add: role.intros)
  qed (auto simp: do_client_at_simps(1,2) enter bnd_assoc intro!: bnd_cong)
  show ?W if ?F2 and n: "0 < n" "n \<le> 63"
  proof (rule call_waits [OF laws sg nz that(1)])
    show "role ?d c (co_fn t = 1) (KWrite (Some c) (epfd env) ?d (nat n) (\<lambda>n. do_client_at ?d (AfterWrite n)))
        (Waits EPOLLOUT)"
      using client by (simp add: role.intros)
  qed (use n in \<open>auto simp: do_client_at_simps(2,3) enter bnd_assoc intro!: bnd_cong\<close>)
qed


lemma accept_call:
  assumes laws: "epoll_laws K watch opened" and sg: "serving l watch opened tid ep env q c t s C"
    and nz: "tsk_id t \<noteq> 0" and client: "co_fn t \<noteq> 1"
    and fit: "fits ep c (desc l t) t (tq_elems (queues s) c) (q (ep, desc l t)) (watch (kst s) (desc l t)) (Ready first)"
  shows "goes_on l watch opened tid ok (resume K code tid c (KUser (my_accept_at (desc l t) AtAccept)) s C)"
proof (rule call_waits [OF laws sg nz fit])
  let ?d = "desc l t"
  show "role ?d c (co_fn t = 1) (KAccept (Some c) ?d (\<lambda>r. my_accept_at ?d (AfterAccept r))) (Waits EPOLLIN)"
    using client by (simp add: role.intros)
  have th: "thread_has s tid ep" and cur: "is_current s ep env c t"
    using sg by (simp_all add: serving_def server_ok_def)
  have "fd_index ?d = Inr (nat ?d)" using usable_index [OF serving_usable [OF sg nz]] by simp
  note enter = enter_eq [OF th cur this, where K = K]
  show "resume K code tid c (KUser (my_accept_at ?d AtAccept)) s C = bnd (add_queue K tid ?d EPOLLIN s)
      (\<lambda>(r, s). Inr (s, C(c \<mapsto> if r < 0 then KUser (Abort (Exit (- 1)))
        else KAccept (Some c) ?d (\<lambda>r. my_accept_at ?d (AfterAccept r)))))"
    by (auto simp: my_accept_at_simps enter bnd_assoc intro!: bnd_cong)
qed simp

section \<open>A client leaves\<close>

lemma client_leaves:
  assumes laws: "epoll_laws K watch opened" and sg: "serving l watch opened tid ep env q c t s C"
    and nz: "tsk_id t \<noteq> 0"
    and fit: "fits ep c (desc l t) t (tq_elems (queues s) c) (q (ep, desc l t)) (watch (kst s) (desc l t)) (Ready False)"
  shows "goes_on l watch opened tid ok (resume K code tid c (KUser Return) s C)"
proof -
  let ?d = "desc l t"
  have ok: "state_ok s" and sv: "server_ok l watch opened tid ep env q s C"
    and cur: "is_current s ep env c t"
    using sg by (simp_all add: serving_def)
  note D = server_okD [OF sv]
  have c: "heap s c = Some t" using cur by (simp add: is_current_def)
  have us: "usable opened s ?d" by (rule members_okD(3) [OF D(5) c nz])
  have dom: "(ep, ?d) \<in> dom (tq_heads (queues s))"
    using state_ok_blocks(2) [OF ok] D(2) us by (auto simp: usable_def)
  have reg: "fds_idx t = 1" "fds t 0 = ?d" "tq_elems (queues s) c = Some (stale_entry (ep, ?d))"
    using fit by (simp_all add: registered_for_def)
  let ?t = "t\<lparr>status := COROUTINE_EXIT, fds_idx := 0\<rparr>"
  obtain r k1 where k1: "os_epoll_ctl K (epfd env) EPOLL_CTL_DEL ?d None (kst s) = (r, k1)" by fastforce
  have w: "watch k1 = (watch (kst s))(?d := 0)" "opened k1 = opened (kst s)"
    using epoll_lawsD(5) [OF laws k1] fit by (simp_all add: registered_for_def)
  obtain m where m: "start_cleanup K c s = Inr (s\<lparr>heap := (heap s)(c \<mapsto> ?t), kst := k1, queues := m\<rparr>)"
      "tq_family m (q((ep, ?d) := []))" "tq_elems m = tq_elems (queues s)"
    using start_cleanup_one_fd [OF c members_okD(1) [OF D(5) c] D(2) reg(1,2) dom reg(3) D(3), of K] k1 by auto
  let ?s = "s\<lparr>heap := (heap s)(c \<mapsto> ?t), kst := k1, queues := m\<rparr>"
  have sim: "same_tasks s ?s" using start_cleanup_Inr [OF c m(1)] by blast
  have "server_ok l watch opened tid ep env (q((ep, ?d) := [])) ?s (C(c \<mapsto> KDead))"
  proof (rule server_change [OF ok sv c nz sim, where t' = ?t and g = Over])
    show "role ?d c (co_fn ?t = 1) KDead Over" by (rule role.over)
  qed (use m w in \<open>simp_all add: desc_def\<close>)
  from step_aside [OF sg nz sim _ _ this, of ?t K] obtain s' env' c' t' where
    "schedule K tid ?s = Inr s'" "serving l watch opened tid ep env' (q((ep, ?d) := [])) c' t' s' (C(c \<mapsto> KDead))"
    by auto
  then show ?thesis using c nz m(1) by (auto simp: get_task_def start_finish_def intro!: fine_serving)
qed


section \<open>A coroutine is created\<close>

lemma tq_family_put_elem:
  assumes "tq_family m q" and e: "e \<notin> dom (tq_elems m)"
  shows "tq_family (put_elem e en m) q"
proof -
  have "tq_rep (put_elem e en m) h (q h)" if "h \<in> dom (tq_heads m)" for h
  proof -
    have r: "tq_rep m h (q h)" by (rule tq_family_rep [OF assms(1) that])
    then have "e \<notin> set (q h)" using e tq_chain_allocated unfolding tq_rep_def by fast
    with r show ?thesis by (simp add: tq_rep_def put_elem_def)
  qed
  with assms(1) show ?thesis by (simp add: tq_family_def put_elem_def)
qed

lemma new_task_events: "events (new_task ar p i fn a ep) = (\<lambda>_. \<lparr>ev_events = 0, ev_fd = 0\<rparr>)"
  by (simp add: new_task_def init_stack_def zero_task_def split: arch.split)

lemma with_new_task_simps:
  "heap (with_new_task ar ep env i fn a k s) = (heap s)(brk s \<mapsto> new_task ar (brk s) i fn a ep)"
  "envs (with_new_task ar ep env i fn a k s) =
    (envs s)(ep \<mapsto> env\<lparr>task := (task env)(i \<mapsto> brk s), task_count := task_count env + 1\<rparr>)"
  "queues (with_new_task ar ep env i fn a k s) = put_elem (brk s) \<lparr>tqe_next = None, tqe_prev = None\<rparr> (queues s)"
  "kst (with_new_task ar ep env i fn a k s) = k"
  "thread_has (with_new_task ar ep env i fn a k s) tid ep' = thread_has s tid ep'"
  by (simp_all add: with_new_task_def thread_has_def)

lemma members_new:
  assumes ok: "members_ok l watch opened ep q s C" and p: "heap s p = None" "tq_elems (queues s) p = None"
    and h: "heap s1 = (heap s)(p \<mapsto> nt)"
    and nt: "tsk_id nt \<noteq> 0" "thread_env nt = Some ep" "status nt = COROUTINE_RUNNING" "fds_idx nt = 0"
      "ev_fd (events nt (nat (desc l nt))) = 0"
    and links: "\<And>r. r \<noteq> p \<Longrightarrow> tq_elems (queues s1) r = tq_elems (queues s) r"
    and k: "watch (kst s1) = watch (kst s)" "opened (kst s1) = opened (kst s)"
    and x: "usable opened s (desc l nt)"
      "\<And>p' t'. heap s p' = Some t' \<Longrightarrow> tsk_id t' \<noteq> 0 \<Longrightarrow> desc l t' \<noteq> desc l nt"
    and none: "\<And>r t fn a f. heap s r = Some t \<Longrightarrow> C r \<noteq> Some (KUser (Create fn a f))"
    and r: "role (desc l nt) p (co_fn nt = 1) kn (Ready True)" "\<And>fn a f. kn \<noteq> KUser (Create fn a f)"
  shows "members_ok l watch opened ep q s1 (C(p \<mapsto> kn))"
proof -
  note D = members_okD [OF ok]
  have cases: "r = p \<and> t = nt \<or> r \<noteq> p \<and> heap s r = Some t" if "heap s1 r = Some t" for r t
    using that by (auto simp: h split: if_splits)
  have Q: "q (ep, desc l nt) = []"
  proof (rule ccontr)
    assume "q (ep, desc l nt) \<noteq> []"
    then obtain c where "c \<in> set (q (ep, desc l nt))" by (cases "q (ep, desc l nt)") auto
    then obtain t where "heap s c = Some t" "tsk_id t \<noteq> 0" "desc l nt = desc l t" using D(8) by blast
    with x(2) [of c t] show False by simp
  qed
  have w: "watch (kst s) (desc l nt) = 0" using D(5) [of "desc l nt"] x(2) by blast
  have use: "usable opened s1 d" if "usable opened s d" for d using that k by (simp add: usable_def)
  have new: "member l watch ep q s1 (C(p \<mapsto> kn)) p nt"
    using r(1) Q w nt k by (auto simp: member_def unregistered_def intro!: exI [of _ "Ready True"])
  show ?thesis
    unfolding members_ok_def
  proof (intro conjI allI impI)
    fix r t assume rt: "heap s1 r = Some t"
    note c = cases [OF rt]
    show "thread_env t = Some ep" using c nt D(1) by auto
    show "member l watch ep q s1 (C(p \<mapsto> kn)) r t" if nz: "tsk_id t \<noteq> 0"
      using c
    proof (elim disjE conjE)
      assume "r \<noteq> p" "heap s r = Some t"
      then show ?thesis using member_frame [OF D(2) [OF _ nz], of r "C(p \<mapsto> kn)" s1 q] links k by simp
    qed (use new in simp)
    show "usable opened s1 (desc l t)" if nz: "tsk_id t \<noteq> 0"
      using c use x(1) D(3) nz by auto
    show "r = r'" if "tsk_id t \<noteq> 0" "heap s1 r' = Some t'" "tsk_id t' \<noteq> 0" "desc l t = desc l t'" for r' t'
      using c cases [OF that(2)] x(2) [of r' t'] x(2) [of r t] D(4) [of r t r' t'] that by auto
  next
    fix d assume "watch (kst s1) d \<noteq> 0"
    then obtain r t where "heap s r = Some t" "tsk_id t \<noteq> 0" "desc l t = d" using D(5) [of d] k by auto
    then show "\<exists>r t. heap s1 r = Some t \<and> tsk_id t \<noteq> 0 \<and> desc l t = d"
      using p(1) by (intro exI [of _ r] exI [of _ t]) (auto simp: h)
  next
    fix y r assume "r \<in> set (q y)"
    then obtain t where "heap s r = Some t" "tsk_id t \<noteq> 0" "y = (ep, desc l t)" using D(8) by blast
    then show "\<exists>t. heap s1 r = Some t \<and> tsk_id t \<noteq> 0 \<and> y = (ep, desc l t)"
      using p(1) by (intro exI [of _ t]) (auto simp: h)
  next
    fix r t fn a f assume c: "heap s1 r = Some t" "(C(p \<mapsto> kn)) r = Some (KUser (Create fn a f))"
    then have False using cases [OF c(1)] none [of r] r(2) by auto
    then show "usable opened s1 (int_of_arg a)" and "desc l t' \<noteq> int_of_arg a" for p' t' by blast+
  qed
qed

lemma new_member:
  assumes sg: "serving l watch opened tid ep env q c t s C" and i: "free_slot env 0 \<noteq> NR_TASKS"
    and fn: "(if fn = 1 then int_of_arg a else l) = d" and us: "usable opened s d"
    and fresh: "\<And>p' t'. heap s p' = Some t' \<Longrightarrow> tsk_id t' \<noteq> 0 \<Longrightarrow> desc l t' \<noteq> d"
    and none: "\<And>r t fn a f. heap s r = Some t \<Longrightarrow> C r \<noteq> Some (KUser (Create fn a f))"
    and r: "role d (brk s) (fn = 1) kn (Ready True)"
    and k: "sees watch opened (kst s) k"
  shows "\<exists>env'. serving l watch opened tid ep env' q c t
    (with_new_task ar ep env (free_slot env 0) fn a k s) (C(brk s \<mapsto> kn))"
proof -
  let ?i = "free_slot env 0" and ?p = "brk s"
  let ?s = "with_new_task ar ep env ?i fn a k s" and ?nt = "new_task ar (brk s) (free_slot env 0) fn a ep"
  let ?env = "env\<lparr>task := (task env)(?i \<mapsto> ?p), task_count := task_count env + 1\<rparr>"
  have ok: "state_ok s" and sv: "server_ok l watch opened tid ep env q s C"
    and cur: "is_current s ep env c t" and ord: "in_order s t"
    using sg by (simp_all add: serving_def)
  note D = server_okD [OF sv] and c = is_currentD [OF ok cur]
  have slot: "?i < NR_TASKS" "task env ?i = None" "\<And>j. j < ?i \<Longrightarrow> task env j \<noteq> None"
    using free_slot_spec [of 0 env] i by auto
  have p: "heap s ?p = None" using state_ok_heap [OF ok, of ?p] by (cases "heap s ?p") auto
  then have e: "?p \<notin> dom (tq_elems (queues s))" using state_ok_blocks(1) [OF ok] by auto
  obtain m where m: "task env 0 = Some m" using D(4) unfolding main_ok_def by blast
  have i0: "?i \<noteq> 0" using slot(2) m by (metis option.distinct(1))
  have ti: "tsk_id t \<le> ?i" using D(6) [of "tsk_id t" ?i] c(5) slot(2) by (cases "?i < tsk_id t") auto
  have dnt: "desc l ?nt = d" using fn by (simp add: desc_def split: if_splits)
  have "state_ok ?s" by (rule state_ok_new_task [OF ok D(2) slot(2,1)])
  moreover have "members_ok l watch opened ep q ?s (C(?p \<mapsto> kn))"
  proof (rule members_new [OF D(5) p])
    show "role (desc l ?nt) ?p (co_fn ?nt = 1) kn (Ready True)" using r by (simp add: dnt)
    show "kn \<noteq> KUser (Create fn a f)" for fn a f
      using r by cases (auto simp: my_accept_at_simps do_client_at_simps(1))
  qed (use e i0 us fresh none k in \<open>auto simp: with_new_task_simps new_task_events dnt put_elem_def sees_def\<close>)
  moreover have "main_ok ?s ep ?env (C(?p \<mapsto> kn))"
    using D(4) p i0 unfolding main_ok_def by (fastforce simp: with_new_task_simps)
  moreover have "tq_family (queues ?s) q"
    using tq_family_put_elem [OF D(3) e] by (simp add: with_new_task_simps)
  moreover have "task ?env j \<noteq> None" if "task ?env n \<noteq> None" "j < n" for n j
    using that slot(3) [of j] D(6) [of n j] by (auto split: if_splits)
  moreover have "is_current ?s ep ?env c t"
    using c(2,3) p by (auto simp: is_current_def with_new_task_simps)
  moreover have "in_order ?s t"
    using ord ti by (auto simp: in_order_def with_new_task_simps split: if_splits)
  ultimately have "serving l watch opened tid ep ?env q c t ?s (C(?p \<mapsto> kn))"
    using D(1) by (simp add: serving_def server_ok_def with_new_task_simps)
  then show ?thesis by blast
qed


text \<open>Only the accepting coroutine creates coroutines.\<close>

lemma client_creates_none: "do_client_at d at \<noteq> Create fn a f"
  by (subst do_client_at.code) (simp split: client_at.split)

lemma creator:
  assumes sg: "serving l watch opened tid ep env q c t s C" and p: "heap s p = Some tp"
    and C: "C p = Some (KUser (Create fn a f))"
  shows "tsk_id tp \<noteq> 0 \<and> desc l tp = l"
proof -
  have ok: "state_ok s" and sv: "server_ok l watch opened tid ep env q s C"
    using sg by (simp_all add: serving_def)
  have nz: "tsk_id tp \<noteq> 0" using main_of(2) [OF ok sv p] C by auto
  obtain k g where "C p = Some k" "role (desc l tp) p (co_fn tp = 1) k g"
    using members_okD(2) [OF server_okD(5) [OF sv] p nz] by (auto simp: member_def)
  then have "co_fn tp \<noteq> 1"
    using C client_creates_none by (auto elim!: role.cases dest: sym)
  with nz show ?thesis by (simp add: desc_def)
qed

lemma create_turn:
  assumes laws: "epoll_laws K watch opened" and mem: "has_memory K" and sg: "serving l watch opened tid ep env q c t s C"
    and nz: "tsk_id t \<noteq> 0" and client: "co_fn t \<noteq> 1"
    and C: "C c = Some (KUser (my_accept_at (desc l t) (AfterAccept r)))" and r: "0 \<le> r"
    and fit: "fits ep c (desc l t) t (tq_elems (queues s) c) (q (ep, desc l t)) (watch (kst s) (desc l t)) (Ready False)"
  shows "goes_on l watch opened tid ok
    (resume K (demo03_code l) tid c (KUser (my_accept_at (desc l t) (AfterAccept r))) s C)"
proof -
  let ?a = "word_of_int r :: voidp" and ?d = "desc l t"
  let ?C = "C(c \<mapsto> KUser (my_accept_at ?d AtAccept))"
  have ok: "state_ok s" and sv: "server_ok l watch opened tid ep env q s C" and c: "heap s c = Some t"
    using sg by (simp_all add: serving_def is_current_def)
  note D = server_okD [OF sv]
  have k: "C c = Some (KUser (Create 1 ?a (\<lambda>_ _. my_accept_at ?d AtAccept)))"
    using C r by (simp add: my_accept_at_simps(2))
  note new = members_okD(6,7) [OF D(5) c k]
  have sg1: "serving l watch opened tid ep env q c t s ?C"
  proof (rule serving_change [OF sg nz same_tasks_refl, where g = "Ready True"])
    show "role ?d c (co_fn t = 1) (KUser (my_accept_at ?d AtAccept)) (Ready True)"
      using client by (simp add: role.intros)
  qed (use c fit D(3) in \<open>auto simp: map_upd_triv my_accept_at_simps(1)\<close>)
  have none: "?C p \<noteq> Some (KUser (Create fn a f))" if p: "heap s p = Some tp" for p tp fn a f
  proof
    assume "?C p = Some (KUser (Create fn a f))"
    moreover from creator [OF sg1 p this] have "p = c"
      using members_okD(4) [OF D(5) p _ c nz] client by (simp add: desc_def)
    ultimately show False by (simp add: my_accept_at_simps(1))
  qed
  obtain b k1 where b: "os_calloc K (kst s) = (b, k1)" by fastforce
  note law = epoll_lawsD(1) [OF laws b] has_memoryD [OF mem b]
  note create = co_create_eq [OF D(1,2), of K True 1 ?a]
  show ?thesis
  proof (cases "free_slot env 0 = NR_TASKS")
    case True
    with r sg1 show ?thesis by (auto simp: my_accept_at_simps(2) create intro!: fine_serving)
  next
    case False
    let ?kn = "KUser (do_client_at (int_of_arg ?a) AtRead)"
    obtain env' where "serving l watch opened tid ep env' q c t
        (with_new_task (os_arch K) ep env (free_slot env 0) 1 ?a k1 s) (?C(brk s \<mapsto> ?kn))"
      using new_member [OF sg1 False, of 1 ?a "int_of_arg ?a" ?kn k1 "os_arch K"] new none law
      by (auto simp: role.intros)
    with r b law False show ?thesis
      by (auto simp: my_accept_at_simps(2) create demo03_code_def do_client_def intro!: fine_serving)
  qed
qed


section \<open>Turns\<close>

lemma member_turn:
  assumes laws: "epoll_laws K watch opened" and mem: "has_memory K"
    and sg: "serving l watch opened tid ep env q c t s C" and nz: "tsk_id t \<noteq> 0"
  shows "goes_on l watch opened tid (\<not> strays K watch tid (s, C)) (turn K (demo03_code l) mains tid (s, C))"
proof -
  let ?d = "desc l t"
  have th: "thread_has s tid ep" and cur: "is_current s ep env c t" and ord: "in_order s t"
    using sg by (simp_all add: serving_def server_ok_def)
  obtain k g where k: "C c = Some k" "role ?d c (co_fn t = 1) k g"
    and fit: "fits ep c ?d t (tq_elems (queues s) c) (q (ep, ?d)) (watch (kst s) ?d) g"
    by (rule member_cases [OF sg nz])
  have turn: "turn K (demo03_code l) mains tid (s, C) = resume K (demo03_code l) tid c k s C"
    using k(1) by (simp add: turn_known [OF th cur])
  from k(2) have "goes_on l watch opened tid (\<not> strays K watch tid (s, C)) (resume K (demo03_code l) tid c k s C)"
  proof cases
    case accept
    with fit show ?thesis by (auto intro: accept_call [OF laws sg nz] simp del: fits.simps resume.simps)
  next
    case (accepted r)
    with create_turn [OF laws mem sg nz, where r = r] fit k(1) show ?thesis by simp
  next
    case accepting
    with accept_turn [OF laws sg nz] fit k(1) show ?thesis by simp
  next
    case read
    with fit show ?thesis by (auto intro: client_calls(1) [OF laws sg nz] simp del: fits.simps resume.simps)
  next
    case (has_read n)
    show ?thesis
    proof (cases "n = 0")
      case True
      with has_read client_leaves [OF laws sg nz] fit show ?thesis by (simp add: do_client_at_simps(2))
    next
      case False
      with has_read client_calls(2) [OF laws sg nz] fit show ?thesis by simp
    qed
  next
    case reading
    with read_turn [OF laws sg nz] fit k(1) show ?thesis by simp
  next
    case (written n)
    then have "k = KUser (do_client_at ?d AtRead)" by (simp add: do_client_at_simps(3))
    with written(1,3) fit show ?thesis
      by (auto intro: client_calls(1) [OF laws sg nz] simp del: fits.simps resume.simps)
  next
    case writing
    with write_turn [OF laws sg nz] fit k(1) show ?thesis by simp
  next
    case over
    with fit ord show ?thesis by (simp add: in_order_def)
  qed
  then show ?thesis by (simp add: turn)
qed


section \<open>The event loop\<close>

text \<open>The main coroutine moves from one place to another of its loop, or the kernel changes out of sight.\<close>

lemma main_goes_on:
  assumes ok: "state_ok s" and sv: "server_ok l watch opened tid ep env q s C"
    and c: "heap s c = Some t" "tsk_id t = 0" and k: "sees watch opened (kst s) k"
  shows "server_ok l watch opened tid ep env q (s\<lparr>kst := k\<rparr>) (C(c \<mapsto> KLoop ep epf))"
proof -
  note D = server_okD [OF sv]
  have m: "task env 0 = Some c" using entry_of [OF ok sv c(1)] c(2) by simp
  have "status t = COROUTINE_RUNNING" by (rule main_of(1) [OF ok sv c])
  then have "main_ok (s\<lparr>kst := k\<rparr>) ep env (C(c \<mapsto> KLoop ep epf))"
    using m c by (simp add: main_ok_def)
  moreover have "members_ok l watch opened ep q (s\<lparr>kst := k\<rparr>) (C(c \<mapsto> KLoop ep epf))"
  proof -
    have "member l watch ep q (s\<lparr>kst := k\<rparr>) (C(c \<mapsto> KLoop ep epf)) p tp"
      if "heap s p = Some tp" "tsk_id tp \<noteq> 0" for p tp
      using members_okD(2) [OF D(5) that] c that k by (auto simp: member_def sees_def)
    moreover have "usable opened (s\<lparr>kst := k\<rparr>) d = usable opened s d" for d
      using k by (simp add: usable_def sees_def)
    ultimately show ?thesis
      using D(5) k unfolding members_ok_def by (simp add: sees_def)
  qed
  ultimately show ?thesis using D unfolding server_ok_def by (simp add: thread_has_def)
qed

lemma wanted_of: "e \<in> {EPOLLIN, EPOLLOUT} \<Longrightarrow> wanted (EPOLLIN OR e) = e"
  by (auto simp: wanted_def)

lemma waits_for: "role d p client k (Waits e) \<Longrightarrow> e \<in> {EPOLLIN, EPOLLOUT}"
  by (auto elim: role.cases)

text \<open>An event on the descriptor of a waiting coroutine makes it runnable.\<close>

lemma event_serves:
  assumes ok: "state_ok s" and sv: "server_ok l watch opened tid ep env q s C"
    and p: "heap s p = Some t" "tsk_id t \<noteq> 0" "status t = COROUTINE_WAIT"
    and ev: "ev_fd ev = desc l t" "ev_events ev AND wanted (watch (kst s) (ev_fd ev)) \<noteq> 0"
  shows "\<exists>s1. handle_event ep ev s = Inr s1 \<and> server_ok l watch opened tid ep env (q((ep, desc l t) := [])) s1 C \<and>
    same_tasks s s1 \<and> heap s1 = (heap s)(p \<mapsto> wake_by ev t) \<and> kst s1 = kst s \<and>
    status (wake_by ev t) = COROUTINE_RUNNING \<and> revents (wake_by ev t) (nat (ev_fd ev)) = ev_events ev"
proof -
  let ?d = "desc l t"
  note D = server_okD [OF sv]
  obtain k g where k: "C p = Some k" "role ?d p (co_fn t = 1) k g"
    and f: "fits ep p ?d t (tq_elems (queues s) p) (q (ep, ?d)) (watch (kst s) ?d) g"
    using members_okD(2) [OF D(5) p(1,2)] by (auto simp: member_def)
  obtain e where g: "g = Waits e" using f p(3) by (cases g) auto
  have e: "e \<in> {EPOLLIN, EPOLLOUT}" by (rule waits_for [OF k(2) [unfolded g]])
  have w: "registered_for t ?d (EPOLLIN OR e) (watch (kst s) ?d)" "q (ep, ?d) = [p]"
      "tq_elems (queues s) p = Some (stale_entry (ep, ?d))"
    using f g p(3) by (auto split: if_splits)
  have us: "usable opened s ?d" by (rule members_okD(3) [OF D(5) p(1,2)])
  then have fd: "0 \<le> ?d" "?d < int MAX_FD" by (simp_all add: usable_def)
  have h: "(ep, ?d) \<in> dom (tq_heads (queues s))" using state_ok_blocks(2) [OF ok] D(2) fd by auto
  obtain m where m: "handle_event ep ev s = Inr (s\<lparr>queues := m, heap := (heap s)(p \<mapsto> wake_by ev t)\<rparr>)"
      "TAILQ_REMOVE (ep, ?d) (Some p) (queues s) = Inr m" "tq_family m (q((ep, ?d) := []))"
    using handle_event_step [of ep ev s q p "[]" t] h fd D(3) w(2) p(1) by (auto simp: ev(1))
  let ?s = "s\<lparr>queues := m, heap := (heap s)(p \<mapsto> wake_by ev t)\<rparr>"
  have links: "tq_elems m = tq_elems (queues s)"
    using TAILQ_REMOVE_stale_same [OF w(3) h] m(2) by (auto simp: tq_frame_def)
  have sim: "same_tasks s ?s" by (rule handle_event_same_tasks [OF m(1)])
  have bits: "ev_events ev AND e \<noteq> 0"
    using ev(2) w(1) wanted_of [OF e] by (simp add: ev(1) registered_for_def)
  have "(EPOLLIN OR e) AND e \<noteq> 0" using e by auto
  then have "(EPOLLIN OR e) AND ev_events ev \<noteq> 0" by (rule common_event [OF e _ bits])
  then have wake: "wake_by ev t = t\<lparr>status := COROUTINE_RUNNING, revents := (revents t)(nat ?d := ev_events ev)\<rparr>"
    using w(1) by (simp add: wake_by_def ev(1) registered_for_def)
  have "C(p \<mapsto> k) = C" using k(1) by (simp add: map_upd_triv)
  moreover have "server_ok l watch opened tid ep env (q((ep, ?d) := [])) ?s (C(p \<mapsto> k))"
  proof (rule server_change [OF ok sv p(1,2) sim, where t' = "wake_by ev t" and g = g])
    show "role ?d p (co_fn (wake_by ev t) = 1) k g" using k(2) by (simp add: wake)
    show "fits ep p ?d (wake_by ev t) (tq_elems (queues ?s) p) [] (watch (kst ?s) ?d) g"
      using w bits by (simp add: g wake links registered_for_def)
    fix fn a f assume "k = KUser (Create fn a f)"
    with k(2) g show "usable opened ?s (int_of_arg a) \<and>
        (\<forall>p' t'. heap s p' = Some t' \<longrightarrow> tsk_id t' \<noteq> 0 \<longrightarrow> desc l t' \<noteq> int_of_arg a)"
      by (auto elim: role.cases)
  qed (use m links in \<open>simp_all add: wake desc_def\<close>)
  ultimately show ?thesis using m(1) sim by (simp add: wake ev(1))
qed


lemma events_serve:
  assumes "state_ok s" and "server_ok l watch opened tid ep env q s C" and "distinct (map ev_fd evs)"
    and "\<And>ev. ev \<in> set evs \<Longrightarrow> ev_events ev AND wanted (watch (kst s) (ev_fd ev)) \<noteq> 0 \<and>
      (\<exists>p t. heap s p = Some t \<and> tsk_id t \<noteq> 0 \<and> status t = COROUTINE_WAIT \<and> desc l t = ev_fd ev)"
  shows "\<exists>s1 q1. foldE (handle_event ep) evs s = Inr s1 \<and> server_ok l watch opened tid ep env q1 s1 C \<and>
    same_tasks s s1"
  using assms
proof (induction evs arbitrary: s q)
  case Nil
  then show ?case using same_tasks_refl by auto
next
  case (Cons ev evs)
  obtain p t where p: "heap s p = Some t" "tsk_id t \<noteq> 0" "status t = COROUTINE_WAIT" "ev_fd ev = desc l t"
    using Cons.prems(4) [of ev] by (metis list.set_intros(1))
  have bits: "ev_events ev AND wanted (watch (kst s) (ev_fd ev)) \<noteq> 0" using Cons.prems(4) [of ev] by simp
  obtain s1 where s1: "handle_event ep ev s = Inr s1"
      "server_ok l watch opened tid ep env (q((ep, desc l t) := [])) s1 C" "same_tasks s s1"
      "heap s1 = (heap s)(p \<mapsto> wake_by ev t)" "kst s1 = kst s"
    using event_serves [OF Cons.prems(1,2) p bits] by blast
  have ok1: "state_ok s1" using s1(3) Cons.prems(1) by (rule state_ok_same_tasks)
  have "\<exists>s2 q2. foldE (handle_event ep) evs s1 = Inr s2 \<and> server_ok l watch opened tid ep env q2 s2 C \<and>
      same_tasks s1 s2"
  proof (rule Cons.IH [OF ok1 s1(2)])
    fix ev' assume ev': "ev' \<in> set evs"
    then obtain p' t' where p': "heap s p' = Some t'" "tsk_id t' \<noteq> 0" "status t' = COROUTINE_WAIT"
        "desc l t' = ev_fd ev'" "ev_events ev' AND wanted (watch (kst s) (ev_fd ev')) \<noteq> 0"
      using Cons.prems(4) [of ev'] by auto
    have "p' \<noteq> p" using Cons.prems(3) ev' p(1,4) p'(1,4) by (auto simp: rev_image_eqI)
    with p' show "ev_events ev' AND wanted (watch (kst s1) (ev_fd ev')) \<noteq> 0 \<and>
        (\<exists>p t. heap s1 p = Some t \<and> tsk_id t \<noteq> 0 \<and> status t = COROUTINE_WAIT \<and> desc l t = ev_fd ev')"
      by (simp add: s1(4,5)) (intro exI [of _ p'] exI [of _ t'], simp)
  qed (use Cons.prems(3) in simp)
  then show ?case using s1(1) same_tasks_trans [OF s1(3)] by auto
qed

text \<open>
  When the main coroutine runs, the descriptors the kernel watches are those of waiting coroutines,
  each alone in its queue.
\<close>

lemma watched_waiter:
  assumes sg: "serving l watch opened tid ep env q c t s C" and z: "tsk_id t = 0" and w: "watch (kst s) d \<noteq> 0"
  shows "\<exists>p tp. heap s p = Some tp \<and> tsk_id tp \<noteq> 0 \<and> status tp = COROUTINE_WAIT \<and> desc l tp = d \<and>
    q (ep, d) = [p] \<and> revents tp (nat d) AND wanted (watch (kst s) d) = 0 \<and>
    events tp (nat d) = \<lparr>ev_events = watch (kst s) d, ev_fd = d\<rparr> \<and>
    watch (kst s) d AND wanted (watch (kst s) d) \<noteq> 0 \<and> wanted (watch (kst s) d) \<in> {EPOLLIN, EPOLLOUT}"
proof -
  have sv: "server_ok l watch opened tid ep env q s C" and ord: "in_order s t"
    using sg by (simp_all add: serving_def)
  note D = members_okD [OF server_okD(5) [OF sv]]
  obtain p tp where p: "heap s p = Some tp" "tsk_id tp \<noteq> 0" "desc l tp = d" using D(5) [OF w] by blast
  obtain k g where k: "role (desc l tp) p (co_fn tp = 1) k g"
    and f: "fits ep p (desc l tp) tp (tq_elems (queues s) p) (q (ep, desc l tp)) (watch (kst s) (desc l tp)) g"
    using D(2) [OF p(1,2)] by (auto simp: member_def)
  have "status tp = COROUTINE_RUNNING \<Longrightarrow> fds_idx tp = 0" using ord p z by (simp add: in_order_def)
  then obtain e where g: "g = Waits e" and st: "status tp = COROUTINE_WAIT"
    using f w p(3) by (cases g) (auto simp: unregistered_def registered_for_def split: if_splits)
  have e: "e \<in> {EPOLLIN, EPOLLOUT}" by (rule waits_for [OF k [unfolded g]])
  then have "(EPOLLIN OR e) AND e \<noteq> 0" by auto
  moreover have "watch (kst s) d = EPOLLIN OR e" "q (ep, d) = [p]" "revents tp (nat d) AND e = 0"
      "events tp (nat d) = \<lparr>ev_events = EPOLLIN OR e, ev_fd = d\<rparr>"
    using f g st p(3) by (auto simp: registered_for_def split: if_splits)
  ultimately show ?thesis using p st e wanted_of [OF e] by (intro exI [of _ p] exI [of _ tp]) simp
qed

section \<open>A batch of events\<close>

text \<open>
  Events on different descriptors that each have a single waiter: every waiter leaves its queue, and
  the others are left alone.
\<close>

lemma deliver_alone:
  assumes "distinct (map ev_fd evs)"
    and "\<And>ev. ev \<in> set evs \<Longrightarrow> \<exists>p t. q (ep, ev_fd ev) = [p] \<and> H p = Some t"
    and "\<And>h h' p. p \<in> set (q h) \<Longrightarrow> p \<in> set (q h') \<Longrightarrow> h = h'"
  shows "\<exists>q' H'. deliver ep evs (q, H) = Some (q', H') \<and> (\<forall>h. set (q' h) \<subseteq> set (q h)) \<and>
    (\<forall>ev p t. ev \<in> set evs \<longrightarrow> q (ep, ev_fd ev) = [p] \<longrightarrow> H p = Some t \<longrightarrow>
       H' p = Some (wake_by ev t) \<and> (\<forall>h. p \<notin> set (q' h))) \<and>
    (\<forall>p. (\<forall>ev \<in> set evs. q (ep, ev_fd ev) \<noteq> [p]) \<longrightarrow> H' p = H p)"
  using assms
proof (induction evs arbitrary: q H)
  case Nil
  then show ?case by simp
next
  case (Cons ev evs)
  obtain p t where p: "q (ep, ev_fd ev) = [p]" "H p = Some t" using Cons.prems(2) [of ev] by auto
  let ?q = "q((ep, ev_fd ev) := [])" and ?H = "H(p \<mapsto> wake_by ev t)"
  have same: "?q (ep, ev_fd ev') = q (ep, ev_fd ev')" if "ev' \<in> set evs" for ev'
    using Cons.prems(1) that by (auto simp: rev_image_eqI)
  have other: "p' \<noteq> p" if "ev' \<in> set evs" "q (ep, ev_fd ev') = [p']" for ev' p'
    using Cons.prems(1) Cons.prems(3) [of p "(ep, ev_fd ev)" "(ep, ev_fd ev')"] p(1) that
    by (auto simp: rev_image_eqI)
  have "\<exists>q' H'. deliver ep evs (?q, ?H) = Some (q', H') \<and> (\<forall>h. set (q' h) \<subseteq> set (?q h)) \<and>
    (\<forall>ev p t. ev \<in> set evs \<longrightarrow> ?q (ep, ev_fd ev) = [p] \<longrightarrow> ?H p = Some t \<longrightarrow>
       H' p = Some (wake_by ev t) \<and> (\<forall>h. p \<notin> set (q' h))) \<and>
    (\<forall>p. (\<forall>ev \<in> set evs. ?q (ep, ev_fd ev) \<noteq> [p]) \<longrightarrow> H' p = ?H p)"
  proof (rule Cons.IH)
    show "distinct (map ev_fd evs)" using Cons.prems(1) by simp
    show "\<exists>p t. ?q (ep, ev_fd ev') = [p] \<and> ?H p = Some t" if "ev' \<in> set evs" for ev'
      using Cons.prems(2) [of ev'] same [OF that] that by auto
    show "h = h'" if "x \<in> set (?q h)" "x \<in> set (?q h')" for h h' x
      using Cons.prems(3) [of x h h'] that by (auto split: if_splits)
  qed
  then obtain q' H' where d: "deliver ep evs (?q, ?H) = Some (q', H')" and le: "\<And>h. set (q' h) \<subseteq> set (?q h)"
    and wake: "\<And>ev p t. ev \<in> set evs \<Longrightarrow> ?q (ep, ev_fd ev) = [p] \<Longrightarrow> ?H p = Some t \<Longrightarrow>
       H' p = Some (wake_by ev t) \<and> (\<forall>h. p \<notin> set (q' h))"
    and rest: "\<And>p. (\<forall>ev \<in> set evs. ?q (ep, ev_fd ev) \<noteq> [p]) \<Longrightarrow> H' p = ?H p" by blast
  have "p \<notin> set (q' h)" for h
    using le [of h] Cons.prems(3) [of p h "(ep, ev_fd ev)"] p(1) by (cases "h = (ep, ev_fd ev)") auto
  moreover have "H' p = ?H p" using rest other same by metis
  ultimately have first: "H' p = Some (wake_by ev t) \<and> (\<forall>h. p \<notin> set (q' h))" by simp
  show ?case
  proof (intro exI conjI allI impI)
    show "deliver ep (ev # evs) (q, H) = Some (q', H')" using d p by simp
    show "set (q' h) \<subseteq> set (q h)" for h using le [of h] by (auto split: if_splits)
    fix ev' p' t' assume e: "ev' \<in> set (ev # evs)" "q (ep, ev_fd ev') = [p']" "H p' = Some t'"
    have "H' p' = Some (wake_by ev' t') \<and> (\<forall>h. p' \<notin> set (q' h))"
    proof (cases "ev' \<in> set evs")
      case True
      with wake [OF True] same [OF True] other [OF True e(2)] e(2,3) show ?thesis by simp
    next
      case False
      with e p first show ?thesis by simp
    qed
    then show "H' p' = Some (wake_by ev' t')" and "p' \<notin> set (q' h)" for h by blast+
  next
    fix r assume r: "\<forall>ev' \<in> set (ev # evs). q (ep, ev_fd ev') \<noteq> [r]"
    then have "r \<noteq> p" using p(1) by auto
    moreover have "H' r = ?H r" using r same by (intro rest) simp
    ultimately show "H' r = H r" by simp
  qed
qed

text \<open>The batch that the event loop has been told of.\<close>

lemma batch_taken:
  assumes sg: "serving l watch opened tid ep env q c t s C" and z: "tsk_id t = 0"
    and evs: "distinct (map ev_fd evs)" "\<And>ev. ev \<in> set evs \<Longrightarrow> watch (kst s) (ev_fd ev) \<noteq> 0"
  shows "\<exists>m q1 H. foldE (handle_event ep) evs (s\<lparr>kst := k\<rparr>) = Inr (s\<lparr>kst := k, queues := m, heap := H\<rparr>) \<and>
    same_tasks s (s\<lparr>kst := k, queues := m, heap := H\<rparr>) \<and> tq_family m q1 \<and> H c = Some t \<and>
    (\<forall>p tp. H p = Some tp \<longrightarrow> thread_env tp = Some ep \<and> status tp \<noteq> COROUTINE_SLEEP) \<and>
    (\<forall>ev p tp. ev \<in> set evs \<longrightarrow> q (ep, ev_fd ev) = [p] \<longrightarrow> heap s p = Some tp \<longrightarrow>
       H p = Some (wake_by ev tp) \<and> (\<forall>h. p \<notin> set (q1 h)))"
proof -
  have ok: "state_ok s" and sv: "server_ok l watch opened tid ep env q s C" and cur: "is_current s ep env c t"
    using sg by (simp_all add: serving_def)
  note D = server_okD [OF sv] and M = members_okD [OF server_okD(5) [OF sv]] and c = is_currentD [OF ok cur]
  let ?s = "s\<lparr>kst := k\<rparr>"
  have alone: "\<exists>p tp. q (ep, ev_fd ev) = [p] \<and> heap s p = Some tp" if "ev \<in> set evs" for ev
    using watched_waiter [OF sg z evs(2) [OF that]] by blast
  have one: "h = h'" if "p \<in> set (q h)" "p \<in> set (q h')" for h h' p
    using M(8) [OF that(1)] M(8) [OF that(2)] by auto
  have batch: "\<exists>q' H'. deliver ep evs (q, heap s) = Some (q', H') \<and> (\<forall>h. set (q' h) \<subseteq> set (q h)) \<and>
    (\<forall>ev p t. ev \<in> set evs \<longrightarrow> q (ep, ev_fd ev) = [p] \<longrightarrow> heap s p = Some t \<longrightarrow>
       H' p = Some (wake_by ev t) \<and> (\<forall>h. p \<notin> set (q' h))) \<and>
    (\<forall>p. (\<forall>ev \<in> set evs. q (ep, ev_fd ev) \<noteq> [p]) \<longrightarrow> H' p = heap s p)"
    by (rule deliver_alone [OF evs(1)]) (erule alone, erule one, assumption)
  obtain q1 H where d: "deliver ep evs (q, heap s) = Some (q1, H)"
    and wake: "\<And>ev p tp. ev \<in> set evs \<Longrightarrow> q (ep, ev_fd ev) = [p] \<Longrightarrow> heap s p = Some tp \<Longrightarrow>
       H p = Some (wake_by ev tp) \<and> (\<forall>h. p \<notin> set (q1 h))"
    and rest: "\<And>p. (\<forall>ev \<in> set evs. q (ep, ev_fd ev) \<noteq> [p]) \<Longrightarrow> H p = heap s p"
    using batch by blast
  have fd: "0 \<le> ev_fd ev \<and> ev_fd ev < int MAX_FD" if ev: "ev \<in> set evs" for ev
  proof -
    obtain p tp where "heap s p = Some tp" "tsk_id tp \<noteq> 0" "desc l tp = ev_fd ev"
      using watched_waiter [OF sg z evs(2) [OF ev]] by blast
    with M(3) [of p tp] show ?thesis by (simp add: usable_def)
  qed
  have "state_ok ?s" "envs ?s ep = Some env" "tq_family (queues ?s) q" using ok D(2,3) by simp_all
  from handle_events_deliver [OF this, of evs] fd d
  obtain m where m: "foldE (handle_event ep) evs ?s = Inr (?s\<lparr>queues := m, heap := H\<rparr>)" "tq_family m q1"
      "same_tasks ?s (?s\<lparr>queues := m, heap := H\<rparr>)" by auto
  have main: "q h \<noteq> [c]" for h
  proof
    assume "q h = [c]"
    then have "c \<in> set (q h)" by simp
    from M(8) [OF this] c(3) z show False by auto
  qed
  have awake: "thread_env tp = Some ep \<and> status tp \<noteq> COROUTINE_SLEEP" if h: "H p = Some tp" for p tp
  proof (cases "\<forall>ev \<in> set evs. q (ep, ev_fd ev) \<noteq> [p]")
    case True
    then have "heap s p = Some tp" using rest h by simp
    with M(1) no_sleeper [OF ok sv] show ?thesis by blast
  next
    case False
    then obtain ev where ev: "ev \<in> set evs" "q (ep, ev_fd ev) = [p]" by blast
    then obtain t0 where t0: "heap s p = Some t0" using alone by fastforce
    have "tp = wake_by ev t0" using wake [OF ev t0] h by simp
    with M(1) [OF t0] no_sleeper [OF ok sv t0] show ?thesis by (simp add: wake_by_def)
  qed
  have "same_tasks s (?s\<lparr>queues := m, heap := H\<rparr>)" by (rule same_tasks_trans [OF kst_same_tasks m(3)])
  moreover have "H c = Some t" using rest main c(3) by simp
  ultimately show ?thesis using m(1,2) awake wake
    by (intro exI [of _ m] exI [of _ q1] exI [of _ H]) blast
qed

text \<open>
  A turn of the loop goes on whatever events the kernel has reported: the waiters of their
  descriptors leave their queues. The server is in order again when all had the bits they need.
\<close>

lemma loop_turn:
  assumes laws: "epoll_laws K watch opened" and sg: "serving l watch opened tid ep env q c t s C"
    and z: "tsk_id t = 0" and k: "C c = Some (KLoop ep epf)"
    and w: "os_epoll_wait K epf (kst s) = (Some evs, k1)"
  shows "\<exists>s' q'. turn K (demo03_code l) mains tid (s, C) = Inr (s', C) \<and> tq_family (queues s') q' \<and>
    (\<forall>ev p tp. ev \<in> set evs \<longrightarrow> q (ep, ev_fd ev) = [p] \<longrightarrow> heap s p = Some tp \<longrightarrow>
       heap s' p = Some (wake_by ev tp) \<and> (\<forall>h. p \<notin> set (q' h))) \<and>
    (\<not> strays K watch tid (s, C) \<longrightarrow> fine l watch opened tid (s', C))"
proof -
  have ok: "state_ok s" and sv: "server_ok l watch opened tid ep env q s C" and cur: "is_current s ep env c t"
    using sg by (simp_all add: serving_def)
  note D = server_okD [OF sv] and c = is_currentD [OF ok cur]
  let ?s = "s\<lparr>kst := k1\<rparr>"
  have same: "C(c \<mapsto> KLoop ep epf) = C" using k by (simp add: map_upd_triv)
  have law: "sees watch opened (kst s) k1" "length evs \<le> 1024" "distinct (map ev_fd evs)"
    and reg: "\<And>ev. ev \<in> set evs \<Longrightarrow> watch (kst s) (ev_fd ev) \<noteq> 0"
    using epoll_lawsD(6) [OF laws w] by blast+
  obtain m q1 H where b: "foldE (handle_event ep) evs ?s = Inr (s\<lparr>kst := k1, queues := m, heap := H\<rparr>)"
      "same_tasks s (s\<lparr>kst := k1, queues := m, heap := H\<rparr>)" "tq_family m q1" "H c = Some t"
    and awake: "\<And>p tp. H p = Some tp \<Longrightarrow> thread_env tp = Some ep \<and> status tp \<noteq> COROUTINE_SLEEP"
    and wake: "\<And>ev p tp. ev \<in> set evs \<Longrightarrow> q (ep, ev_fd ev) = [p] \<Longrightarrow> heap s p = Some tp \<Longrightarrow>
       H p = Some (wake_by ev tp) \<and> (\<forall>h. p \<notin> set (q1 h))"
    using batch_taken [where k = k1, OF sg z law(3) reg] by blast
  let ?s1 = "s\<lparr>kst := k1, queues := m, heap := H\<rparr>"
  have ok1: "state_ok ?s1" using b(2) ok by (rule state_ok_same_tasks)
  have th1: "thread_has ?s1 tid ep" using D(1) same_tasks_thread [OF b(2)] by simp
  have cur1: "is_current ?s1 ep env c t" using c(1,2) b(4) by (simp add: is_current_def)
  have "task env 0 = Some c" using c(5) z by simp
  moreover have "status t = COROUTINE_RUNNING" by (rule main_of(1) [OF ok sv c(3) z])
  ultimately have run: "running_at ?s1 ep 0"
    using running_at_ok [OF ok1, of ep env 0] c(1) b(4) by auto
  obtain p where sch: "schedule K tid ?s1 = Inr (?s1\<lparr>envs := (envs ?s1)(ep \<mapsto> env\<lparr>current := Some p\<rparr>)\<rparr>)"
    by (rule schedule_next [where K = K, OF ok1 th1 cur1 _ run]) (use awake z in auto)
  let ?s2 = "?s1\<lparr>envs := (envs ?s1)(ep \<mapsto> env\<lparr>current := Some p\<rparr>)\<rparr>"
  have "co_eventloop_turn K tid ep epf s = bnd (foldE (handle_event ep) evs ?s) (schedule K tid)"
    using w law(2) by (cases evs) (simp_all add: co_eventloop_turn_def syscall_def)
  then have turn: "turn K (demo03_code l) mains tid (s, C) = Inr (?s2, C)"
    using b(1) sch by (simp add: turn_known [where C = C, OF D(1) cur k] same)
  have "fine l watch opened tid (?s2, C)" if ord: "\<not> strays K watch tid (s, C)"
  proof -
    have sv1: "server_ok l watch opened tid ep env q ?s C"
      using main_goes_on [OF ok sv c(3) z law(1), of epf] same by simp
    have "\<exists>s1 q1. foldE (handle_event ep) evs ?s = Inr s1 \<and> server_ok l watch opened tid ep env q1 s1 C \<and>
        same_tasks ?s s1"
    proof (rule events_serve [OF _ sv1 law(3)])
      fix ev assume ev: "ev \<in> set evs"
      have "ev_events ev AND wanted (watch (kst s) (ev_fd ev)) \<noteq> 0"
        using strays_event [where C = C, OF D(1) cur k w ev] ord by blast
      moreover have "watch k1 = watch (kst s)" using law(1) by (simp add: sees_def)
      ultimately show "ev_events ev AND wanted (watch (kst ?s) (ev_fd ev)) \<noteq> 0 \<and>
          (\<exists>p t. heap ?s p = Some t \<and> tsk_id t \<noteq> 0 \<and> status t = COROUTINE_WAIT \<and> desc l t = ev_fd ev)"
        using watched_waiter [OF sg z reg [OF ev]] by auto
    qed (use ok in simp)
    then obtain q2 where "server_ok l watch opened tid ep env q2 ?s1 C" using b(1) by auto
    from schedule_serves [OF ok1 this cur1, of K] z sch show ?thesis by (auto intro: fine_serving)
  qed
  then show ?thesis using turn b(3) wake by (intro exI [of _ ?s2] exI [of _ q1]) simp
qed

text \<open>What an event does to the coroutine that waits on its descriptor.\<close>

lemma event_taken:
  assumes laws: "epoll_laws K watch opened" and sg: "serving l watch opened tid ep env q c t s C"
    and z: "tsk_id t = 0" and k: "C c = Some (KLoop ep epf)"
    and w: "os_epoll_wait K epf (kst s) = (Some evs, k1)" and ev: "ev \<in> set evs"
  shows "\<exists>q q' s' p tp tp'. tq_family (queues s) q \<and> q (ep, ev_fd ev) = [p] \<and>
    heap s p = Some tp \<and> status tp = COROUTINE_WAIT \<and>
    turn K (demo03_code l) mains tid (s, C) = Inr (s', C) \<and>
    heap s' p = Some tp' \<and> tq_family (queues s') q' \<and> (\<forall>h. p \<notin> set (q' h)) \<and>
    (if ev_events ev AND wanted (watch (kst s) (ev_fd ev)) \<noteq> 0
     then status tp' = COROUTINE_RUNNING \<and> revents tp' (nat (ev_fd ev)) = ev_events ev \<and>
       await K tid (Some p) (ev_fd ev) (wanted (watch (kst s) (ev_fd ev))) s' = Inr (True, s')
     else revents tp' (nat (ev_fd ev)) AND wanted (watch (kst s) (ev_fd ev)) = 0)"
proof -
  let ?d = "ev_fd ev" and ?w = "watch (kst s) (ev_fd ev)"
  have sv: "server_ok l watch opened tid ep env q s C" using sg by (simp add: serving_def)
  have "?w \<noteq> 0" using epoll_lawsD(6) [OF laws w] ev by blast
  from watched_waiter [OF sg z this] obtain p tp where p: "heap s p = Some tp" "tsk_id tp \<noteq> 0"
      "status tp = COROUTINE_WAIT" "desc l tp = ?d" "q (ep, ?d) = [p]" "revents tp (nat ?d) AND wanted ?w = 0"
      "events tp (nat ?d) = \<lparr>ev_events = ?w, ev_fd = ?d\<rparr>" "?w AND wanted ?w \<noteq> 0"
      "wanted ?w \<in> {EPOLLIN, EPOLLOUT}" by blast
  obtain s' q' where r: "turn K (demo03_code l) mains tid (s, C) = Inr (s', C)" "tq_family (queues s') q'"
      "heap s' p = Some (wake_by ev tp)" "\<forall>h. p \<notin> set (q' h)"
    using loop_turn [OF laws sg z k w, of mains] ev p(1,5) by blast
  have n: "fd_index ?d = Inr (nat ?d)"
    using usable_index [OF members_okD(3) [OF server_okD(5) [OF sv] p(1,2)]] p(4) by simp
  have served: "status (wake_by ev tp) = COROUTINE_RUNNING \<and> revents (wake_by ev tp) (nat ?d) = ev_events ev \<and>
      await K tid (Some p) ?d (wanted ?w) s' = Inr (True, s')" if bits: "ev_events ev AND wanted ?w \<noteq> 0"
  proof -
    have "?w AND ev_events ev \<noteq> 0" by (rule common_event [OF p(9,8) bits])
    then have rev: "status (wake_by ev tp) = COROUTINE_RUNNING" "revents (wake_by ev tp) (nat ?d) = ev_events ev"
      by (simp_all add: wake_by_def p(7))
    moreover have "await K tid (Some p) ?d (wanted ?w) s' = Inr (True, s')"
      using await_eq [where K = K and tid = tid, OF r(3) n] rev(2) bits by simp
    ultimately show ?thesis by blast
  qed
  have "revents (wake_by ev tp) (nat ?d) AND wanted ?w = 0" if "ev_events ev AND wanted ?w = 0"
    using that p(6) by (simp add: wake_by_def)
  with served p(1,3,5) r server_okD(3) [OF sv] show ?thesis
    by (intro exI [of _ q] exI [of _ q'] exI [of _ s'] exI [of _ p] exI [of _ tp] exI [of _ "wake_by ev tp"]) simp
qed

lemma main_turn:
  assumes laws: "epoll_laws K watch opened" and sg: "serving l watch opened tid ep env q c t s C"
    and z: "tsk_id t = 0"
  shows "goes_on l watch opened tid (\<not> strays K watch tid (s, C)) (turn K (demo03_code l) mains tid (s, C))"
proof -
  have ok: "state_ok s" and sv: "server_ok l watch opened tid ep env q s C" and cur: "is_current s ep env c t"
    and ord: "in_order s t"
    using sg by (simp_all add: serving_def)
  note D = server_okD [OF sv] and c = is_currentD [OF ok cur]
  from main_of(2) [OF ok sv c(3) z] show ?thesis
  proof (elim disjE exE)
    assume "C c = Some (KUser EventLoop)"
    moreover have "serving l watch opened tid ep env q c t s (C(c \<mapsto> KLoop ep (epfd env)))"
      using main_goes_on [OF ok sv c(3) z, of "kst s"] ok cur ord by (simp add: serving_def sees_def)
    ultimately show ?thesis
      using c(1) by (simp add: turn_known [OF D(1) cur] co_eventloop_enter_def thread_has_get [OF D(1)]
        get_env_def fine_serving)
  next
    fix epf assume k: "C c = Some (KLoop ep epf)"
    obtain evso k1 where w: "os_epoll_wait K epf (kst s) = (evso, k1)" by fastforce
    show ?thesis
    proof (cases evso)
      case None
      then show ?thesis
        using w by (simp add: turn_known [where C = C, OF D(1) cur k] co_eventloop_turn_def syscall_def)
    next
      case (Some evs)
      with loop_turn [OF laws sg z k w [unfolded Some], of mains] show ?thesis by auto
    qed
  qed
qed

end
