(* ===== verification/EchoRuns.thy ===== *)
theory EchoRuns
  imports EchoTurns
begin

text \<open>
  The executions of the echo server: the invariant holds after the first turn, hence in every state
  it reaches. A concrete kernel shows that the assumptions can be met.
\<close>

section \<open>The first turn\<close>

lemma first_env:
  assumes laws: "epoll_laws K watch opened" and mem: "has_memory K" and slot: "tid_slot tid = Inr slot"
  shows "\<exists>fd k. co_get_thread_env K tid (init_state k0) = Inr (0, with_new_env slot fd k (init_state k0)) \<and>
    sees watch opened k0 k"
proof -
  obtain b1 k1 where k1: "os_calloc K k0 = (b1, k1)" by fastforce
  obtain b2 k2 where k2: "os_calloc K k1 = (b2, k2)" by fastforce
  obtain fd k3 where k3: "os_epoll_create K k2 = (fd, k3)" by fastforce
  have b: "b1" "b2" using has_memoryD [OF mem k1] has_memoryD [OF mem k2] by simp_all
  have see: "sees watch opened k0 k3"
    using epoll_lawsD(1) [OF laws k1] epoll_lawsD(1) [OF laws k2] epoll_lawsD(2) [OF laws k3]
    by (simp add: sees_def)
  have "co_get_thread_env K tid (init_state k0) = Inr (0, with_new_env slot fd k3 (init_state k0))"
    using slot k1 k2 k3 b
    by (simp add: co_get_thread_env_def init_state_def calloc_env_def calloc_task_def syscall_def nonnull_def
        mod_env_def mod_task_def get_env_def get_task_def put_elem_def init_queues_heads dom_def)
      (simp add: with_new_env_def zero_env_def zero_task_def)
  with see show ?thesis by blast
qed

lemma serving_first:
  assumes slot: "tid_slot tid = Inr slot" and k: "watch k = (\<lambda>_. 0)"
  shows "serving l watch opened tid 0 \<lparr>task_count = 1, current = Some 1, epfd = fd, task = [0 \<mapsto> 1]\<rparr>
    (\<lambda>_. []) 1 (zero_task\<lparr>thread_env := Some 0\<rparr>) (with_new_env slot fd k (init_state k0)) [1 \<mapsto> KUser EventLoop]"
    (is "serving _ _ _ _ _ ?env _ _ ?t ?s _")
proof -
  have f: "heap ?s = [1 \<mapsto> ?t]" "envs ?s = [0 \<mapsto> ?env]" "kst ?s = k" "thread_has ?s tid 0"
    using slot by (simp_all add: with_new_env_def init_state_def thread_has_def)
  have t: "tsk_id ?t = 0" "status ?t = COROUTINE_RUNNING" "thread_env ?t = Some 0" by (simp_all add: zero_task_def)
  have ok: "state_ok ?s"
    using slot by (intro state_ok_new_env [OF state_ok_init]) (auto simp: init_state_def dest: tid_slot_bound)
  have "tq_family (queues (init_state k0)) (\<lambda>_. [])" by (simp add: tq_family_def init_state_def)
  from with_new_env_family [OF state_ok_init this] have "tq_family (queues ?s) (\<lambda>_. [])" by (simp cong: if_cong)
  moreover have "main_ok ?s 0 ?env [1 \<mapsto> KUser EventLoop]" using f t by (auto simp: main_ok_def)
  moreover have "members_ok l watch opened 0 (\<lambda>_. []) ?s [1 \<mapsto> KUser EventLoop]"
    using f(1,3) t k by (auto simp: members_ok_def split: if_splits)
  ultimately have "server_ok l watch opened tid 0 ?env (\<lambda>_. []) ?s [1 \<mapsto> KUser EventLoop]"
    using f by (auto simp: server_ok_def split: if_splits)
  moreover have "is_current ?s 0 ?env 1 ?t" using f by (simp add: is_current_def)
  moreover have "in_order ?s ?t" using f(1) t by (auto simp: in_order_def split: if_splits)
  ultimately show ?thesis using ok by (simp add: serving_def)
qed

lemma first_turn:
  assumes laws: "epoll_laws K watch opened" and mem: "has_memory K"
    and tid: "0 \<le> tid" and l: "0 < l" "l < int MAX_FD"
    and k0: "watch k0 = (\<lambda>_. 0)" "0 \<in> opened k0" "l \<in> opened k0"
  shows "goes_on l watch opened tid ok
    (turn K (demo03_code l) (\<lambda>_. demo03_main ret a) tid (init_state k0, \<lambda>_. None))"
proof -
  have slot: "tid_slot tid = Inr (nat tid mod MAX_THREAD_NUM)" by (rule tid_slot_nonneg [OF tid])
  obtain fd k where g: "co_get_thread_env K tid (init_state k0) =
      Inr (0, with_new_env (nat tid mod MAX_THREAD_NUM) fd k (init_state k0))" and k: "sees watch opened k0 k"
    using first_env [OF laws mem slot] by blast
  let ?s = "with_new_env (nat tid mod MAX_THREAD_NUM) fd k (init_state k0)"
  let ?env = "\<lparr>task_count = 1, current = Some 1, epfd = fd, task = [0 \<mapsto> 1]\<rparr>"
    and ?t = "zero_task\<lparr>thread_env := Some 0\<rparr>"
  have sg: "serving l watch opened tid 0 ?env (\<lambda>_. []) 1 ?t ?s [1 \<mapsto> KUser EventLoop]"
    using k k0 by (intro serving_first [OF slot]) (simp add: sees_def)
  have sv: "server_ok l watch opened tid 0 ?env (\<lambda>_. []) ?s [1 \<mapsto> KUser EventLoop]"
    using sg by (simp add: serving_def)
  note D = server_okD [OF sv]
  have f: "heap ?s = [1 \<mapsto> ?t]" "kst ?s = k" "brk ?s = 2" by (simp_all add: with_new_env_def init_state_def)
  have free: "free_slot ?env 0 \<noteq> NR_TASKS"
    using free_slot_spec [of 0 ?env] by (auto simp: NR_TASKS_def dest!: spec [of _ 1])
  have turn: "turn K (demo03_code l) (\<lambda>_. demo03_main ret a) tid (init_state k0, \<lambda>_. None) =
      call K (demo03_code l) tid 1 (demo03_main ret a) ?s (\<lambda>_. None)"
    using D(2) by (simp add: turn_def g get_env_def nonnull_def)
  show ?thesis
  proof (cases "ret < 0")
    case True
    then show ?thesis unfolding turn by (simp add: demo03_main_def)
  next
    case False
    obtain b k1 where b: "os_calloc K k = (b, k1)" by fastforce
    note law = epoll_lawsD(1) [OF laws b] has_memoryD [OF mem b]
    let ?s1 = "with_new_task (os_arch K) 0 ?env (free_slot ?env 0) 2 a k1 ?s"
      and ?kn = "KUser (my_accept_at l AtAccept)"
    have t0: "tsk_id ?t = 0" by (simp add: zero_task_def)
    have "\<exists>env'. serving l watch opened tid 0 env' (\<lambda>_. []) 1 ?t ?s1 ([1 \<mapsto> KUser EventLoop](brk ?s \<mapsto> ?kn))"
    proof (rule new_member [OF sg free])
      show "usable opened ?s l" using k k0 l by (simp add: usable_def f(2) sees_def)
      show "role l (brk ?s) ((2 :: voidp) = 1) ?kn (Ready True)" by (simp add: role.intros)
      show "sees watch opened (kst ?s) k1" using law by (simp add: f(2))
    qed (use t0 in \<open>auto simp: f(1) split: if_splits\<close>)
    moreover have "turn K (demo03_code l) (\<lambda>_. demo03_main ret a) tid (init_state k0, \<lambda>_. None) =
        Inr (?s1, [1 \<mapsto> KUser EventLoop](brk ?s \<mapsto> ?kn))"
      using False b law free unfolding turn by (simp add: demo03_main_def co_create_eq [OF D(1,2)] f(2) demo03_code_def)
    ultimately show ?thesis by (auto intro: fine_serving)
  qed
qed

section \<open>The whole program\<close>

lemma doomed_turn:
  assumes "doomed tid s C"
  shows "\<exists>n. turn K code mains tid (s, C) = Inl (Exit n)"
proof -
  obtain ep env c t where d: "thread_has s tid ep" "is_current s ep env c t"
    "C c = Some (KUser (Abort (Exit (- 1))))" using assms unfolding doomed_def by blast
  show ?thesis by (simp add: turn_known [where C = C, OF d])
qed

lemma fine_turn:
  assumes laws: "epoll_laws K watch opened" and mem: "has_memory K" and "fine l watch opened tid w"
  shows "goes_on l watch opened tid (\<not> strays K watch tid w) (turn K (demo03_code l) mains tid w)"
proof -
  obtain s C where w: "w = (s, C)" by fastforce
  consider "doomed tid s C" | ep env q c t where "serving l watch opened tid ep env q c t s C"
    using assms(3) w unfolding fine_def by auto
  then show ?thesis
  proof cases
    case 1
    then obtain n where "turn K (demo03_code l) mains tid w = Inl (Exit n)" unfolding w using doomed_turn by metis
    then show ?thesis by simp
  next
    case 2
    show ?thesis
    proof (cases "tsk_id t = 0")
      case True
      with main_turn [OF laws 2] show ?thesis by (simp add: w)
    next
      case False
      with member_turn [OF laws mem 2] show ?thesis by (simp add: w)
    qed
  qed
qed

text \<open>One thread of the server at work.\<close>

definition server_step ::
  "'k os \<Rightarrow> int \<Rightarrow> int \<Rightarrow> int \<Rightarrow> voidp \<Rightarrow> 'k co_state \<times> konts \<Rightarrow> 'k co_state \<times> konts \<Rightarrow> bool" where
  "server_step K l tid ret a w w' \<longleftrightarrow> turn K (demo03_code l) (\<lambda>_. demo03_main ret a) tid w = Inr w'"

text \<open>
  A turn in which the kernel has not led the thread astray. An execution of such turns says nothing
  about the answers of the kernel in the turn that follows it.
\<close>

definition orderly_step ::
  "'k os \<Rightarrow> ('k \<Rightarrow> int \<Rightarrow> 32 word) \<Rightarrow> int \<Rightarrow> int \<Rightarrow> int \<Rightarrow> voidp \<Rightarrow>
   'k co_state \<times> konts \<Rightarrow> 'k co_state \<times> konts \<Rightarrow> bool" where
  "orderly_step K watch l tid ret a w w' \<longleftrightarrow> \<not> strays K watch tid w \<and> server_step K l tid ret a w w'"

lemma server_goes_on:
  assumes laws: "epoll_laws K watch opened" and mem: "has_memory K"
    and "0 \<le> tid" and "0 < l" and "l < int MAX_FD"
    and "watch k0 = (\<lambda>_. 0)" and "0 \<in> opened k0" and "l \<in> opened k0"
    and "(orderly_step K watch l tid ret a)\<^sup>*\<^sup>* (init_state k0, \<lambda>_. None) w"
  shows "goes_on l watch opened tid (\<not> strays K watch tid w)
    (turn K (demo03_code l) (\<lambda>_. demo03_main ret a) tid w)"
  using assms(9)
proof (induction rule: rtranclp_induct)
  case base
  show ?case by (rule first_turn [OF assms(1-8)])
next
  case (step w w')
  then have "fine l watch opened tid w'" by (simp add: orderly_step_def server_step_def)
  then show ?case by (rule fine_turn [OF laws mem])
qed

lemma reached_fine:
  assumes "epoll_laws K watch opened" and "has_memory K" and "0 \<le> tid" and "0 < l" and "l < int MAX_FD"
    and "watch k0 = (\<lambda>_. 0)" and "0 \<in> opened k0" and "l \<in> opened k0"
    and "(orderly_step K watch l tid ret a)\<^sup>*\<^sup>* (init_state k0, \<lambda>_. None) w" and "w \<noteq> (init_state k0, \<lambda>_. None)"
  shows "fine l watch opened tid w"
proof -
  obtain w0 where "(orderly_step K watch l tid ret a)\<^sup>*\<^sup>* (init_state k0, \<lambda>_. None) w0"
    "orderly_step K watch l tid ret a w0 w"
    using assms(9,10) by (metis rtranclp.cases)
  with server_goes_on [OF assms(1-8)] show ?thesis by (fastforce simp: orderly_step_def server_step_def)
qed

lemma current_unique:
  assumes "thread_has s tid ep" and "is_current s ep env c t" and "thread_has s tid ep'"
    and "is_current s ep' env' c' t'"
  shows "ep' = ep \<and> c' = c \<and> t' = t"
  using assms thread_has_unique [OF assms(1,3)] by (auto simp: is_current_def)


section \<open>A concrete server\<close>

text \<open>
  A kernel on which every descriptor is ready at any time and every call that it can grant succeeds.
  The bits of its events are a parameter: those that the waiter needs, or any other.
\<close>

record all_ready =
  watched :: "int \<Rightarrow> 32 word"
  next_fd :: int

definition net_open :: "all_ready \<Rightarrow> int set" where
  "net_open k = {0..<next_fd k}"

definition net_kernel :: "(32 word \<Rightarrow> 32 word) \<Rightarrow> all_ready os" where
  "net_kernel bits =
     \<lparr>os_arch = X86_64,
      os_gettimeofday = (\<lambda>k. (Some \<lparr>tv_sec = 0, tv_usec = 0\<rparr>, k)),
      os_calloc = (\<lambda>k. (True, k)),
      os_epoll_create = (\<lambda>k. (3, k)),
      os_epoll_ctl = (\<lambda>_ _ fd evo k.
        (0, k\<lparr>watched := (watched k)(fd := (case evo of None \<Rightarrow> 0 | Some ev \<Rightarrow> ev_events ev))\<rparr>)),
      os_epoll_wait = (\<lambda>_ k.
        (Some (map (\<lambda>fd. \<lparr>ev_events = bits (watched k fd), ev_fd = fd\<rparr>)
           (take 1024 (filter (\<lambda>fd. watched k fd \<noteq> 0) [0..next_fd k - 1]))), k)),
      os_accept = (\<lambda>_ k. if next_fd k < int MAX_FD then (next_fd k, k\<lparr>next_fd := next_fd k + 1\<rparr>) else (-1, k)),
      os_read = (\<lambda>_ n k. (int n, k)),
      os_write = (\<lambda>_ n k. (int n, k))\<rparr>"

definition net0 :: all_ready where
  "net0 = \<lparr>watched = (\<lambda>_. 0), next_fd = 6\<rparr>"

lemma net_laws: "epoll_laws (net_kernel bits) watched net_open"
proof -
  have "distinct (take n (filter P [i..j]))" for n P and i j :: int by simp
  then show ?thesis
    unfolding epoll_laws_def
    by (intro conjI)
      (auto simp: net_kernel_def sees_def net_open_def comp_def split: if_splits dest!: in_set_takeD)
qed

lemma net_memory: "has_memory (net_kernel bits)"
  by (simp add: has_memory_def net_kernel_def)

lemma net_events: "os_epoll_wait (net_kernel bits) epf k = (Some evs, k') \<Longrightarrow> ev \<in> set evs \<Longrightarrow>
    ev_events ev = bits (watched k (ev_fd ev))"
  by (auto simp: net_kernel_def)

lemma net_accepts: "os_accept (net_kernel bits) d k = (r, k') \<Longrightarrow> r < int MAX_FD"
  by (auto simp: net_kernel_def MAX_FD_def split: if_splits)

abbreviation net_os :: "all_ready os" where
  "net_os \<equiv> net_kernel wanted"

lemma net_orderly: "\<not> strays net_os watched tid w"
proof
  assume "strays net_os watched tid w"
  then show False
    unfolding strays_def told_def accepts_def
  proof (elim disjE exE conjE)
    fix ev epf evs k
    assume e: "os_epoll_wait net_os epf (kst (fst w)) = (Some evs, k)" "ev \<in> set evs"
      and z: "ev_events ev AND wanted (watched (kst (fst w)) (ev_fd ev)) = 0"
    from z net_events [OF e] show False by (auto simp: wanted_def split: if_splits)
  qed (use net_accepts in fastforce)
qed

definition net1 :: "all_ready co_state" where
  "net1 = with_new_env 1 3 net0 (init_state net0)"

definition net2 :: "all_ready co_state" where
  "net2 = with_new_task X86_64 0 ex0_env 1 2 77 net0 net1"

definition net3 :: "all_ready co_state" where
  "net3 = net2\<lparr>envs := (envs net2)(0 \<mapsto> ex_server_env\<lparr>current := Some 2\<rparr>)\<rparr>"

abbreviation net_step where
  "net_step bits \<equiv> server_step (net_kernel bits) 5 1 0 77"

lemma net1_facts: "thread_has net1 1 0" "envs net1 0 = Some ex0_env" "kst net1 = net0" "brk net1 = 2"
  "heap net1 = [1 \<mapsto> ex0_main]"
  by (simp_all add: net1_def with_new_env_def init_state_def thread_has_def tid_slot_1 ex0_env_def ex0_main_def)

lemma net2_facts:
  "thread_has net2 1 0" "envs net2 0 = Some ex_server_env" "kst net2 = net0"
  "heap net2 = [1 \<mapsto> ex0_main, 2 \<mapsto> new_task X86_64 2 1 2 77 0]"
  by (simp_all add: net2_def with_new_task_simps net1_facts ex_server_env_def ex0_env_def)

lemma net2_current: "is_current net2 0 ex_server_env 1 ex0_main"
  by (simp add: is_current_def net2_facts) (simp add: ex_server_env_def)

lemma net_step1: "net_step bits (init_state net0, \<lambda>_. None) (net2, server_konts (KUser EventLoop))"
proof -
  have "co_get_thread_env (net_kernel bits) 1 (init_state net0) = Inr (0, net1)"
    by (simp add: co_get_thread_env_def init_state_def calloc_env_def calloc_task_def syscall_def nonnull_def
        mod_env_def mod_task_def get_env_def get_task_def put_elem_def init_queues_heads dom_def tid_slot_1 net_kernel_def)
      (simp add: net1_def init_state_def with_new_env_def zero_env_def zero_task_def)
  moreover have "co_create (net_kernel bits) 1 True 2 77 net1 = Inr (0, Some 1, net2)"
    using co_create_eq [OF net1_facts(1,2), of "net_kernel bits" True 2 77]
    unfolding ex0_slot net2_def by (simp add: net_kernel_def NR_TASKS_def net1_facts)
  ultimately show ?thesis
    by (simp add: server_step_def turn_def get_env_def nonnull_def net1_facts ex0_env_def demo03_main_def
        demo03_code_def fun_eq_iff)
qed

lemma net_step2: "net_step bits (net2, server_konts (KUser EventLoop)) (net2, server_konts (KLoop 0 3))"
  by (simp add: server_step_def turn_known [OF net2_facts(1) net2_current] co_eventloop_enter_def
      thread_has_get [OF net2_facts(1)] get_env_def net2_facts fun_eq_iff)
    (simp add: ex_server_env_def)

lemma net1_ok: "state_ok net1"
  unfolding net1_def
  by (rule state_ok_new_env [OF state_ok_init]) (simp_all add: init_state_def MAX_THREAD_NUM_def)

lemma net2_ok: "state_ok net2"
  using state_ok_new_task [OF net1_ok net1_facts(2)] by (simp add: net2_def ex0_env_def NR_TASKS_def)

lemma net2_queues: "tq_family (queues net2) (\<lambda>_. [])"
proof -
  have "tq_family (queues (init_state net0)) (\<lambda>_. [])" by (simp add: tq_family_def init_state_def)
  from with_new_env_family [OF state_ok_init this] have "tq_family (queues net1) (\<lambda>_. [])"
    unfolding net1_def by (simp cong: if_cong)
  moreover have "2 \<notin> dom (tq_elems (queues net1))" using state_ok_blocks(1) [OF net1_ok] by (simp add: net1_facts)
  ultimately show ?thesis by (simp add: net2_def with_new_task_simps net1_facts tq_family_put_elem)
qed

lemma net_schedule: "schedule (net_kernel bits) 1 net2 = Inr net3"
proof -
  have t: "tsk_id ex0_main = 0" "status ex0_main = COROUTINE_RUNNING" "thread_env ex0_main = Some 0"
    by (simp_all add: ex0_main_fields)
  have run: "running_at net2 0 0"
    using running_at_ok [OF net2_ok net2_facts(2), of 0] t by (simp add: net2_facts ex_server_env_def)
  obtain p tp where p: "schedule (net_kernel bits) 1 net2 = Inr (net2\<lparr>envs := (envs net2)(0 \<mapsto> ex_server_env\<lparr>current := Some p\<rparr>)\<rparr>)"
      "heap net2 p = Some tp"
    and least: "\<forall>q tq. heap net2 q = Some tq \<longrightarrow> status tq = COROUTINE_RUNNING \<longrightarrow> tsk_id tq \<noteq> 0 \<longrightarrow>
      tsk_id tp \<noteq> 0 \<and> tsk_id tp \<le> tsk_id tq"
    by (rule schedule_next [where K = "net_kernel bits", OF net2_ok net2_facts(1) net2_current _ run])
      (auto simp: net2_facts(4) t split: if_splits)
  have "tsk_id tp \<noteq> 0"
    using least [rule_format, of 2 "new_task X86_64 2 1 2 77 0"] by (simp add: net2_facts(4))
  then have "p = 2" using p(2) t by (auto simp: net2_facts(4) split: if_splits)
  with p(1) show ?thesis by (simp add: net3_def)
qed

lemma net_step3: "net_step bits (net2, server_konts (KLoop 0 3)) (net3, server_konts (KLoop 0 3))"
proof -
  have "os_epoll_wait (net_kernel bits) 3 (kst net2) = (Some [], net0)" by (simp add: net_kernel_def net2_facts net0_def)
  then have "co_eventloop_turn (net_kernel bits) 1 0 3 net2 = Inr net3"
    using net_schedule by (simp add: co_eventloop_turn_def syscall_def net2_facts(3) [symmetric])
  then show ?thesis
    by (simp add: server_step_def turn_known [OF net2_facts(1) net2_current] fun_eq_iff)
qed


text \<open>After its first turn the accepting coroutine waits.\<close>

abbreviation net_konts :: konts where
  "net_konts \<equiv> [1 \<mapsto> KLoop 0 3, 2 \<mapsto> KAccept (Some 2) 5 (\<lambda>r. my_accept_at 5 (AfterAccept r))]"

lemma blocked_revents: "revents (blocked_task n ev t) n AND ev = 0"
  by (simp add: blocked_task_def masked)

lemma net_steps3: "(net_step bits)\<^sup>*\<^sup>* (init_state net0, \<lambda>_. None) (net3, server_konts (KLoop 0 3))"
  using net_step1 net_step2 net_step3 by (meson rtranclp.rtrancl_refl rtranclp.rtrancl_into_rtrancl)

lemma net_waiting:
  obtains s t where "(net_step bits)\<^sup>*\<^sup>* (init_state net0, \<lambda>_. None) (s, net_konts)"
    and "heap s = [1 \<mapsto> ex0_main, 2 \<mapsto> t]" and "status t = COROUTINE_WAIT" and "revents t 5 AND EPOLLIN = 0"
    and "kst s = net0\<lparr>watched := (\<lambda>_. 0)(5 := EPOLLIN)\<rparr>" and "state_ok s" and "thread_has s 1 0"
    and "is_current s 0 (ex_server_env\<lparr>current := Some 2\<rparr>) 2 t"
    and "tq_family (queues s) ((\<lambda>_. [])((0, 5) := [2]))" and "ev_events (events t 5) = EPOLLIN"
proof -
  let ?nt = "new_task X86_64 2 1 2 77 0" and ?C = "server_konts (KLoop 0 3)"
    and ?env = "ex_server_env\<lparr>current := Some 2\<rparr>"
  have ok: "state_ok net3" using schedule_ok [OF net2_ok net2_facts(1) net2_current net_schedule] by simp
  have th: "thread_has net3 1 0" using net2_facts(1) by (simp add: net3_def thread_has_def)
  have h: "heap net3 = [1 \<mapsto> ex0_main, 2 \<mapsto> ?nt]" by (simp add: net3_def net2_facts(4))
  then have cur: "is_current net3 0 ?env 2 ?nt" by (simp add: is_current_def net3_def)
  have fd: "fd_index 5 = Inr 5" by (simp add: fd_index_def MAX_FD_def)
  have q: "tq_family (queues net3) (\<lambda>_. [])" using net2_queues by (simp add: net3_def)
  have kst: "kst net3 = net0" by (simp add: net3_def net2_facts(3))
  have "\<exists>t'. interest (net_kernel bits) (epfd ?env) 5 EPOLLIN (blocked_task 5 EPOLLIN ?nt) (kst net3) =
      Inr (0, t', net0\<lparr>watched := (\<lambda>_. 0)(5 := EPOLLIN)\<rparr>)"
    by (simp add: interest_def blocked_task_def new_task_events MAX_FD_def net_kernel_def kst net0_def)
  then obtain t' where i: "interest (net_kernel bits) (epfd ?env) 5 EPOLLIN (blocked_task 5 EPOLLIN ?nt) (kst net3) =
      Inr (0, t', net0\<lparr>watched := (\<lambda>_. 0)(5 := EPOLLIN)\<rparr>)" by (elim exE)
  obtain s where s: "add_queue (net_kernel bits) 1 5 EPOLLIN net3 = Inr (0, s)" "heap s = (heap net3)(2 \<mapsto> t')" "same_tasks net3 s"
    and q': "tq_family (queues s) ((\<lambda>_. [])((0, 5) := [2]))"
    by (rule add_queue_blocks [OF ok th cur fd q _ i]) simp_all
  have k: "kst s = net0\<lparr>watched := (\<lambda>_. 0)(5 := EPOLLIN)\<rparr>"
    by (rule add_queue_same_tasks [OF ok th cur s(1)]) (use i fd in auto)
  have "net_step bits (net3, ?C) (s, net_konts)"
  proof -
    have "turn (net_kernel bits) (demo03_code 5) (\<lambda>_. demo03_main 0 77) 1 (net3, ?C) =
        resume (net_kernel bits) (demo03_code 5) 1 2 (KUser (my_accept_at 5 AtAccept)) net3 ?C"
      by (rule turn_known [OF th cur]) simp
    then show ?thesis by (simp add: server_step_def my_accept_at_simps(1) enter_eq [OF th cur fd] s(1))
  qed
  then have "(net_step bits)\<^sup>*\<^sup>* (init_state net0, \<lambda>_. None) (s, net_konts)"
    using rtranclp.rtrancl_into_rtrancl [OF net_steps3] by blast
  moreover have "status t' = COROUTINE_WAIT" using interest_Inr [OF i] by (simp add: blocked_task_def)
  moreover have "revents t' = revents (blocked_task 5 EPOLLIN ?nt)" using interest_Inr [OF i] by blast
  then have "revents t' 5 AND EPOLLIN = 0" using blocked_revents by metis
  moreover have "state_ok s" using s(3) ok by (rule state_ok_same_tasks)
  moreover have "thread_has s 1 0" using th same_tasks_thread [OF s(3)] by simp
  moreover have "envs s = envs net3" using s(3) unfolding same_tasks_def by blast
  then have "is_current s 0 ?env 2 t'" using cur by (simp add: is_current_def s(2))
  moreover have "ev_events (events t' 5) = EPOLLIN"
    using interest_events [OF i] by (simp add: blocked_task_def new_task_events)
  ultimately show thesis using that [of s t'] s(2) h k q' by (simp add: fun_upd_twist)
qed

lemma net_run:
  assumes "(net_step wanted)\<^sup>*\<^sup>* v w"
  shows "(orderly_step net_os watched 5 1 0 77)\<^sup>*\<^sup>* v w"
  using assms by (rule rtranclp_mono [THEN predicate2D, rotated]) (simp add: orderly_step_def net_orderly predicate2I)

lemma net0_opened: "watched net0 = (\<lambda>_. 0)" "0 \<in> net_open net0" "5 \<in> net_open net0"
  by (simp_all add: net0_def net_open_def)

lemma net_waiter: "\<exists>w t. (orderly_step net_os watched 5 1 0 77)\<^sup>*\<^sup>* (init_state net0, \<lambda>_. None) w \<and>
  heap (fst w) 2 = Some t \<and> status t = COROUTINE_WAIT"
proof -
  obtain s t where w: "(net_step wanted)\<^sup>*\<^sup>* (init_state net0, \<lambda>_. None) (s, net_konts)"
    "heap s = [1 \<mapsto> ex0_main, 2 \<mapsto> t]" "status t = COROUTINE_WAIT" by (rule net_waiting)
  from net_run [OF w(1)] w(2,3) show ?thesis by (intro exI [of _ "(s, net_konts)"] exI [of _ t]) simp
qed

text \<open>Then the event loop runs, and the kernel reports its descriptor.\<close>

lemma net_reports:
  assumes "kst s = net0\<lparr>watched := (\<lambda>_. 0)(5 := EPOLLIN)\<rparr>"
  shows "os_epoll_wait (net_kernel bits) epf (kst s) = (Some [\<lparr>ev_events = bits EPOLLIN, ev_fd = 5\<rparr>], kst s)"
  by (simp add: assms net_kernel_def net0_def upto_rec1)

lemma net_loop:
  obtains s env t where "(net_step bits)\<^sup>*\<^sup>* (init_state net0, \<lambda>_. None) (s, net_konts)" and "thread_has s 1 0"
    and "is_current s 0 env 1 ex0_main" and "state_ok s" and "heap s = [1 \<mapsto> ex0_main, 2 \<mapsto> t]"
    and "status t = COROUTINE_WAIT" and "thread_env t = Some 0" and "ev_events (events t 5) = EPOLLIN"
    and "tq_family (queues s) ((\<lambda>_. [])((0, 5) := [2]))"
    and "kst s = net0\<lparr>watched := (\<lambda>_. 0)(5 := EPOLLIN)\<rparr>"
proof -
  let ?env = "ex_server_env\<lparr>current := Some 2\<rparr>"
  obtain s t where s: "(net_step bits)\<^sup>*\<^sup>* (init_state net0, \<lambda>_. None) (s, net_konts)" "heap s = [1 \<mapsto> ex0_main, 2 \<mapsto> t]"
    "status t = COROUTINE_WAIT" "revents t 5 AND EPOLLIN = 0" "kst s = net0\<lparr>watched := (\<lambda>_. 0)(5 := EPOLLIN)\<rparr>"
    "state_ok s" "thread_has s 1 0" "is_current s 0 ?env 2 t"
    "tq_family (queues s) ((\<lambda>_. [])((0, 5) := [2]))" "ev_events (events t 5) = EPOLLIN" by (rule net_waiting)
  note c = is_currentD [OF s(6,8)]
  have m: "tsk_id ex0_main = 0" "status ex0_main = COROUTINE_RUNNING" "thread_env ex0_main = Some 0"
    by (simp_all add: ex0_main_fields)
  have run: "running_at s 0 0"
    using running_at_ok [OF s(6) c(1), of 0] m by (simp add: s(2) ex_server_env_def)
  obtain p tp where p: "schedule (net_kernel bits) 1 s = Inr (s\<lparr>envs := (envs s)(0 \<mapsto> ?env\<lparr>current := Some p\<rparr>)\<rparr>)"
      "heap s p = Some tp" "status tp = COROUTINE_RUNNING"
    by (rule schedule_next [where K = "net_kernel bits", OF s(6-8) _ run]) (use m c(6) s(3) in \<open>auto simp: s(2) split: if_splits\<close>)
  have "p = 1" using p(2,3) s(3) by (auto simp: s(2) split: if_splits)
  let ?s = "s\<lparr>envs := (envs s)(0 \<mapsto> ?env\<lparr>current := Some 1\<rparr>)\<rparr>"
  have fd: "fd_index 5 = Inr 5" by (simp add: fd_index_def MAX_FD_def)
  have "s\<lparr>heap := (heap s)(2 \<mapsto> t\<lparr>status := COROUTINE_WAIT\<rparr>)\<rparr> = s" using s(3) c(3) by (simp add: map_upd_triv)
  then have "await (net_kernel bits) 1 (Some 2) 5 EPOLLIN s = Inr (False, ?s)"
    using p(1) s(4) \<open>p = 1\<close> by (simp add: await_eq [OF c(3) fd])
  moreover have "turn (net_kernel bits) (demo03_code 5) (\<lambda>_. demo03_main 0 77) 1 (s, net_konts) =
      resume (net_kernel bits) (demo03_code 5) 1 2 (KAccept (Some 2) 5 (\<lambda>r. my_accept_at 5 (AfterAccept r))) s net_konts"
    by (rule turn_known [OF s(7,8)]) simp
  ultimately have "net_step bits (s, net_konts) (?s, net_konts)"
    by (simp add: server_step_def co_accept_turn_def)
  with s(1) have "(net_step bits)\<^sup>*\<^sup>* (init_state net0, \<lambda>_. None) (?s, net_konts)"
    by (rule rtranclp.rtrancl_into_rtrancl)
  moreover have "thread_has ?s 1 0" using s(7) by (simp add: thread_has_def)
  moreover have "is_current ?s 0 (?env\<lparr>current := Some 1\<rparr>) 1 ex0_main" by (simp add: is_current_def s(2))
  moreover have "state_ok ?s" using schedule_ok [OF s(6-8) p(1)] \<open>p = 1\<close> by simp
  ultimately show thesis using s(2,3,5,9,10) c(6) by (intro that [of ?s]) simp_all
qed

section \<open>A hang-up\<close>

text \<open>
  The same run with a kernel that reports \<open>EPOLLHUP\<close> and nothing else, as it does unasked when a
  connection is reset: the first event takes the coroutine out of its queue without waking it, the
  second one finds the queue empty. So the condition on the past events cannot be left out.
\<close>

abbreviation EPOLLHUP :: "32 word" where
  "EPOLLHUP \<equiv> 16"

abbreviation hup_os :: "all_ready os" where
  "hup_os \<equiv> net_kernel (\<lambda>_. EPOLLHUP)"

lemma loop_one_event:
  assumes "os_epoll_wait K epf (kst s) = (Some [ev], kst s)"
  shows "co_eventloop_turn K tid ep epf s = bnd (handle_event ep ev s) (schedule K tid)"
  using assms by (simp add: co_eventloop_turn_def syscall_def bnd_assoc)

lemma loop_turn_known:
  assumes "thread_has s tid ep" and "is_current s ep env c t" and "C c = Some (KLoop ep epf)"
  shows "turn K code mains tid (s, C) =
    bnd (co_eventloop_turn K tid ep epf s) (\<lambda>s. Inr (s, C(c \<mapsto> KLoop ep epf)))"
  using turn_known [where C = C, OF assms] by simp

lemma hangup_crashes:
  "\<exists>w. (net_step (\<lambda>_. EPOLLHUP))\<^sup>*\<^sup>* (init_state net0, \<lambda>_. None) w \<and>
    turn hup_os (demo03_code 5) (\<lambda>_. demo03_main 0 77) 1 w = Inl NullDeref"
proof -
  let ?ev = "\<lparr>ev_events = EPOLLHUP, ev_fd = 5\<rparr>" and ?turn = "turn hup_os (demo03_code 5) (\<lambda>_. demo03_main 0 77) 1"
  obtain s env t where w: "(net_step (\<lambda>_. EPOLLHUP))\<^sup>*\<^sup>* (init_state net0, \<lambda>_. None) (s, net_konts)"
      and th: "thread_has s 1 0" and cur: "is_current s 0 env 1 ex0_main" and ok: "state_ok s"
      and h: "heap s = [1 \<mapsto> ex0_main, 2 \<mapsto> t]" and t: "status t = COROUTINE_WAIT" "ev_events (events t 5) = EPOLLIN" and te: "thread_env t = Some 0"
      and q: "tq_family (queues s) ((\<lambda>_. [])((0, 5) := [2]))"
      and k: "kst s = net0\<lparr>watched := (\<lambda>_. 0)(5 := EPOLLIN)\<rparr>" by (rule net_loop)
  note c = is_currentD [OF ok cur] and m0 = ex0_main_fields
  let ?q = "(\<lambda>_. [])((0 :: envp, 5 :: int) := [2 :: taskp])"
  have clear: "?q((0, ev_fd ?ev) := []) = (\<lambda>_. [])" by auto
  have first: "?q (0, ev_fd ?ev) = 2 # []" by simp
  obtain t' m where e: "heap s 2 = Some t'" "handle_event 0 ?ev s = Inr (s\<lparr>queues := m, heap := (heap s)(2 \<mapsto> wake_by ?ev t')\<rparr>)"
      "tq_family m (\<lambda>_. [])" "same_tasks s (s\<lparr>queues := m, heap := (heap s)(2 \<mapsto> wake_by ?ev t')\<rparr>)"
    using handle_event_first [OF ok c(1) q _ _ first] unfolding clear by (auto simp: MAX_FD_def)
  have "wake_by ?ev t' = t" using e(1) h t(2) by (simp add: wake_by_def)
  then have same: "s\<lparr>queues := m, heap := (heap s)(2 \<mapsto> wake_by ?ev t')\<rparr> = s\<lparr>queues := m\<rparr>"
    using h by (simp add: map_upd_triv fun_upd_twist)
  let ?s = "s\<lparr>queues := m\<rparr>"
  have ok1: "state_ok ?s" using e(4) ok unfolding same by (rule state_ok_same_tasks)
  have th1: "thread_has ?s 1 0" and cur1: "is_current ?s 0 env 1 ex0_main"
    using th cur by (simp_all add: thread_has_def is_current_def)
  have run: "running_at ?s 0 0" using running_at_ok [OF ok1, of 0 env 0] c m0 by simp
  obtain p tp where p: "schedule hup_os 1 ?s = Inr (?s\<lparr>envs := (envs ?s)(0 \<mapsto> env\<lparr>current := Some p\<rparr>)\<rparr>)"
      "heap ?s p = Some tp" "status tp = COROUTINE_RUNNING"
    by (rule schedule_next [where K = hup_os, OF ok1 th1 cur1 _ run])
      (use m0 t te c(6) in \<open>auto simp: h split: if_splits\<close>)
  have "p = 1" using p(2,3) t(1) by (auto simp: h split: if_splits)
  let ?s2 = "?s\<lparr>envs := (envs ?s)(0 \<mapsto> env\<lparr>current := Some 1\<rparr>)\<rparr>"
  have "co_eventloop_turn hup_os 1 0 3 s = Inr ?s2"
    using p(1) \<open>p = 1\<close> e(2) by (simp add: loop_one_event [OF net_reports [OF k]] same)
  then have "net_step (\<lambda>_. EPOLLHUP) (s, net_konts) (?s2, net_konts)"
    using loop_turn_known [OF th cur, where C = net_konts and epf = 3] by (simp add: server_step_def fun_eq_iff)
  moreover have th2: "thread_has ?s2 1 0" and cur2: "is_current ?s2 0 (env\<lparr>current := Some 1\<rparr>) 1 ex0_main"
    using th by (simp_all add: thread_has_def is_current_def h)
  have "(0, 5) \<in> dom (tq_heads (queues ?s2))"
    using state_ok_blocks(2) [OF ok1] c(1) by (auto simp: MAX_FD_def)
  then have "handle_event 0 ?ev ?s2 = Inl NullDeref" by (intro handle_event_empty [where q = "\<lambda>_. []"]) (use e(3) in simp_all)
  then have "?turn (?s2, net_konts) = Inl NullDeref"
    using net_reports [of ?s2 "\<lambda>_. EPOLLHUP"] k loop_turn_known [OF th2 cur2, where C = net_konts and epf = 3]
    by (simp add: loop_one_event)
  ultimately show ?thesis using w by (meson rtranclp.rtrancl_into_rtrancl)
qed

section \<open>Properties\<close>

text \<open>
  C14: The echo server does not crash unless the kernel has led it astray before: when it starts
  with descriptor 0 and a listening socket below MAX_FD open and nothing registered, epoll
  behaves as documented and memory can be allocated, then after any execution in which every
  event carried the bit that the coroutine on its descriptor waited for and accept returned no
  descriptor of MAX_FD or more, the next turn accesses no invalid memory, dereferences no NULL
  pointer, runs past no array and does not hang, whatever the kernel answers in it; the server
  ends, if it does, by a call of exit.
\<close>

theorem demo03_never_crashes:
  assumes "epoll_laws K watch opened" and "has_memory K" and "0 \<le> tid" and "0 < l" and "l < int MAX_FD"
    and "watch k0 = (\<lambda>_. 0)" and "0 \<in> opened k0" and "l \<in> opened k0"
    and "(orderly_step K watch l tid ret a)\<^sup>*\<^sup>* (init_state k0, \<lambda>_. None) w"
  shows "case turn K (demo03_code l) (\<lambda>_. demo03_main ret a) tid w of
      Inl f \<Rightarrow> \<exists>n. f = Exit n | Inr w' \<Rightarrow> True"
  using server_goes_on [OF assms] by (auto simp: goes_on_def split: sum.splits)

theorem demo03_never_crashes_witness:
  "\<exists>w t. (orderly_step net_os watched 5 1 0 77)\<^sup>*\<^sup>* (init_state net0, \<lambda>_. None) w \<and>
    heap (fst w) 2 = Some t \<and> status t = COROUTINE_WAIT \<and>
    (case turn net_os (demo03_code 5) (\<lambda>_. demo03_main 0 77) 1 w of
      Inl f \<Rightarrow> \<exists>n. f = Exit n | Inr w' \<Rightarrow> True)"
proof -
  obtain w t where w: "(orderly_step net_os watched 5 1 0 77)\<^sup>*\<^sup>* (init_state net0, \<lambda>_. None) w"
      "heap (fst w) 2 = Some t" "status t = COROUTINE_WAIT" using net_waiter by blast
  from demo03_never_crashes [OF net_laws net_memory _ _ _ net0_opened w(1)]
  have "case turn net_os (demo03_code 5) (\<lambda>_. demo03_main 0 77) 1 w of
      Inl f \<Rightarrow> \<exists>n. f = Exit n | Inr w' \<Rightarrow> True" by (simp add: MAX_FD_def)
  with w show ?thesis by (intro exI [of _ w] exI [of _ t] conjI)
qed



text \<open>
  C16: After an execution of the echo server as in C14, and whatever events epoll_wait then
  reports, the event loop goes on, and each event takes the one coroutine that waits on its
  descriptor out of all wait queues. If the event carries the bit that this coroutine waits for,
  the coroutine is runnable, has received the bits of the event and leaves its waiting loop; if
  not, the coroutine still lacks the bit and is lost, since it is in no queue any more.
\<close>

theorem demo03_events_served:
  assumes "epoll_laws K watch opened" and "has_memory K" and "0 \<le> tid" and "0 < l" and "l < int MAX_FD"
    and "watch k0 = (\<lambda>_. 0)" and "0 \<in> opened k0" and "l \<in> opened k0"
    and "(orderly_step K watch l tid ret a)\<^sup>*\<^sup>* (init_state k0, \<lambda>_. None) (s, C)"
    and "thread_has s tid ep" and "is_current s ep env c t" and "C c = Some (KLoop ep epf)"
    and "os_epoll_wait K epf (kst s) = (Some evs, k)" and "ev \<in> set evs"
  shows "\<exists>q q' s' p tp tp'. tq_family (queues s) q \<and> q (ep, ev_fd ev) = [p] \<and>
    heap s p = Some tp \<and> status tp = COROUTINE_WAIT \<and>
    turn K (demo03_code l) (\<lambda>_. demo03_main ret a) tid (s, C) = Inr (s', C) \<and>
    heap s' p = Some tp' \<and> tq_family (queues s') q' \<and> (\<forall>h. p \<notin> set (q' h)) \<and>
    (if ev_events ev AND wanted (watch (kst s) (ev_fd ev)) \<noteq> 0
     then status tp' = COROUTINE_RUNNING \<and> revents tp' (nat (ev_fd ev)) = ev_events ev \<and>
       await K tid (Some p) (ev_fd ev) (wanted (watch (kst s) (ev_fd ev))) s' = Inr (True, s')
     else revents tp' (nat (ev_fd ev)) AND wanted (watch (kst s) (ev_fd ev)) = 0)"
proof -
  have fine: "fine l watch opened tid (s, C)"
    using reached_fine [OF assms(1-9)] assms(12) by auto
  have "C c \<noteq> Some (KUser (Abort (Exit (- 1))))" using assms(12) by simp
  then have "\<not> doomed tid s C"
    using current_unique [OF assms(10,11)] by (auto simp: doomed_def)
  with fine obtain ep' env' q c' t' where sg: "serving l watch opened tid ep' env' q c' t' s C"
    unfolding fine_def by auto
  then have "thread_has s tid ep'" "is_current s ep' env' c' t'" by (simp_all add: serving_def server_ok_def)
  with current_unique [OF assms(10,11)] have eq: "ep' = ep" "c' = c" "t' = t" by blast+
  have z: "tsk_id t = 0"
  proof (rule ccontr)
    assume nz: "tsk_id t \<noteq> 0"
    obtain k g where "C c = Some k" "role (desc l t) c (co_fn t = 1) k g"
      using member_cases [OF sg] nz unfolding eq by metis
    with assms(12) show False by (auto elim: role.cases)
  qed
  from event_taken [OF assms(1) sg [unfolded eq] z assms(12-14)] show ?thesis .
qed

theorem demo03_events_served_witness:
  "\<exists>s s' C tp'. (orderly_step net_os watched 5 1 0 77)\<^sup>*\<^sup>* (init_state net0, \<lambda>_. None) (s, C) \<and>
    turn net_os (demo03_code 5) (\<lambda>_. demo03_main 0 77) 1 (s, C) = Inr (s', C) \<and>
    heap s' 2 = Some tp' \<and> status tp' = COROUTINE_RUNNING \<and> revents tp' 5 = EPOLLIN \<and>
    await net_os 1 (Some 2) 5 EPOLLIN s' = Inr (True, s')"
proof -
  obtain s env t where w: "(net_step wanted)\<^sup>*\<^sup>* (init_state net0, \<lambda>_. None) (s, net_konts)"
      "thread_has s 1 0" "is_current s 0 env 1 ex0_main" and h: "heap s = [1 \<mapsto> ex0_main, 2 \<mapsto> t]"
    and k: "kst s = net0\<lparr>watched := (\<lambda>_. 0)(5 := EPOLLIN)\<rparr>"
    by (rule net_loop)
  have e: "os_epoll_wait net_os 3 (kst s) = (Some [\<lparr>ev_events = EPOLLIN, ev_fd = 5\<rparr>], kst s)"
    using net_reports [OF k, of wanted] by (simp add: wanted_def)
  let ?ev = "\<lparr>ev_events = EPOLLIN, ev_fd = 5\<rparr>"
  have "\<exists>q q' s' p tp tp'. tq_family (queues s) q \<and> q (0, ev_fd ?ev) = [p] \<and>
    heap s p = Some tp \<and> status tp = COROUTINE_WAIT \<and>
    turn net_os (demo03_code 5) (\<lambda>_. demo03_main 0 77) 1 (s, net_konts) = Inr (s', net_konts) \<and>
    heap s' p = Some tp' \<and> tq_family (queues s') q' \<and> (\<forall>h. p \<notin> set (q' h)) \<and>
    (if ev_events ?ev AND wanted (watched (kst s) (ev_fd ?ev)) \<noteq> 0
     then status tp' = COROUTINE_RUNNING \<and> revents tp' (nat (ev_fd ?ev)) = ev_events ?ev \<and>
       await net_os 1 (Some p) (ev_fd ?ev) (wanted (watched (kst s) (ev_fd ?ev))) s' = Inr (True, s')
     else revents tp' (nat (ev_fd ?ev)) AND wanted (watched (kst s) (ev_fd ?ev)) = 0)"
    by (rule demo03_events_served [OF net_laws net_memory _ _ _ net0_opened net_run [OF w(1)] w(2,3) _ e])
      (simp_all add: MAX_FD_def)
  then obtain s' p tp tp' where p: "heap s p = Some tp" "status tp = COROUTINE_WAIT"
    and r: "turn net_os (demo03_code 5) (\<lambda>_. demo03_main 0 77) 1 (s, net_konts) = Inr (s', net_konts)"
    "heap s' p = Some tp'" "status tp' = COROUTINE_RUNNING" "revents tp' 5 = EPOLLIN"
    "await net_os 1 (Some p) 5 EPOLLIN s' = Inr (True, s')"
    by (auto simp: k wanted_def)
  have "p = 2" using p by (auto simp: h ex0_main_fields split: if_splits)
  with r net_run [OF w(1)] show ?thesis by blast
qed

end
