(* ===== verification/Structured.thy ===== *)
theory Structured
  imports Examples
begin

text \<open>
  A discipline for programs that create coroutines and join them, as a typing judgement, and its
  soundness: disciplined programs never make the library fault. The judgement tracks the ids a
  coroutine may join and the slots of the coroutine table it may still fill.
\<close>

section \<open>The discipline\<close>

text \<open>
  \<open>structured B S m p\<close>: the program \<open>p\<close>, which holds the ids \<open>S\<close> of unjoined coroutines and \<open>m\<close>
  slots of the table, sleeps for times that fit, creates only when it holds a slot for the new
  coroutine and the \<open>B fn\<close> slots that one needs, joins only ids it holds, each once, and returns
  with none left. A join gives its slot back.
\<close>

coinductive structured :: "(voidp \<Rightarrow> nat) \<Rightarrow> nat set \<Rightarrow> nat \<Rightarrow> prog \<Rightarrow> bool" for B where
  Sleep: "fits_int (1000 * n) \<Longrightarrow> structured B S m p \<Longrightarrow> structured B S m (Sleep n p)"
| Create: "(\<And>i. 0 < i \<Longrightarrow> i \<notin> S \<Longrightarrow> structured B (insert i S) m (f 0 (Some i))) \<Longrightarrow>
    structured B S (Suc (B fn + m)) (Create fn a f)"
| Join: "0 \<le> cid \<Longrightarrow> nat cid \<in> S \<Longrightarrow> structured B (S - {nat cid}) (Suc m) p \<Longrightarrow>
    structured B S m (Join cid p)"
| Return: "structured B {} m Return"

inductive_simps structured_simps:
  "structured B S m (Sleep n p)" "structured B S m (Create fn a f)" "structured B S m (Join cid p)"
  "structured B S m (Accept fd g)" "structured B S m (Read fd len g)" "structured B S m (Write fd len h)"
  "structured B S m EventLoop" "structured B S m (Abort n)" "structured B S m Return"

fun kont_structured :: "(voidp \<Rightarrow> nat) \<Rightarrow> nat set \<Rightarrow> nat \<Rightarrow> kont \<Rightarrow> bool" where
  "kont_structured B S m (KUser p) = structured B S m p"
| "kont_structured B S m (KJoin ep cid p) = structured B S m (Join cid p)"
| "kont_structured B S m KDead = (S = {})"
| "kont_structured B S m _ = False"

text \<open>Every function and every main program obeys it; a main program may fill the whole table.\<close>

definition disciplined ::
  "(voidp \<Rightarrow> nat) \<Rightarrow> (voidp \<Rightarrow> voidp \<Rightarrow> prog) \<Rightarrow> (int \<Rightarrow> prog) \<Rightarrow> bool" where
  "disciplined B code mains \<longleftrightarrow>
     (\<forall>fn a. structured B {} (B fn) (code fn a)) \<and> (\<forall>tid. structured B {} (NR_TASKS - 1) (mains tid))"

section \<open>Who owns whom\<close>

text \<open>What does not change while coroutines are only switched.\<close>

definition shape :: "'k co_state \<Rightarrow> taskp \<Rightarrow> (envp option \<times> nat) option" where
  "shape s p = map_option (\<lambda>t. (thread_env t, tsk_id t)) (heap s p)"

definition table :: "'k co_state \<Rightarrow> envp \<Rightarrow> (nat \<rightharpoonup> taskp) option" where
  "table s ep = map_option task (envs s ep)"

text \<open>
  The ids a coroutine holds are those of younger coroutines of its thread, and every coroutine but
  a main one is held by exactly one other.
\<close>

definition owned :: "(taskp \<Rightarrow> nat set) \<Rightarrow> (taskp \<Rightarrow> (envp option \<times> nat) option) \<Rightarrow> bool" where
  "owned own sh \<longleftrightarrow>
     (\<forall>p e j i. sh p = Some (e, j) \<longrightarrow> i \<in> own p \<longrightarrow> 0 < i \<and> (\<exists>q > p. sh q = Some (e, i))) \<and>
     (\<forall>q e i. sh q = Some (e, i) \<longrightarrow> 0 < i \<longrightarrow> (\<exists>p j. sh p = Some (e, j) \<and> i \<in> own p)) \<and>
     (\<forall>p p' e j j' i. sh p = Some (e, j) \<longrightarrow> sh p' = Some (e, j') \<longrightarrow> i \<in> own p \<longrightarrow> i \<in> own p' \<longrightarrow> p = p')"

text \<open>A table has its main coroutine, and room for the slots its coroutines hold.\<close>

definition need :: "(taskp \<Rightarrow> nat) \<Rightarrow> (nat \<rightharpoonup> taskp) \<Rightarrow> nat" where
  "need spare T = (\<Sum>i \<in> dom T. Suc (spare (the (T i))))"

definition roomy :: "(taskp \<Rightarrow> nat) \<Rightarrow> (envp \<Rightarrow> (nat \<rightharpoonup> taskp) option) \<Rightarrow> bool" where
  "roomy spare tb \<longleftrightarrow> (\<forall>ep T. tb ep = Some T \<longrightarrow> T 0 \<noteq> None \<and> need spare T \<le> NR_TASKS)"

definition tidy :: "'k co_state \<Rightarrow> konts \<Rightarrow> bool" where
  "tidy s C \<longleftrightarrow>
     (\<forall>p t. heap s p = Some t \<longrightarrow> status t \<noteq> COROUTINE_WAIT \<and> fds_idx t = 0) \<and>
     (\<forall>p. C p = Some KDead \<longrightarrow> (\<exists>t. heap s p = Some t \<and> status t = COROUTINE_EXIT))"

definition held ::
  "(voidp \<Rightarrow> nat) \<Rightarrow> (taskp \<Rightarrow> nat set) \<Rightarrow> (taskp \<Rightarrow> nat) \<Rightarrow> 'k co_state \<times> konts \<Rightarrow> bool" where
  "held B own spare w \<longleftrightarrow>
     (\<forall>p k. snd w p = Some k \<longrightarrow> kont_structured B (own p) (spare p) k) \<and>
     tidy (fst w) (snd w) \<and> owned own (shape (fst w)) \<and> roomy spare (table (fst w))"

lemma heldD:
  assumes "held B own spare (s, C)"
  shows "C p = Some k \<Longrightarrow> kont_structured B (own p) (spare p) k"
    "heap s p = Some t \<Longrightarrow> status t \<noteq> COROUTINE_WAIT" "heap s p = Some t \<Longrightarrow> fds_idx t = 0"
    "C p = Some KDead \<Longrightarrow> \<exists>t. heap s p = Some t \<and> status t = COROUTINE_EXIT"
    "owned own (shape s)" "roomy spare (table s)"
  using assms unfolding held_def tidy_def by auto

lemma ownedD:
  assumes "owned own sh"
  shows "sh p = Some (e, j) \<Longrightarrow> i \<in> own p \<Longrightarrow> 0 < i \<and> (\<exists>q > p. sh q = Some (e, i))"
    "sh q = Some (e, i) \<Longrightarrow> 0 < i \<Longrightarrow> \<exists>p j. sh p = Some (e, j) \<and> i \<in> own p"
    "sh p = Some (e, j) \<Longrightarrow> sh p' = Some (e, j') \<Longrightarrow> i \<in> own p \<Longrightarrow> i \<in> own p' \<Longrightarrow> p = p'"
  using assms unfolding owned_def by blast+

lemma roomyD:
  assumes "roomy spare tb" and "tb ep = Some T"
  shows "T 0 \<noteq> None" "need spare T \<le> NR_TASKS"
  using assms unfolding roomy_def by blast+

section \<open>Switching\<close>

definition quiet :: "'k co_state \<Rightarrow> 'k co_state \<Rightarrow> bool" where
  "quiet s s' \<longleftrightarrow>
     shape s' = shape s \<and> table s' = table s \<and>
     (\<forall>p t t'. heap s p = Some t \<longrightarrow> heap s' p = Some t' \<longrightarrow>
        (status t = COROUTINE_EXIT \<longrightarrow> status t' = COROUTINE_EXIT) \<and>
        (status t' = COROUTINE_WAIT \<longrightarrow> status t = COROUTINE_WAIT) \<and>
        (fds_idx t = 0 \<longrightarrow> fds_idx t' = 0))"

lemma shape_Some: "shape s p = Some (e, i) \<longleftrightarrow> (\<exists>t. heap s p = Some t \<and> thread_env t = e \<and> tsk_id t = i)"
  by (auto simp: shape_def)

lemma shape_heap: "shape s' = shape s \<Longrightarrow> heap s' p = Some t' \<Longrightarrow>
    \<exists>t. heap s p = Some t \<and> thread_env t = thread_env t' \<and> tsk_id t = tsk_id t'"
  using shape_Some [of s p "thread_env t'" "tsk_id t'"] shape_Some [of s' p "thread_env t'" "tsk_id t'"]
  by metis

lemma table_Some: "table s ep = Some T \<longleftrightarrow> (\<exists>env. envs s ep = Some env \<and> task env = T)"
  by (auto simp: table_def)

lemma quietD:
  assumes "quiet s s'" and "heap s p = Some t" and "heap s' p = Some t'"
  shows "status t = COROUTINE_EXIT \<Longrightarrow> status t' = COROUTINE_EXIT"
    "status t \<noteq> COROUTINE_WAIT \<Longrightarrow> status t' \<noteq> COROUTINE_WAIT"
    "fds_idx t = 0 \<Longrightarrow> fds_idx t' = 0"
  using assms unfolding quiet_def by blast+

lemma quiet_trans:
  assumes "quiet s s'" and "quiet s' s''"
  shows "quiet s s''"
proof -
  have sh: "shape s' = shape s" "shape s'' = shape s" "table s'' = table s"
    using assms unfolding quiet_def by simp_all
  have "(status t = COROUTINE_EXIT \<longrightarrow> status t'' = COROUTINE_EXIT) \<and>
      (status t'' = COROUTINE_WAIT \<longrightarrow> status t = COROUTINE_WAIT) \<and> (fds_idx t = 0 \<longrightarrow> fds_idx t'' = 0)"
    if t: "heap s p = Some t" and t'': "heap s'' p = Some t''" for p t t''
  proof -
    obtain t' where t': "heap s' p = Some t'" using shape_heap [OF sh(1) [symmetric] t] by blast
    from quietD [OF assms(1) t t'] quietD [OF assms(2) t' t''] show ?thesis by metis
  qed
  with sh show ?thesis unfolding quiet_def by blast
qed

lemma quiet_kst: "quiet s (s\<lparr>kst := k\<rparr>)"
  by (auto simp: quiet_def shape_def table_def fun_eq_iff)

lemma quiet_task:
  assumes "heap s c = Some t" and "thread_env t' = thread_env t" and "tsk_id t' = tsk_id t"
    and "status t \<noteq> COROUTINE_EXIT" and "status t' \<noteq> COROUTINE_WAIT" and "fds_idx t' = fds_idx t"
    and "heap s' = (heap s)(c \<mapsto> t')" and "envs s' = envs s"
  shows "quiet s s'"
  using assms by (auto simp: quiet_def shape_def table_def fun_eq_iff)

lemma quiet_woken:
  assumes "woken K ep n s s1" and "heap s' = heap s1" and "table s' = table s"
  shows "quiet s s'"
proof -
  have "shape s' p = shape s p" for p
  proof (cases "heap s p")
    case None
    then have "heap s1 p = None" using assms(1) by (auto simp: woken_def)
    with None show ?thesis by (simp add: shape_def assms(2))
  next
    case (Some t)
    then show ?thesis by (rule woken_taskE [OF assms(1)]) (simp_all add: shape_def assms(2) Some)
  qed
  moreover have "(status t = COROUTINE_EXIT \<longrightarrow> status t' = COROUTINE_EXIT) \<and>
      (status t' = COROUTINE_WAIT \<longrightarrow> status t = COROUTINE_WAIT) \<and> (fds_idx t = 0 \<longrightarrow> fds_idx t' = 0)"
    if t: "heap s p = Some t" and t': "heap s' p = Some t'" for p t t'
    using t by (rule woken_taskE [OF assms(1)]) (use t' assms(2) in auto)
  ultimately show ?thesis using assms(3) unfolding quiet_def by blast
qed

lemma schedule_quiet:
  assumes ok: "state_ok s" and th: "thread_has s tid ep" and cur: "is_current s ep env c t"
    and s': "schedule K tid s = Inr s'"
  shows "quiet s s'"
proof -
  obtain p where "rescheduled K ep env (tsk_id t) s s' p" by (rule schedule_rescheduled [OF assms])
  then obtain n s1 where n: "woken K ep n s s1"
    and eq: "s' = s1\<lparr>envs := (envs s1)(ep \<mapsto> env\<lparr>current := Some p\<rparr>)\<rparr>"
    unfolding rescheduled_def by blast
  have "table s' = table s"
    using n cur by (auto simp: eq table_def woken_def is_current_def fun_eq_iff)
  from quiet_woken [OF n _ this] show ?thesis by (simp add: eq)
qed

lemma held_quiet:
  assumes h: "held B own spare (s, C)" and q: "quiet s s'"
    and k: "kont_structured B (own c) (spare c) k"
    and dead: "k = KDead \<Longrightarrow> \<exists>t. heap s' c = Some t \<and> status t = COROUTINE_EXIT"
  shows "held B own spare (s', C(c \<mapsto> k))"
proof -
  have sh: "shape s' = shape s" "table s' = table s" using q by (simp_all add: quiet_def)
  have "status t' \<noteq> COROUTINE_WAIT \<and> fds_idx t' = 0" if t': "heap s' p = Some t'" for p t'
  proof -
    obtain t where t: "heap s p = Some t" using shape_heap [OF sh(1) t'] by blast
    from quietD(2,3) [OF q t t'] heldD(2,3) [OF h t] show ?thesis by blast
  qed
  moreover have "\<exists>t. heap s' p = Some t \<and> status t = COROUTINE_EXIT"
    if p: "(C(c \<mapsto> k)) p = Some KDead" for p
  proof (cases "p = c")
    case True
    with p dead show ?thesis by simp
  next
    case False
    with p have "C p = Some KDead" by simp
    then obtain t where t: "heap s p = Some t" "status t = COROUTINE_EXIT" using heldD(4) [OF h] by blast
    obtain t' where t': "heap s' p = Some t'" using shape_heap [OF sh(1) [symmetric] t(1)] by blast
    from quietD(1) [OF q t(1) t' t(2)] t' show ?thesis by blast
  qed
  ultimately have "tidy s' (C(c \<mapsto> k))" unfolding tidy_def by blast
  moreover have "kont_structured B (own p) (spare p) k'" if "(C(c \<mapsto> k)) p = Some k'" for p k'
    using that k heldD(1) [OF h, of p k'] by (auto split: if_splits)
  ultimately show ?thesis using heldD(5,6) [OF h] by (simp add: held_def sh)
qed

section \<open>The calls\<close>

text \<open>The kernel has memory and a clock.\<close>

definition works :: "'k os \<Rightarrow> bool" where
  "works K \<longleftrightarrow> (\<forall>k. fst (os_calloc K k) \<and> fst (os_gettimeofday K k) \<noteq> None)"

lemma works_ms: "works K \<Longrightarrow> ms_at K k j \<noteq> None"
  by (simp add: works_def ms_at_def)

text \<open>The only way not to go on is to wait for the clock while no coroutine can run.\<close>

lemma schedule_fails:
  assumes ok: "state_ok s" and th: "thread_has s tid ep" and cur: "is_current s ep env c t"
    and K: "works K" and f: "schedule K tid s = Inl f"
  shows "f = Hang \<and> (\<forall>i. \<not> running_at s ep i)"
proof -
  note c = is_currentD [OF ok cur]
  show ?thesis
  proof (cases "\<exists>i. running_at s ep i")
    case True
    with schedule_ends [OF ok th cur, of K 0] works_ms [OF K] f show ?thesis by auto
  next
    case False
    have "pick_loop K ep c (tsk_id t) s = None"
    proof (rule ccontr)
      assume "pick_loop K ep c (tsk_id t) s \<noteq> None"
      then obtain r where r: "pick_loop K ep c (tsk_id t) s = Some r" by auto
      show False
      proof (cases r)
        case (Inl e)
        with pick_loop_returns [OF r ok c(1,4,5)] works_ms [OF K] show False by auto
      next
        case (Inr ps)
        then obtain p s1 where ps: "pick K tid s = Inr (p, s1)"
          using r by (cases ps) (simp add: pick_eq [OF th cur])
        obtain n where n: "woken K ep n s s1" and ch: "choice s1 ep env (tsk_id t) = Some p"
          by (rule pick_choice [OF ok th cur ps])
        have ok1: "state_ok s1" "envs s1 ep = Some env"
          using woken_state_ok [OF n ok] n c(1) by (auto simp: woken_def)
        obtain tp where "heap s1 p = Some tp" "thread_env tp = Some ep"
          by (rule choice_SomeD [OF ok1 c(4) ch])
        with f ps ok1(2) show False by (simp add: schedule_def co_switch_to_eq)
      qed
    qed
    with f False show ?thesis by (simp add: schedule_def pick_eq [OF th cur])
  qed
qed

definition fares ::
  "(voidp \<Rightarrow> nat) \<Rightarrow> 'k co_state \<Rightarrow> envp \<Rightarrow> thread_env_t \<Rightarrow> taskp \<Rightarrow> fault + ('k co_state \<times> konts) \<Rightarrow> bool" where
  "fares B s ep env c r \<longleftrightarrow>
     (case r of
        Inr w \<Rightarrow> \<exists>own spare. held B own spare w
      | Inl f \<Rightarrow> f = Hang \<and> (\<forall>i. running_at s ep i \<longrightarrow> task env i = Some c))"

lemma running_other:
  assumes ok: "state_ok s" "envs s ep = Some env" and ok': "state_ok s'" "envs s' ep = Some env"
    and h: "\<And>q. q \<noteq> c \<Longrightarrow> heap s' q = heap s q" and none: "\<forall>i. \<not> running_at s' ep i"
  shows "\<forall>i. running_at s ep i \<longrightarrow> task env i = Some c"
proof (intro allI impI)
  fix i assume "running_at s ep i"
  then obtain p t where p: "task env i = Some p" "heap s p = Some t" "status t = COROUTINE_RUNNING"
    by (auto simp: running_at_ok [OF ok])
  with none h [of p] show "task env i = Some c" by (cases "p = c") (auto simp: running_at_ok [OF ok'])
qed

lemma sleep_fares:
  assumes ok: "state_ok s" and th: "thread_has s tid ep" and cur: "is_current s ep env c t"
    and al: "alive s" and K: "works K" and h: "held B own spare (s, C)"
    and C: "C c = Some (KUser (Sleep n p))"
  shows "fares B s ep env c (call K code tid c (Sleep n p) s C)"
proof -
  have st: "fits_int (1000 * n)" "structured B (own c) (spare c) p"
    using heldD(1) [OF h C] by (simp_all add: structured_simps)
  obtain now where now: "ms_at K (kst s) 0 = Some now" using works_ms [OF K] by blast
  let ?s = "asleep K s c t now n"
  note a = asleep_ok [OF ok th cur, of K now n]
  have eq: "co_sleep K tid n s = schedule K tid ?s" by (rule co_sleep_asleep [OF th cur now st(1)])
  have hc: "heap s c = Some t" using cur by (simp add: is_current_def)
  have q: "quiet s ?s"
    by (rule quiet_task [OF hc, where t' = "t\<lparr>wakeuptime := now + word_of_int (1000 * n), status := COROUTINE_SLEEP\<rparr>"])
      (use alive_current [OF al cur] in \<open>auto simp: asleep_def\<close>)
  show ?thesis
  proof (cases "schedule K tid ?s")
    case (Inl f)
    have e: "envs s ep = Some env" "envs ?s ep = Some env" using cur by (simp_all add: is_current_def asleep_def)
    have "\<forall>i. running_at s ep i \<longrightarrow> task env i = Some c"
      by (rule running_other [OF ok e(1) a(1) e(2)])
        (use schedule_fails [OF a(1-3) K Inl] in \<open>simp_all add: asleep_def\<close>)
    with schedule_fails [OF a(1-3) K Inl] Inl eq show ?thesis by (simp add: fares_def)
  next
    case (Inr s')
    have "quiet s s'" by (rule quiet_trans [OF q schedule_quiet [OF a(1-3) Inr]])
    from held_quiet [OF h this, of c "KUser p"] st Inr eq show ?thesis by (auto simp: fares_def)
  qed
qed

lemma return_fares:
  assumes ok: "state_ok s" and th: "thread_has s tid ep" and cur: "is_current s ep env c t"
    and al: "alive s" and K: "works K" and h: "held B own spare (s, C)"
    and C: "C c = Some (KUser Return)"
  shows "fares B s ep env c (call K code tid c Return s C)"
proof -
  have hc: "heap s c = Some t" using cur by (simp add: is_current_def)
  have none: "own c = {}" using heldD(1) [OF h C] by (simp add: structured_simps)
  show ?thesis
  proof (cases "tsk_id t = 0")
    case True
    have "C(c \<mapsto> KUser Return) = C" using C by (simp add: fun_upd_idem_iff)
    with True hc h show ?thesis by (auto simp: fares_def get_task_def simp del: fun_upd_apply)
  next
    case False
    let ?t = "t\<lparr>status := COROUTINE_EXIT\<rparr>"
    let ?s = "s\<lparr>heap := (heap s)(c \<mapsto> ?t)\<rparr>"
    have "start_cleanup K c s = Inr ?s"
      using is_currentD(6) [OF ok cur] heldD(3) [OF h hc] hc
      by (simp add: start_cleanup_unfold [OF hc] release_fds_done)
    then have eq: "start_finish K tid c s = schedule K tid ?s" by (simp add: start_finish_def)
    have sim: "same_tasks s ?s" by (rule same_tasks_upd [OF hc]) simp_all
    have a: "state_ok ?s" "thread_has ?s tid ep" "is_current ?s ep env c ?t"
      using state_ok_same_tasks [OF sim ok] th cur by (simp_all add: thread_has_def is_current_def)
    have q: "quiet s ?s"
      by (rule quiet_task [OF hc, where t' = ?t]) (use alive_current [OF al cur] in auto)
    show ?thesis
    proof (cases "schedule K tid ?s")
      case (Inl f)
      have e: "envs s ep = Some env" "envs ?s ep = Some env" using cur by (simp_all add: is_current_def)
      have "\<forall>i. running_at s ep i \<longrightarrow> task env i = Some c"
        by (rule running_other [OF ok e(1) a(1) e(2)]) (use schedule_fails [OF a K Inl] in simp_all)
      with schedule_fails [OF a K Inl] Inl eq False hc show ?thesis by (simp add: fares_def get_task_def)
    next
      case (Inr s')
      have q2: "quiet ?s s'" by (rule schedule_quiet [OF a Inr])
      obtain t' where t': "heap s' c = Some t'"
        using shape_heap [of ?s s' c ?t] q2 by (auto simp: quiet_def)
      have "status t' = COROUTINE_EXIT" using quietD(1) [OF q2 _ t', of ?t] by simp
      with held_quiet [OF h quiet_trans [OF q q2], of c KDead] none t' Inr eq False hc
      show ?thesis by (auto simp: fares_def get_task_def)
    qed
  qed
qed

text \<open>A coroutine is in one slot of one table.\<close>

lemma shape_entry:
  assumes "state_ok s"
  shows "shape s p = Some (e, i) \<longleftrightarrow>
    (\<exists>ep env. e = Some ep \<and> envs s ep = Some env \<and> task env i = Some p)"
proof
  assume "shape s p = Some (e, i)"
  then obtain t where t: "heap s p = Some t" "thread_env t = e" "tsk_id t = i" by (auto simp: shape_Some)
  obtain ep env where "thread_env t = Some ep" "envs s ep = Some env" "task env (tsk_id t) = Some p"
    by (rule state_ok_task [OF assms t(1)])
  with t show "\<exists>ep env. e = Some ep \<and> envs s ep = Some env \<and> task env i = Some p" by auto
next
  assume "\<exists>ep env. e = Some ep \<and> envs s ep = Some env \<and> task env i = Some p"
  then obtain ep env where e: "e = Some ep" "envs s ep = Some env" "task env i = Some p" by blast
  obtain t where "heap s p = Some t" "tsk_id t = i" "thread_env t = Some ep"
    by (rule state_ok_entry [OF assms e(2,3)])
  with e show "shape s p = Some (e, i)" by (auto simp: shape_Some)
qed

lemma shape_inj: "state_ok s \<Longrightarrow> shape s p = Some x \<Longrightarrow> shape s q = Some x \<Longrightarrow> p = q"
  by (cases x) (auto simp: shape_entry)

lemma table_finite: "state_ok s \<Longrightarrow> table s ep = Some T \<Longrightarrow> finite (dom T)"
  using state_ok_env env_ok_finite by (fastforce simp: table_Some)

lemma need_other: "(\<And>i. T i \<noteq> Some c) \<Longrightarrow> need (spare(c := x)) T = need spare T"
  unfolding need_def by (rule sum.cong) (auto split: option.splits)

text \<open>The sum with the slot of \<open>c\<close> apart.\<close>

lemma need_split:
  assumes "finite (dom T)" and "T j = Some c"
  shows "need spare T = Suc (spare c) + (\<Sum>i \<in> dom T - {j}. Suc (spare (the (T i))))"
  using assms sum.remove [of "dom T" j "\<lambda>i. Suc (spare (the (T i)))"] by (simp add: need_def domI)

lemma need_rest:
  fixes spare :: "taskp \<Rightarrow> nat"
  assumes "\<And>i. T i = Some c \<Longrightarrow> i = j"
  shows "(\<Sum>i \<in> dom T - {j}. Suc ((spare(c := x)) (the (T i)))) = (\<Sum>i \<in> dom T - {j}. Suc (spare (the (T i))))"
proof (rule sum.cong)
  fix i assume "i \<in> dom T - {j}"
  then obtain p where "T i = Some p" "i \<noteq> j" by auto
  with assms [of i] show "Suc ((spare(c := x)) (the (T i))) = Suc (spare (the (T i)))" by auto
qed simp

lemma need_upd:
  fixes spare :: "taskp \<Rightarrow> nat"
  assumes "finite (dom T)" and "T j = Some c" and "\<And>i. T i = Some c \<Longrightarrow> i = j"
  shows "need (spare(c := x)) T + spare c = need spare T + x"
  using need_split [OF assms(1,2), where spare = spare]
    need_split [OF assms(1,2), where spare = "spare(c := x)"] need_rest [OF assms(3), where spare = spare and x = x]
  by simp

lemma need_del:
  assumes "finite (dom T)" and "T i = Some q"
  shows "need spare T = Suc (spare q) + need spare (T(i := None))"
proof -
  have "(\<Sum>l \<in> dom T - {i}. Suc (spare (the (T l)))) = need spare (T(i := None))"
    unfolding need_def by (rule sum.cong) auto
  with need_split [OF assms] show ?thesis by simp
qed

lemma need_join:
  fixes spare :: "taskp \<Rightarrow> nat"
  assumes "finite (dom T)" and "T j = Some c" and "T i = Some q" and "\<And>l. T l = Some c \<Longrightarrow> l = j" and "i \<noteq> j"
  shows "need (spare(c := Suc (spare c))) (T(i := None)) \<le> need spare T"
proof -
  have T: "(T(i := None)) j = Some c" "finite (dom (T(i := None)))" using assms(1,2,5) by simp_all
  have "l = j" if "(T(i := None)) l = Some c" for l using that assms(4) by (auto split: if_splits)
  from need_upd [where T = "T(i := None)" and spare = spare and x = "Suc (spare c)", OF T(2,1) this]
    need_del [OF assms(1,3), where spare = spare]
  show ?thesis by (simp del: fun_upd_apply)
qed

lemma owned_join:
  assumes own: "owned own sh" and c: "sh c = Some (e, j)" and q: "sh q = Some (e, i)"
    and i: "i \<in> own c" and "own q = {}" and inj: "\<And>p. sh p = Some (e, i) \<Longrightarrow> p = q"
  shows "owned (own(c := own c - {i})) (sh(q := None))"
proof -
  have "0 < i' \<and> (\<exists>r > p. (sh(q := None)) r = Some (e', i'))"
    if p: "(sh(q := None)) p = Some (e', j')" "i' \<in> (own(c := own c - {i})) p" for p e' j' i'
  proof -
    have p': "sh p = Some (e', j')" "i' \<in> own p" using p by (auto split: if_splits)
    from ownedD(1) [OF own this] obtain r where r: "0 < i'" "p < r" "sh r = Some (e', i')" by blast
    have "r \<noteq> q"
    proof
      assume "r = q"
      then have "e' = e" "i' = i" using r(3) q by simp_all
      with ownedD(3) [OF own p'(1) _ p'(2), of c j] c i have "p = c" by simp
      with p(2) \<open>i' = i\<close> show False by simp
    qed
    with r show ?thesis by auto
  qed
  moreover have "\<exists>p j. (sh(q := None)) p = Some (e', j) \<and> i' \<in> (own(c := own c - {i})) p"
    if r: "(sh(q := None)) r = Some (e', i')" "0 < i'" for r e' i'
  proof -
    have r': "sh r = Some (e', i')" "r \<noteq> q" using r by (auto split: if_splits)
    obtain p j' where p: "sh p = Some (e', j')" "i' \<in> own p" using ownedD(2) [OF own r'(1) r(2)] by blast
    have "p \<noteq> q" using p(2) assms(5) by auto
    moreover have "\<not> (p = c \<and> i' = i)" using p(1) c r' inj by auto
    ultimately show ?thesis using p by auto
  qed
  moreover have "p = p'"
    if p: "(sh(q := None)) p = Some (e', j1)" "(sh(q := None)) p' = Some (e', j2)"
      "i' \<in> (own(c := own c - {i})) p" "i' \<in> (own(c := own c - {i})) p'" for p p' e' j1 j2 i'
  proof -
    have "sh p = Some (e', j1)" "sh p' = Some (e', j2)" "i' \<in> own p" "i' \<in> own p'"
      using p by (auto split: if_splits)
    then show ?thesis by (rule ownedD(3) [OF own])
  qed
  ultimately show ?thesis unfolding owned_def by blast
qed

lemma held_part:
  assumes "held B own spare (s, C)"
  shows "held B own spare (s, \<lambda>q. if Q q then None else C q)"
proof -
  have "(\<lambda>q. if Q q then None else C q) p = Some k \<Longrightarrow> C p = Some k" for p k by (simp split: if_splits)
  with assms show ?thesis unfolding held_def tidy_def by simp
qed

lemma roomy_upd:
  assumes ok: "state_ok s" and cur: "is_current s ep env c t" and r: "roomy spare (table s)"
    and T: "T 0 \<noteq> None" "need spare' T \<le> NR_TASKS"
    and sp: "\<And>p. p \<noteq> c \<Longrightarrow> heap s p \<noteq> None \<Longrightarrow> spare' p = spare p"
  shows "roomy spare' ((table s)(ep \<mapsto> T))"
  unfolding roomy_def
proof (intro allI impI)
  fix e T' assume e: "((table s)(ep \<mapsto> T)) e = Some T'"
  show "T' 0 \<noteq> None \<and> need spare' T' \<le> NR_TASKS"
  proof (cases "e = ep")
    case True
    with e T show ?thesis by simp
  next
    case False
    with e have T': "table s e = Some T'" by simp
    then obtain env' where E: "envs s e = Some env'" "task env' = T'" by (auto simp: table_Some)
    have "spare' (the (T' i)) = spare (the (T' i))" if i: "i \<in> dom T'" for i
    proof -
      obtain p where p: "task env' i = Some p" using i E(2) by auto
      obtain tp where tp: "heap s p = Some tp" "thread_env tp = Some e" by (rule state_ok_entry [OF ok E(1) p])
      with is_currentD(3,6) [OF ok cur] False have "p \<noteq> c" by auto
      with sp tp(1) p E(2) show ?thesis by simp
    qed
    then have "need spare' T' = need spare T'" unfolding need_def by (intro sum.cong) simp_all
    with roomyD [OF r T'] show ?thesis by simp
  qed
qed

lemma joined_held:
  assumes ok: "config_ok (s, C)" and cur: "is_current s ep env c t" and h: "held B own spare (s, C)"
    and i: "i \<in> own c" and q: "task env i = Some q" and tq: "heap s q = Some tq" "status tq = COROUTINE_EXIT"
    and p: "structured B (own c - {i}) (Suc (spare c)) p"
  shows "held B (own(c := own c - {i})) (spare(c := Suc (spare c)))
    (without_task ep env i q s, \<lambda>x. if heap (without_task ep env i q s) x = None then None else (C(c \<mapsto> KUser p)) x)"
    (is "held B ?own ?spare (?s, ?C)")
proof -
  have so: "state_ok s" and al: "alive s" using ok by (simp_all add: config_but_def)
  note c = is_currentD [OF so cur]
  have "q \<noteq> c" using tq alive_current [OF al cur] c(3) by auto
  have ic: "i \<noteq> tsk_id t" using q c(5) \<open>q \<noteq> c\<close> by auto
  have "C q = Some KDead" using ok tq unfolding config_but_def by auto
  then have none: "own q = {}" using heldD(1) [OF h] by fastforce
  have heap: "heap ?s = (heap s)(q := None)" by (simp add: without_task_def)
  have sh: "shape ?s = (shape s)(q := None)" by (auto simp: shape_def heap)
  have tb: "table ?s = (table s)(ep \<mapsto> (task env)(i := None))"
    by (auto simp: table_def without_task_def)
  have sc: "shape s c = Some (Some ep, tsk_id t)" using c(1,5) by (simp add: shape_entry [OF so])
  have sq: "shape s q = Some (Some ep, i)" using c(1) q by (simp add: shape_entry [OF so])
  have pos: "0 < i" using ownedD(1) [OF heldD(5) [OF h] sc i] by simp
  have T: "table s ep = Some (task env)" using c(1) by (auto simp: table_def)
  have "owned ?own (shape ?s)"
    unfolding sh
    by (rule owned_join [OF heldD(5) [OF h] sc sq i none]) (use shape_inj [OF so _ sq] in blast)
  moreover have "roomy ?spare (table ?s)"
    unfolding tb
  proof (rule roomy_upd [OF so cur heldD(6) [OF h]])
    show "((task env)(i := None)) 0 \<noteq> None" using roomyD(1) [OF heldD(6) [OF h] T] pos by simp
    have "l = tsk_id t" if "task env l = Some c" for l
      using c(3) state_ok_entry [OF so c(1) that] by fastforce
    from need_join [where T = "task env" and spare = spare, OF table_finite [OF so T] c(5) q this ic]
      roomyD(2) [OF heldD(6) [OF h] T]
    show "need ?spare ((task env)(i := None)) \<le> NR_TASKS" by linarith
  qed simp
  moreover have "tidy ?s ?C"
    using heldD(2-4) [OF h] by (auto simp: tidy_def heap split: if_splits)
  moreover have "kont_structured B (?own x) (?spare x) k" if "?C x = Some k" for x k
    using that p heldD(1) [OF h, of x k] by (auto split: if_splits)
  ultimately show ?thesis unfolding held_def by simp
qed

lemma join_fares:
  assumes ok: "config_ok (s, C)" and th: "thread_has s tid ep" and cur: "is_current s ep env c t"
    and K: "works K" and h: "held B own spare (s, C)"
    and J: "structured B (own c) (spare c) (Join cid p)"
  shows "fares B s ep env c (bnd (co_join_turn K tid ep cid s) (\<lambda>(finished, s).
    Inr (s, \<lambda>q. if heap s q = None then None
      else (C(c \<mapsto> if finished then KUser p else KJoin ep cid p)) q)))"
proof -
  have so: "state_ok s" and al: "alive s" using ok by (simp_all add: config_but_def)
  note c = is_currentD [OF so cur]
  define i where "i = nat cid"
  have j: "0 \<le> cid" "i \<in> own c" "structured B (own c - {i}) (Suc (spare c)) p"
    using J by (simp_all add: structured_simps i_def)
  have sc: "shape s c = Some (Some ep, tsk_id t)" using c(1,5) by (simp add: shape_entry [OF so])
  obtain q where q: "task env i = Some q"
    using ownedD(1) [OF heldD(5) [OF h] sc j(2)] c(1) by (auto simp: shape_entry [OF so])
  obtain tq where tq: "heap s q = Some tq" "i < NR_TASKS" by (rule state_ok_entry [OF so c(1) q])
  have cid: "cid < int NR_TASKS" using tq(2) j(1) by (simp add: i_def)
  note eq = co_join_turn_eq [OF c(1) j(1) cid q [unfolded i_def] tq(1), of K tid]
  show ?thesis
  proof (cases "status tq = COROUTINE_EXIT")
    case True
    from joined_held [OF ok cur h j(2) q tq(1) True j(3)] True show ?thesis
      by (auto simp: fares_def eq i_def)
  next
    case False
    have "running_at s ep (tsk_id t)"
      using c(3,5) alive_current [OF al cur] heldD(2) [OF h c(3)] by (simp add: running_at_ok [OF so c(1)])
    then obtain s' where s': "schedule K tid s = Inr s'"
      using schedule_fails [OF so th cur K] by (cases "schedule K tid s") auto
    from held_quiet [OF h schedule_quiet [OF so th cur s'], of c "KJoin ep cid p"] J
    have "held B own spare (s', C(c \<mapsto> KJoin ep cid p))" by simp
    from held_part [OF this, of "\<lambda>q. heap s' q = None"] False s' show ?thesis
      by (auto simp: fares_def eq simp del: fun_upd_apply)
  qed
qed

text \<open>A coroutine with an id that nobody had before is held by its creator only.\<close>

lemma held_once:
  assumes own: "owned own sh" and c: "sh c = Some (e, j)" and i: "\<And>p. sh p \<noteq> Some (e, i)"
    and p: "sh p = Some (e', j1)" "sh p' = Some (e', j2)"
      "i' \<in> own p \<or> p = c \<and> i' = i" "i' \<in> own p' \<or> p' = c \<and> i' = i"
  shows "p = p'"
proof -
  have no: "i \<notin> own x" if "sh x = Some (e, y)" for x y
    using ownedD(1) [OF own that, of i] i by auto
  show ?thesis
  proof (cases "i' \<in> own p \<and> i' \<in> own p'")
    case True
    with ownedD(3) [OF own p(1,2)] show ?thesis by blast
  next
    case False
    then have i': "i' = i" and "p = c \<or> p' = c" using p(3,4) by blast+
    then have "e' = e" using p(1,2) c by auto
    then have "p = c" "p' = c" using no [of p j1] no [of p' j2] p i' by simp_all
    then show ?thesis by simp
  qed
qed

lemma owned_create:
  assumes own: "owned own sh" and c: "sh c = Some (e, j)" and r: "sh r = None" "c < r"
    and i: "0 < i" "\<And>p. sh p \<noteq> Some (e, i)"
  shows "owned (own(c := insert i (own c), r := {})) (sh(r \<mapsto> (e, i)))" (is "owned ?own ?sh")
proof -
  have cr: "c \<noteq> r" using r(2) by simp
  have "0 < i' \<and> (\<exists>q > p. ?sh q = Some (e', i'))"
    if p: "?sh p = Some (e', j')" "i' \<in> ?own p" for p e' j' i'
  proof -
    have p': "p \<noteq> r" "sh p = Some (e', j')" "i' \<in> own p \<or> p = c \<and> i' = i"
      using p by (auto split: if_splits)
    show ?thesis
    proof (cases "i' \<in> own p")
      case True
      from ownedD(1) [OF own p'(2) this] obtain q where "0 < i'" "p < q" "sh q = Some (e', i')" by blast
      with r(1) show ?thesis by (intro conjI exI [of _ q]) auto
    next
      case False
      with p' have "p = c" "i' = i" by simp_all
      with p'(2) c have "e' = e" by simp
      with \<open>p = c\<close> \<open>i' = i\<close> r(2) i(1) show ?thesis by (intro conjI exI [of _ r]) auto
    qed
  qed
  moreover have "\<exists>p j. ?sh p = Some (e', j) \<and> i' \<in> ?own p"
    if q: "?sh q = Some (e', i')" "0 < i'" for q e' i'
  proof (cases "q = r")
    case True
    with q c cr show ?thesis by (intro exI [of _ c] exI [of _ j]) auto
  next
    case False
    then have "sh q = Some (e', i')" using q(1) by simp
    from ownedD(2) [OF own this q(2)] obtain p j' where p: "sh p = Some (e', j')" "i' \<in> own p" by blast
    moreover have "p \<noteq> r" using p(1) r(1) by auto
    ultimately show ?thesis by auto
  qed
  moreover have "p = p'"
    if p: "?sh p = Some (e', j1)" "?sh p' = Some (e', j2)" "i' \<in> ?own p" "i' \<in> ?own p'" for p p' e' j1 j2 i'
    by (rule held_once [OF own c i(2), of p e' j1 p' j2 i']) (use p in \<open>auto split: if_splits\<close>)
  ultimately show ?thesis unfolding owned_def by blast
qed

lemma room_for_one:
  assumes ok: "state_ok s" and env: "envs s ep = Some env" and c: "task env j = Some c"
    and need: "need spare (task env) \<le> NR_TASKS" and sp: "0 < spare c"
  shows "free_slot env 0 \<noteq> NR_TASKS"
proof
  assume full: "free_slot env 0 = NR_TASKS"
  have fin: "finite (dom (task env))" using table_finite [OF ok] env by (auto simp: table_Some)
  have "task env l \<noteq> None" if "l < NR_TASKS" for l using free_slot_spec [of 0 env] full that by simp
  then have "{..<NR_TASKS} \<subseteq> dom (task env)" by blast
  from card_mono [OF fin this] have "NR_TASKS \<le> card (dom (task env))" by simp
  moreover have "card (dom (task env)) < need spare (task env)"
  proof -
    have "card (dom (task env)) = Suc (card (dom (task env) - {j}))"
      using fin c by (intro card.remove) auto
    moreover have "card (dom (task env) - {j}) \<le> (\<Sum>i \<in> dom (task env) - {j}. Suc (spare (the (task env i))))"
      using sum_mono [of "dom (task env) - {j}" "\<lambda>_. 1" "\<lambda>i. Suc (spare (the (task env i)))"] by simp
    ultimately show ?thesis using need_split [OF fin c, where spare = spare] sp by simp
  qed
  ultimately show False using need by simp
qed

lemma need_create:
  fixes spare :: "taskp \<Rightarrow> nat"
  assumes "finite (dom T)" and "T j = Some c" and "\<And>l. T l = Some c \<Longrightarrow> l = j" and "T i = None"
    and "\<And>l. T l \<noteq> Some r" and "c \<noteq> r" and "spare c = Suc (b + m)"
  shows "need (spare(c := m, r := b)) (T(i \<mapsto> r)) = need spare T"
proof -
  have T: "(T(i \<mapsto> r))(i := None) = T" using assms(4) by (simp add: fun_upd_idem_iff)
  have "need (spare(c := m, r := b)) (T(i \<mapsto> r)) = Suc b + need (spare(c := m, r := b)) T"
    using need_del [of "T(i \<mapsto> r)" i r "spare(c := m, r := b)"] assms(1) unfolding T by simp
  moreover have "need (spare(c := m, r := b)) T = need (spare(c := m)) T"
    by (rule need_other) (rule assms(5))
  moreover have "need (spare(c := m)) T + spare c = need spare T + m"
    by (rule need_upd [OF assms(1-3)])
  ultimately show ?thesis using assms(7) by simp
qed

lemma created_held:
  assumes so: "state_ok s" and cur: "is_current s ep env c t" and h: "held B own spare (s, C)"
    and i: "0 < i" "task env i = None" and sp: "spare c = Suc (B fn + m)"
    and f: "structured B (insert i (own c)) m p" and g: "structured B {} (B fn) g"
  shows "held B (own(c := insert i (own c), brk s := {})) (spare(c := m, brk s := B fn))
    (with_new_task ar ep env i fn a k s, C(c \<mapsto> KUser p, brk s \<mapsto> KUser g))"
    (is "held B ?own ?spare (?s, ?C)")
proof -
  note c = is_currentD [OF so cur]
  have below: "x < brk s" if "heap s x \<noteq> None" for x using that state_ok_heap [OF so] by blast
  then have fresh: "heap s (brk s) = None" by blast
  have cb: "c < brk s" using below c(3) by simp
  have heap: "heap ?s = (heap s)(brk s \<mapsto> new_task ar (brk s) i fn a ep)" by (simp add: with_new_task_def)
  have sh: "shape ?s = (shape s)(brk s \<mapsto> (Some ep, i))" by (auto simp: shape_def heap)
  have tb: "table ?s = (table s)(ep \<mapsto> (task env)(i \<mapsto> brk s))"
    by (auto simp: table_def with_new_task_def)
  have sc: "shape s c = Some (Some ep, tsk_id t)" using c(1,5) by (simp add: shape_entry [OF so])
  have T: "table s ep = Some (task env)" using c(1) by (auto simp: table_def)
  have "owned ?own (shape ?s)"
    unfolding sh
  proof (rule owned_create [OF heldD(5) [OF h] sc _ cb i(1)])
    show "shape s (brk s) = None" by (simp add: shape_def fresh)
    show "shape s x \<noteq> Some (Some ep, i)" for x using c(1) i(2) by (simp add: shape_entry [OF so])
  qed
  moreover have "roomy ?spare (table ?s)"
    unfolding tb
  proof (rule roomy_upd [OF so cur heldD(6) [OF h]])
    show "((task env)(i \<mapsto> brk s)) 0 \<noteq> None" using roomyD(1) [OF heldD(6) [OF h] T] i(1) by simp
    have 1: "l = tsk_id t" if "task env l = Some c" for l
      using c(3) state_ok_entry [OF so c(1) that] by fastforce
    have 2: "task env l \<noteq> Some (brk s)" for l
      using state_ok_entry [OF so c(1), of l "brk s"] fresh by fastforce
    have "need ?spare ((task env)(i \<mapsto> brk s)) = need spare (task env)"
      by (rule need_create [where T = "task env", OF table_finite [OF so T] c(5)])
        (use 1 2 i(2) sp cb in auto)
    with roomyD(2) [OF heldD(6) [OF h] T] show "need ?spare ((task env)(i \<mapsto> brk s)) \<le> NR_TASKS" by simp
  qed (use fresh in auto)
  moreover have "tidy ?s ?C"
    using heldD(2-4) [OF h] fresh by (auto simp: tidy_def heap)
  moreover have "kont_structured B (?own x) (?spare x) k" if "?C x = Some k" for x k
    using that f g cb heldD(1) [OF h, of x k] by (auto split: if_splits)
  ultimately show ?thesis unfolding held_def by simp
qed

lemma create_fares:
  assumes ok: "config_ok (s, C)" and th: "thread_has s tid ep" and cur: "is_current s ep env c t"
    and K: "works K" and h: "held B own spare (s, C)" and code: "\<And>fn a. structured B {} (B fn) (code fn a)"
    and C: "C c = Some (KUser (Create fn a f))"
  shows "fares B s ep env c (call K code tid c (Create fn a f) s C)"
proof -
  have so: "state_ok s" using ok by (simp add: config_but_def)
  note c = is_currentD [OF so cur]
  obtain m where m: "spare c = Suc (B fn + m)"
    "\<And>i. 0 < i \<Longrightarrow> i \<notin> own c \<Longrightarrow> structured B (insert i (own c)) m (f 0 (Some i))"
    using heldD(1) [OF h C] by (auto simp: structured_simps)
  have T: "table s ep = Some (task env)" using c(1) by (auto simp: table_def)
  note room = roomyD [OF heldD(6) [OF h] T]
  let ?i = "free_slot env 0"
  have ne: "?i \<noteq> NR_TASKS" by (rule room_for_one [OF so c(1,5) room(2)]) (simp add: m(1))
  have free: "task env ?i = None" using free_slot_spec [of 0 env] ne by simp
  have pos: "0 < ?i" using free room(1) by (cases "?i") auto
  have "?i \<notin> own c"
  proof
    assume i: "?i \<in> own c"
    have "shape s c = Some (Some ep, tsk_id t)" using c(1,5) by (simp add: shape_entry [OF so])
    from ownedD(1) [OF heldD(5) [OF h] this i] free c(1) show False by (auto simp: shape_entry [OF so])
  qed
  from m(2) [OF pos this] have f: "structured B (insert ?i (own c)) m (f 0 (Some ?i))" .
  obtain k where k: "os_calloc K (kst s) = (True, k)"
    using K by (metis (full_types) works_def prod.collapse)
  have "co_create K tid True fn a s = Inr (0, Some ?i, with_new_task (os_arch K) ep env ?i fn a k s)"
    using ne k by (simp add: co_create_eq [OF th c(1)])
  with created_held [where ar = "os_arch K" and k = k and a = a, OF so cur h pos free m(1) f code [of fn a]]
  show ?thesis by (auto simp: fares_def)
qed

section \<open>Turns\<close>

lemma resume_fares:
  assumes ok: "config_ok (s, C)" and th: "thread_has s tid ep" and cur: "is_current s ep env c t"
    and K: "works K" and h: "held B own spare (s, C)" and code: "\<And>fn a. structured B {} (B fn) (code fn a)"
    and C: "C c = Some k"
  shows "fares B s ep env c (resume K code tid c k s C)"
proof -
  have so: "state_ok s" and al: "alive s" using ok by (simp_all add: config_but_def)
  have st: "kont_structured B (own c) (spare c) k" by (rule heldD(1) [OF h C])
  note cx = so th cur al K h
  show ?thesis
  proof (cases k)
    case (KUser p)
    note C' = C [unfolded KUser]
    show ?thesis
    proof (cases p)
      case (Sleep n q)
      from sleep_fares [OF cx C' [unfolded Sleep]] show ?thesis by (simp add: KUser Sleep)
    next
      case (Create fn a f)
      from create_fares [OF ok th cur K h code C' [unfolded Create]] show ?thesis by (simp add: KUser Create)
    next
      case (Join cid q)
      with st KUser have "structured B (own c) (spare c) (Join cid q)" by simp
      from join_fares [OF ok th cur K h this] show ?thesis
        by (simp add: KUser Join co_join_def thread_has_get [OF th] bnd_assoc split_def cong: if_cong)
    next
      case Return
      from return_fares [OF cx C' [unfolded Return]] show ?thesis by (simp add: KUser Return)
    qed (use st KUser in \<open>simp_all add: structured_simps\<close>)
  next
    case (KJoin e cid q)
    have "belongs s c e" using ok C KJoin unfolding config_but_def by fastforce
    then have e: "e = ep" using is_currentD(3,6) [OF so cur] by (simp add: belongs_def)
    from st KJoin have "structured B (own c) (spare c) (Join cid q)" by simp
    from join_fares [OF ok th cur K h this] show ?thesis by (simp add: KJoin e)
  next
    case KDead
    with heldD(4) [OF h, of c] C obtain tc where "heap s c = Some tc" "status tc = COROUTINE_EXIT" by auto
    with alive_current [OF al cur] cur show ?thesis by (auto simp: is_current_def)
  qed (use st in simp_all)
qed

lemma env_total:
  assumes "0 \<le> tid" and "works K"
  shows "\<exists>ep s'. co_get_thread_env K tid s = Inr (ep, s')"
proof -
  have slot: "tid_slot tid = Inr (nat tid mod MAX_THREAD_NUM)" by (rule tid_slot_nonneg [OF assms(1)])
  show ?thesis
  proof (cases "g_thread_env_arr s (nat tid mod MAX_THREAD_NUM)")
    case (Some ep)
    with slot show ?thesis by (simp add: co_get_thread_env_def)
  next
    case None
    obtain k1 where k1: "os_calloc K (kst s) = (True, k1)" using assms(2) by (metis (full_types) works_def prod.collapse)
    obtain k2 where k2: "os_calloc K k1 = (True, k2)" using assms(2) by (metis (full_types) works_def prod.collapse)
    obtain fd k3 where k3: "os_epoll_create K k2 = (fd, k3)" by fastforce
    show ?thesis
      using slot None k1 k2 k3
      by (simp add: co_get_thread_env_def calloc_env_def calloc_task_def syscall_def put_elem_def
        nonnull_def mod_env_def mod_task_def get_env_def get_task_def init_queues_heads dom_def)
  qed
qed

text \<open>The main coroutine of a new thread is held by nobody and holds nobody.\<close>

lemma owned_first:
  assumes own: "owned own sh" and m: "sh m = None"
  shows "owned (own(m := {})) (sh(m \<mapsto> (e0, 0)))" (is "owned ?own ?sh")
proof -
  note o = ownedD [OF own]
  have "0 < i \<and> (\<exists>q > p. ?sh q = Some (e, i))" if "?sh p = Some (e, j)" "i \<in> ?own p" for p e j i
  proof -
    have "sh p = Some (e, j)" "i \<in> own p" using that by (auto split: if_splits)
    from o(1) [OF this] obtain q where "0 < i" "p < q" "sh q = Some (e, i)" by blast
    moreover have "q \<noteq> m" using calculation(3) m by auto
    ultimately show ?thesis by (intro conjI exI [of _ q]) simp_all
  qed
  moreover have "\<exists>p j. ?sh p = Some (e, j) \<and> i \<in> ?own p" if "?sh q = Some (e, i)" "0 < i" for q e i
  proof -
    have "sh q = Some (e, i)" using that by (auto split: if_splits)
    from o(2) [OF this that(2)] obtain p j' where p: "sh p = Some (e, j')" "i \<in> own p" by blast
    moreover have "p \<noteq> m" using p(1) m by auto
    ultimately show ?thesis by (intro exI [of _ p] exI [of _ j']) simp
  qed
  moreover have "p = p'" if "?sh p = Some (e, j1)" "?sh p' = Some (e, j2)" "i \<in> ?own p" "i \<in> ?own p'"
    for p p' e j1 j2 i
    by (rule o(3) [of p e j1 p' j2 i]) (use that in \<open>auto split: if_splits\<close>)
  ultimately show ?thesis unfolding owned_def by blast
qed

text \<open>It holds all the free slots of its table.\<close>

lemma first_held:
  assumes so: "state_ok s" and h: "held B own spare (s, C)" and p: "structured B {} (NR_TASKS - 1) p"
  shows "held B (own(brk s + 1 := {})) (spare(brk s + 1 := NR_TASKS - 1))
    (with_new_env slot fd k s, C(brk s + 1 \<mapsto> KUser p))" (is "held B ?own ?spare (?s, ?C)")
proof -
  let ?m = "brk s + 1"
  have fresh: "heap s ?m = None" using state_ok_heap [OF so, of ?m] by (cases "heap s ?m") auto
  have no: "envs s (brk s) = None" using state_ok_env [OF so, of "brk s"] by (cases "envs s (brk s)") auto
  have heap: "heap ?s = (heap s)(?m \<mapsto> zero_task\<lparr>thread_env := Some (brk s)\<rparr>)" by (simp add: with_new_env_def)
  have sh: "shape ?s = (shape s)(?m \<mapsto> (Some (brk s), 0))" by (auto simp: shape_def heap zero_task_def)
  have tb: "table ?s = (table s)(brk s \<mapsto> [0 \<mapsto> ?m])" by (auto simp: table_def with_new_env_def)
  have shm: "shape s ?m = None" using fresh by (simp add: shape_def)
  have "owned ?own (shape ?s)" unfolding sh by (rule owned_first [OF heldD(5) [OF h] shm])
  moreover have "T 0 \<noteq> None \<and> need ?spare T \<le> NR_TASKS" if T: "table ?s e = Some T" for e T
  proof (cases "e = brk s")
    case True
    with T show ?thesis by (auto simp: tb need_def NR_TASKS_def)
  next
    case False
    with T have T': "table s e = Some T" by (simp add: tb)
    then obtain env where E: "envs s e = Some env" "task env = T" by (auto simp: table_Some)
    have "T i \<noteq> Some ?m" for i using state_ok_entry [OF so E(1), of i ?m] E(2) fresh by fastforce
    with roomyD [OF heldD(6) [OF h] T'] show ?thesis by (simp add: need_other)
  qed
  then have "roomy ?spare (table ?s)" unfolding roomy_def by blast
  moreover have "tidy ?s ?C" using heldD(2-4) [OF h] fresh by (auto simp: tidy_def heap zero_task_def)
  moreover have "kont_structured B (?own x) (?spare x) k" if "?C x = Some k" for x k
    using that p heldD(1) [OF h, of x k] by (auto split: if_splits)
  ultimately show ?thesis unfolding held_def by simp
qed

lemma entered:
  assumes ok: "config_ok (s, C)" and h: "held B own spare (s, C)" and d: "disciplined B code mains"
    and e: "co_get_thread_env K tid s = Inr (ep, s1)"
  obtains own1 spare1 env c t C1 where "config_ok (s1, C1)" "thread_has s1 tid ep"
    "is_current s1 ep env c t" "held B own1 spare1 (s1, C1)" "C1 c = Some (resumed mains tid C c)"
    "turn K code mains tid (s, C) = resume K code tid c (resumed mains tid C c) s1 C1"
    "s1 = s \<or> \<not> thread_has s tid ep"
  using ok e
proof (rule entered_ok [where mains = mains and code = code])
  fix env c t C1
  assume g: "config_ok (s1, C1)" "thread_has s1 tid ep" "is_current s1 ep env c t"
    "C1 c = Some (resumed mains tid C c)"
    "turn K code mains tid (s, C) = resume K code tid c (resumed mains tid C c) s1 C1"
    and new: "s1 = s \<and> C1 = C \<or>
     \<not> thread_has s tid ep \<and> ep = brk s \<and> (\<exists>slot fd k. s1 = with_new_env slot fd k s) \<and>
     c = brk s + 1 \<and> C1 = C(c \<mapsto> KUser (mains tid))"
  have "state_ok s" "structured B {} (NR_TASKS - 1) (mains tid)"
    using ok d by (simp_all add: config_but_def disciplined_def)
  note first = first_held [OF this(1) h this(2)]
  show thesis using new
  proof (elim disjE conjE exE)
    assume eq: "s1 = s" "C1 = C"
    have "held B own spare (s1, C1)" by (simp add: eq h)
    from that [OF g(1-3) this g(4,5)] eq show thesis by simp
  next
    fix slot fd k
    assume eq: "s1 = with_new_env slot fd k s" "c = brk s + 1" "C1 = C(c \<mapsto> KUser (mains tid))"
      and n: "\<not> thread_has s tid ep"
    have "held B (own(c := {})) (spare(c := NR_TASKS - 1)) (s1, C1)" unfolding eq by (rule first)
    from that [OF g(1-3) this g(4,5)] n show thesis by simp
  qed
qed

lemma turn_outcome:
  assumes ok: "config_ok (s, C)" and h: "held B own spare (s, C)" and d: "disciplined B code mains"
    and K: "works K" and e: "co_get_thread_env K tid s = Inr (ep, s1)"
  shows "(\<exists>w own spare. turn K code mains tid (s, C) = Inr w \<and> held B own spare w) \<or>
    turn K code mains tid (s, C) = Inl Hang \<and>
    (\<forall>ep env c t i. thread_has s tid ep \<longrightarrow> is_current s ep env c t \<longrightarrow> running_at s ep i \<longrightarrow> task env i = Some c)"
proof -
  obtain own1 spare1 env c t C1 where g: "config_ok (s1, C1)" "thread_has s1 tid ep"
    "is_current s1 ep env c t" "held B own1 spare1 (s1, C1)" "C1 c = Some (resumed mains tid C c)"
    "turn K code mains tid (s, C) = resume K code tid c (resumed mains tid C c) s1 C1"
    "s1 = s \<or> \<not> thread_has s tid ep"
    by (rule entered [OF ok h d e])
  have code: "structured B {} (B fn) (code fn a)" for fn a using d by (simp add: disciplined_def)
  have f: "fares B s1 ep env c (turn K code mains tid (s, C))"
    unfolding g(6) by (rule resume_fares [OF g(1-3) K g(4) code g(5)])
  show ?thesis
  proof (cases "turn K code mains tid (s, C)")
    case (Inr w)
    with f show ?thesis by (simp add: fares_def)
  next
    case (Inl x)
    with f have x: "x = Hang" "\<forall>i. running_at s1 ep i \<longrightarrow> task env i = Some c" by (simp_all add: fares_def)
    have "task env' i = Some c'"
      if a: "thread_has s tid ep'" "is_current s ep' env' c' t'" "running_at s ep' i" for ep' env' c' t' i
    proof -
      have "ep' = ep" using thread_has_get [OF a(1), of K] e by simp
      with a(1) g(7) have "s1 = s" by blast
      with a(2,3) g(3) x(2) \<open>ep' = ep\<close> show ?thesis by (auto simp: is_current_def)
    qed
    with Inl x(1) show ?thesis by blast
  qed
qed

lemma reachable_held:
  assumes "reachable K code mains w" and d: "disciplined B code mains" and K: "works K"
  shows "\<exists>own spare. held B own spare w"
  using assms(1)
proof (induction rule: reachable.induct)
  case (start k)
  have "held B (\<lambda>_. {}) (\<lambda>_. 0) (init_state k, \<lambda>_. None)"
    by (simp add: held_def tidy_def owned_def roomy_def shape_def table_def init_state_def)
  then show ?case by blast
next
  case (further w w')
  then obtain own spare where h: "held B own spare (fst w, snd w)" by auto
  obtain tid where t: "turn K code mains tid (fst w, snd w) = Inr w'" using further(2) by (auto elim: stepE)
  then obtain ep s1 where "co_get_thread_env K tid (fst w) = Inr (ep, s1)"
    by (cases w) (auto simp: turn_def elim!: bnd_InrE)
  from turn_outcome [OF _ h d K this] reachable_ok [OF further(1)] t show ?case by auto
qed

text \<open>When the main program of a thread returns, all its coroutines have been joined.\<close>

lemma no_orphans:
  assumes so: "state_ok s" and h: "held B own spare (s, C)"
    and m: "heap s p = Some t" "tsk_id t = 0" "own p = {}"
  shows "shape s q = Some (thread_env t, i) \<Longrightarrow> i = 0"
proof (induction q arbitrary: i rule: less_induct)
  case (less q)
  show ?case
  proof (rule ccontr)
    assume "i \<noteq> 0"
    then have i: "0 < i" by simp
    obtain r j where r: "shape s r = Some (thread_env t, j)" "i \<in> own r"
      using ownedD(2) [OF heldD(5) [OF h] less.prems i] by blast
    obtain q' where "r < q'" "shape s q' = Some (thread_env t, i)"
      using ownedD(1) [OF heldD(5) [OF h] r] by blast
    then have "r < q" using shape_inj [OF so less.prems] by blast
    from less.IH [OF this r(1)] have "j = 0" .
    then have "r = p" using shape_inj [OF so r(1), of p] m(1,2) by (simp add: shape_def)
    with r(2) m(3) show False by simp
  qed
qed

lemma main_alone:
  assumes so: "state_ok s" and h: "held B own spare (s, C)" and C: "C p = Some (KUser Return)"
    and m: "heap s p = Some t" "tsk_id t = 0"
  shows "\<exists>ep env. thread_env t = Some ep \<and> envs s ep = Some env \<and> task env = [0 \<mapsto> p] \<and> task_count env = 1"
proof -
  obtain ep env where e: "thread_env t = Some ep" "envs s ep = Some env" "task env (tsk_id t) = Some p"
    by (rule state_ok_task [OF so m(1)])
  have none: "own p = {}" using heldD(1) [OF h C] by (simp add: structured_simps)
  have "i = 0" if "task env i = Some q" for i q
    using no_orphans [OF so h m none, of q i] that e(1,2) by (simp add: shape_entry [OF so])
  then have T: "task env = [0 \<mapsto> p]"
    using e(3) m(2) by (intro ext) (metis fun_upd_apply not_None_eq)
  have "task_count env = int (card (dom (task env)))"
    using state_ok_env [OF so e(2)] unfolding env_ok_def by blast
  with e T show ?thesis by simp
qed

section \<open>The example demo01\<close>

lemma structured_sleep_loop:
  "fits_int (1000 * d) \<Longrightarrow> structured B S m p \<Longrightarrow> structured B S m (sleep_loop i d p)"
  by (induction i) (simp_all add: structured_simps)

lemma structured_create:
  assumes "0 < m" and "\<And>i. 0 < i \<Longrightarrow> i \<notin> S \<Longrightarrow> structured (\<lambda>_. 0) (insert i S) (m - 1) (f 0 (Some i))"
  shows "structured (\<lambda>_. 0) S m (Create fn a f)"
  using assms by (auto simp: structured_simps intro!: exI [of _ "m - 1"])

lemma fits_second: "n \<in> {1, 3, 4} \<Longrightarrow> fits_int (1000 * n)"
  by (auto simp: fits_int_def)

lemma demo01_disciplined: "disciplined (\<lambda>_. 0) demo01_code (demo01_mains t0 info junk)"
proof -
  note rules = structured_sleep_loop structured_create structured.Join structured.Return fits_second
  have "structured (\<lambda>_. 0) {} 0 (demo01_code fn a)" for fn a
    unfolding demo01_code_def fun1_def fun2_def fun3_def fun4_def fun5_def
    by (simp only: if_split) (intro conjI impI rules; simp)
  moreover have "structured (\<lambda>_. 0) {} 10239 (demo01_main info junk)"
    unfolding demo01_main_def by (intro rules) (auto simp: id_or_def insert_Diff_if structured_simps)
  moreover have "structured (\<lambda>_. 0) {} 10239 (th_fn junk)"
    unfolding th_fn_def by (intro rules) (auto simp: id_or_def insert_Diff_if structured_simps)
  ultimately show ?thesis by (simp add: disciplined_def demo01_mains_def NR_TASKS_def)
qed


text \<open>A process in which the main program of \<open>demo01\<close> has created its first coroutine.\<close>

definition ex_demo01 :: "nat co_state" where
  "ex_demo01 = with_new_task X86_64 0 ex0_env 1 1 0 0 ex0"

definition ex_demo01_konts :: konts where
  "ex_demo01_konts = [1 \<mapsto> KUser (Create 2 0 (\<lambda>_ tid2. Create 3 0 (\<lambda>_ tid3.
     sleep_loop 2 3 (Join 1 (Join (id_or 0 tid2) (Join (id_or 0 tid3) Return)))))),
     2 \<mapsto> KUser fun1]"

lemma ex_demo01_first:
  "turn ex_os demo01_code (demo01_mains 1 0 0) 1 (init_state 0, \<lambda>_. None) = Inr (ex_demo01, ex_demo01_konts)"
proof -
  have c: "envs ex0 0 = Some ex0_env" "current ex0_env = Some 1"
    using ex0_current by (simp_all add: is_current_def)
  have "co_create ex_os 1 True 1 0 ex0 = Inr (0, Some 1, ex_demo01)"
    using co_create_eq [OF ex0_thread c(1), of ex_os True 1 0]
    unfolding ex0_slot ex_demo01_def by (simp add: ex_os_def NR_TASKS_def ex0_fields)
  with c show ?thesis
    by (simp add: turn_def ex0_created get_env_def nonnull_def demo01_mains_def demo01_main_def
        demo01_code_def ex0_fields fun_eq_iff ex_demo01_konts_def id_or_def)
qed

lemma ex_os_works: "works ex_os"
  by (simp add: works_def ex_os_def)

text \<open>Another coroutine of the thread than the current one can run.\<close>

definition another_runs :: "'k co_state \<Rightarrow> int \<Rightarrow> bool" where
  "another_runs s tid \<longleftrightarrow>
     (\<exists>ep env c t i p. thread_has s tid ep \<and> is_current s ep env c t \<and>
        task env i = Some p \<and> p \<noteq> c \<and> running_at s ep i)"

lemma another_runsI:
  assumes "thread_has s tid ep" and "is_current s ep env c t" and "task env i = Some p" and "p \<noteq> c"
    and "running_at s ep i"
  shows "another_runs s tid"
  using assms unfolding another_runs_def by blast

lemma disciplined_turn:
  assumes d: "disciplined B code mains" and K: "works K" and r: "reachable K code mains (s, C)"
    and tid: "0 \<le> tid"
  shows "(\<exists>w. turn K code mains tid (s, C) = Inr w) \<or>
    turn K code mains tid (s, C) = Inl Hang \<and> \<not> another_runs s tid"
proof -
  have ok: "config_ok (s, C)" by (rule reachable_ok [OF r])
  obtain own spare where h: "held B own spare (s, C)" using reachable_held [OF r d K] by blast
  obtain ep s1 where "co_get_thread_env K tid s = Inr (ep, s1)" using env_total [OF tid K] by blast
  from turn_outcome [OF ok h d K this] show ?thesis unfolding another_runs_def by fastforce
qed

lemma disciplined_end:
  assumes d: "disciplined B code mains" and K: "works K" and r: "reachable K code mains (s, C)"
    and m: "heap s p = Some t" "tsk_id t = 0" "C p = Some (KUser Return)"
  shows "\<exists>ep env. thread_env t = Some ep \<and> envs s ep = Some env \<and> task env = [0 \<mapsto> p] \<and> task_count env = 1"
proof -
  have so: "state_ok s" using reachable_ok [OF r] by (simp add: config_but_def)
  obtain own spare where h: "held B own spare (s, C)" using reachable_held [OF r d K] by blast
  show ?thesis by (rule main_alone [OF so h m(3,1,2)])
qed

lemma demo_disciplined: "disciplined (\<lambda>_. 0) demo_code demo_main"
  by (simp add: disciplined_def demo_code_def demo_main_def structured_simps NR_TASKS_def)

lemma ex2_another: "another_runs ex2 1"
  by (rule another_runsI [OF ex2_thread ex2_current _ _ ex2_running, of 1]) (simp_all add: ex1_entry)

section \<open>Properties\<close>

text \<open>
  C11: Disciplined programs never make the library fault, as long as memory can be allocated and
  the clock can be read: a turn of a thread goes on, or waits for the clock when every other
  coroutine of the thread sleeps or has finished.
\<close>

theorem structured_never_faults:
  assumes "disciplined B code mains" and "works K" and "reachable K code mains (s, C)" and "0 \<le> tid"
  shows "(\<exists>w. turn K code mains tid (s, C) = Inr w) \<or>
    turn K code mains tid (s, C) = Inl Hang \<and> \<not> another_runs s tid"
  by (rule disciplined_turn [OF assms])

theorem structured_never_faults_witness:
  "\<exists>w. turn ex_os demo_code demo_main 1 (ex2, [1 \<mapsto> KJoin 0 1 Return, 2 \<mapsto> KUser Return]) = Inr w"
proof -
  have r: "reachable ex_os demo_code demo_main (ex2, [1 \<mapsto> KJoin 0 1 Return, 2 \<mapsto> KUser Return])"
    using demo_reachable(2) unfolding demo_w_simps .
  from structured_never_faults [OF demo_disciplined ex_os_works r, of 1] ex2_another show ?thesis by auto
qed

text \<open>
  C13: demo01 runs clean: no turn of its threads faults, and a thread waits only for the clock
  when all its other coroutines sleep or have finished; when main or th_fn has returned, all its
  coroutines have been joined.
\<close>

theorem demo01_runs_clean:
  assumes "works K" and "reachable K demo01_code (demo01_mains t0 info junk) (s, C)" and "0 \<le> tid"
  shows "((\<exists>w. turn K demo01_code (demo01_mains t0 info junk) tid (s, C) = Inr w) \<or>
      turn K demo01_code (demo01_mains t0 info junk) tid (s, C) = Inl Hang \<and> \<not> another_runs s tid) \<and>
    (\<forall>p t. heap s p = Some t \<longrightarrow> tsk_id t = 0 \<longrightarrow> C p = Some (KUser Return) \<longrightarrow>
       (\<exists>ep env. thread_env t = Some ep \<and> envs s ep = Some env \<and> task env = [0 \<mapsto> p] \<and> task_count env = 1))"
  using disciplined_turn [OF demo01_disciplined assms] disciplined_end [OF demo01_disciplined assms(1,2)]
  by blast

theorem demo01_runs_clean_witness:
  "\<exists>w. turn ex_os demo01_code (demo01_mains 1 0 0) 1 (ex_demo01, ex_demo01_konts) = Inr w"
proof -
  have r: "reachable ex_os demo01_code (demo01_mains 1 0 0) (ex_demo01, ex_demo01_konts)"
    using reachable.start step.turn [OF ex_demo01_first] by (rule reachable.further)
  have env: "envs ex_demo01 0 = Some ex1_env"
    by (simp add: ex_demo01_def with_new_task_def ex1_env_def ex0_env_def ex0_fields)
  have th: "thread_has ex_demo01 1 0" using ex0_thread by (simp add: thread_has_def ex_demo01_def with_new_task_def)
  have "state_ok ex_demo01" using reachable_ok [OF r] by (simp add: config_but_def)
  from running_at_ok [OF this env, of 1] have run: "running_at ex_demo01 0 1"
    by (simp add: ex1_entry [simplified] ex_demo01_def with_new_task_def ex0_fields)
  have cur: "is_current ex_demo01 0 ex1_env 1 ex0_main"
    using env by (simp add: is_current_def ex1_env_def) (simp add: ex_demo01_def with_new_task_def ex0_fields)
  have "another_runs ex_demo01 1"
    by (rule another_runsI [OF th cur _ _ run, of 2]) (simp_all add: ex1_entry [simplified])
  with demo01_runs_clean [OF ex_os_works r, of 1] show ?thesis by auto
qed

end
