(* ===== verification/Finishing.thy ===== *)
theory Finishing
  imports Structured "HOL-Library.Multiset"
begin

text \<open>
  Disciplined programs that are finite come to an end: a thread that is given turns for ever, and
  none of whose coroutines sleeps for ever, reaches the end of its main program.
\<close>

section \<open>Finite programs\<close>

text \<open>A program that ends, together with everything it creates, whatever the calls return.\<close>

inductive ends :: "(voidp \<Rightarrow> voidp \<Rightarrow> prog) \<Rightarrow> prog \<Rightarrow> bool" for code where
  Sleep: "ends code p \<Longrightarrow> ends code (Sleep n p)"
| Create: "(\<And>r out. ends code (f r out)) \<Longrightarrow> ends code (code fn a) \<Longrightarrow> ends code (Create fn a f)"
| Join: "ends code p \<Longrightarrow> ends code (Join cid p)"
| Return: "ends code Return"

inductive_simps ends_simps [simp]:
  "ends code (Sleep n p)" "ends code (Create fn a f)" "ends code (Join cid p)"
  "ends code (Accept fd g)" "ends code (Read fd len g)" "ends code (Write fd len h)"
  "ends code EventLoop" "ends code (Abort n)" "ends code Return"

fun follows :: "(voidp \<Rightarrow> voidp \<Rightarrow> prog) \<Rightarrow> prog \<Rightarrow> prog set" where
  "follows code (Sleep n p) = {p}"
| "follows code (Create fn a f) = insert (code fn a) {p. \<exists>r out. p = f r out}"
| "follows code (Join cid p) = {p}"
| "follows code _ = {}"

definition after :: "(voidp \<Rightarrow> voidp \<Rightarrow> prog) \<Rightarrow> (prog \<times> prog) set" where
  "after code = {(q, p). ends code p \<and> q \<in> follows code p}"

lemma wf_after: "wf (after code)"
proof -
  have "p \<in> Wellfounded.acc (after code)" if "ends code p" for p
    using that by induction (rule accI; auto simp: after_def)+
  moreover have "ends code q" if "ends code p" "q \<in> follows code p" for p q
    using that by cases auto
  ultimately have "p \<in> Wellfounded.acc (after code)" for p
    by (intro accI [of p]) (auto simp: after_def)
  then show ?thesis by (simp add: wf_iff_acc)
qed

section \<open>What is left to do\<close>

fun prog_at :: "kont \<Rightarrow> prog" where
  "prog_at (KUser p) = p"
| "prog_at (KJoin ep cid p) = Join cid p"
| "prog_at _ = Return"

definition live :: "konts \<Rightarrow> taskp set" where
  "live C = {p. C p \<noteq> None \<and> C p \<noteq> Some KDead}"

definition left :: "konts \<Rightarrow> prog multiset" where
  "left C = image_mset (\<lambda>p. prog_at (the (C p))) (mset_set (live C))"

lemma left_cong:
  assumes "live C' = live C" and "\<And>p. p \<in> live C \<Longrightarrow> prog_at (the (C' p)) = prog_at (the (C p))"
  shows "left C' = left C"
  unfolding left_def assms(1) using assms(2)
  by (intro image_mset_cong) (metis elem_mset_set empty_iff infinite_set_mset_mset_set)

lemma left_decreases:
  assumes fin: "finite (live C)" "finite N" and c: "c \<in> live C"
    and live: "live C' = live C - {c} \<union> N" "N \<inter> (live C - {c}) = {}"
    and old: "\<And>p. p \<in> live C - {c} \<Longrightarrow> C' p = C p"
    and new: "\<And>p. p \<in> N \<Longrightarrow> (prog_at (the (C' p)), prog_at (the (C c))) \<in> after code"
  shows "(left C', left C) \<in> mult (after code)"
proof -
  let ?f = "\<lambda>C p. prog_at (the (C p))"
  let ?I = "image_mset (?f C) (mset_set (live C - {c}))"
  have "mset_set (live C) = mset_set (live C - {c}) + {#c#}"
    using mset_set.remove [OF fin(1) c] by simp
  then have 1: "left C = ?I + {#?f C c#}" by (simp add: left_def)
  have "mset_set (live C') = mset_set (live C - {c}) + mset_set N"
    unfolding live(1) using fin live(2) by (intro mset_set_Union) auto
  then have "left C' = image_mset (?f C') (mset_set (live C - {c})) + image_mset (?f C') (mset_set N)"
    by (simp add: left_def)
  also have "image_mset (?f C') (mset_set (live C - {c})) = ?I"
    using fin(1) old by (intro image_mset_cong) simp
  finally have 2: "left C' = ?I + image_mset (?f C') (mset_set N)" .
  show ?thesis unfolding 1 2
    by (rule one_step_implies_mult) (use fin(2) new in auto)
qed

section \<open>What a turn achieves\<close>

text \<open>The current coroutine joins one that has not finished: it only calls \<open>schedule\<close>.\<close>

definition waits ::
  "'k os \<Rightarrow> int \<Rightarrow> envp \<Rightarrow> thread_env_t \<Rightarrow> taskp \<Rightarrow> 'k co_state \<Rightarrow> konts \<Rightarrow> 'k co_state \<Rightarrow> konts \<Rightarrow> bool" where
  "waits K tid ep env c s C s' C' \<longleftrightarrow>
     schedule K tid s = Inr s' \<and>
     (\<exists>cid p q t. prog_at (the (C c)) = Join cid p \<and> C' = C(c \<mapsto> KJoin ep cid p) \<and>
        0 \<le> cid \<and> task env (nat cid) = Some q \<and> heap s q = Some t \<and> status t \<noteq> COROUTINE_EXIT)"

definition achieves ::
  "'k os \<Rightarrow> (voidp \<Rightarrow> voidp \<Rightarrow> prog) \<Rightarrow> int \<Rightarrow> envp \<Rightarrow> thread_env_t \<Rightarrow> taskp \<Rightarrow> task_struct_t \<Rightarrow>
   'k co_state \<Rightarrow> konts \<Rightarrow> 'k co_state \<Rightarrow> konts \<Rightarrow> bool" where
  "achieves K code tid ep env c t s C s' C' \<longleftrightarrow>
     g_thread_env_arr s' = g_thread_env_arr s \<and>
     ((left C', left C) \<in> mult (after code) \<or> C c = Some (KUser Return) \<and> tsk_id t = 0 \<or>
      waits K tid ep env c s C s' C')"

lemma live_finite:
  assumes "config_ok (s, C)"
  shows "finite (live C)"
proof -
  have "live C \<subseteq> {..<brk s}"
  proof
    fix p assume "p \<in> live C"
    then have "p \<in> dom (heap s)" using assms by (auto simp: live_def config_but_def)
    moreover have "state_ok s" using assms by (simp add: config_but_def)
    ultimately show "p \<in> {..<brk s}" using state_ok_heap by blast
  qed
  then show ?thesis by (rule finite_subset) simp
qed

lemma schedule_arr:
  assumes "state_ok s" and "thread_has s tid ep" and "is_current s ep env c t" and "schedule K tid s = Inr s'"
  shows "g_thread_env_arr s' = g_thread_env_arr s"
  by (rule schedule_rescheduled [OF assms]) (simp add: rescheduled_frame)

lemma next_decreases:
  assumes ok: "config_ok (s, C)" and c: "c \<in> live C" and q: "q \<in> follows code (prog_at (the (C c)))"
    and e: "ends code (prog_at (the (C c)))"
  shows "(left (C(c \<mapsto> KUser q)), left C) \<in> mult (after code)"
  by (rule left_decreases [OF live_finite [OF ok], where c = c and N = "{c}"])
    (use c q e in \<open>auto simp: live_def after_def\<close>)

lemma join_achieves:
  assumes ok: "config_ok (s, C)" and th: "thread_has s tid ep" and cur: "is_current s ep env c t"
    and c: "c \<in> live C" and k: "prog_at (the (C c)) = Join cid p" and e: "ends code (Join cid p)"
    and j: "co_join_turn K tid ep cid s = Inr (fin, s')"
    and C': "C' = (\<lambda>q. if heap s' q = None then None else (C(c \<mapsto> if fin then KUser p else KJoin ep cid p)) q)"
  shows "achieves K code tid ep env c t s C s' C'"
proof -
  have so: "state_ok s" and al: "alive s" using ok by (simp_all add: config_but_def)
  note cu = is_currentD [OF so cur]
  obtain q where cid: "0 \<le> cid" "cid < int NR_TASKS" "task env (nat cid) = Some q"
    using j cu(1) by (auto simp: co_join_turn_def get_env_def elim!: bnd_InrE split: if_splits)
  obtain tq where tq: "heap s q = Some tq" by (rule state_ok_entry [OF so cu(1) cid(3)])
  note eq = co_join_turn_eq [OF cu(1) cid tq, of K tid]
  have dom: "heap s x = None \<longleftrightarrow> C x = None" for x
    using ok by (auto simp: config_but_def)
  show ?thesis
  proof (cases "status tq = COROUTINE_EXIT")
    case True
    with j eq have s': "fin" "s' = without_task ep env (nat cid) q s" by auto
    have dead: "C q = Some KDead" using ok tq True unfolding config_but_def by auto
    have h: "heap s' = (heap s)(q := None)" by (simp add: s' without_task_def)
    have "(left C', left C) \<in> mult (after code)"
    proof (rule left_decreases [OF live_finite [OF ok], where c = c and N = "{c}"])
      have old: "C' x = (if x = q then None else (C(c \<mapsto> KUser p)) x)" for x
        using dom [of x] dom [of c] c by (auto simp: C' h s'(1) live_def)
      show "live C' = live C - {c} \<union> {c}" using c dead by (auto simp: live_def old)
      show "C' x = C x" if "x \<in> live C - {c}" for x using that dead by (auto simp: live_def old)
      show "(prog_at (the (C' x)), prog_at (the (C c))) \<in> after code" if "x \<in> {c}" for x
        using that c dead k e by (auto simp: live_def old after_def)
    qed (use c in auto)
    then show ?thesis by (simp add: achieves_def s'(2)) (simp add: without_task_def)
  next
    case False
    with j eq have s': "\<not> fin" "schedule K tid s = Inr s'" by (auto simp: bnd_eq_Inr)
    have "dom (heap s') = dom (heap s)"
      using schedule_effect [OF so th cur alive_weaken [OF al] s'(2), where W = False] by (simp add: effect_def)
    then have "heap s' x = None \<longleftrightarrow> C x = None" for x unfolding dom [symmetric] by (metis domIff)
    then have "C' = C(c \<mapsto> KJoin ep cid p)"
      using c s'(1) by (intro ext) (auto simp: C' live_def)
    with s' k cid(1,3) tq False have "waits K tid ep env c s C s' C'" by (auto simp: waits_def)
    with schedule_arr [OF so th cur s'(2)] show ?thesis by (simp add: achieves_def)
  qed
qed

lemma sleep_achieves:
  assumes so: "state_ok s" and th: "thread_has s tid ep" and cur: "is_current s ep env c t"
    and s': "co_sleep K tid n s = Inr s'"
  shows "g_thread_env_arr s' = g_thread_env_arr s"
proof -
  obtain now where now: "ms_at K (kst s) 0 = Some now"
    using s' by (auto simp: co_sleep_eq [OF th cur] split: option.splits)
  note a = asleep_ok [OF so th cur, of K now n]
  have "schedule K tid (asleep K s c t now n) = Inr s'"
    using s' co_sleep_asleep [OF th cur now co_sleep_faults [OF th cur s']] by simp
  from schedule_arr [OF a(1-3) this] show ?thesis by (simp add: asleep_def)
qed

lemma finish_achieves:
  assumes so: "state_ok s" and th: "thread_has s tid ep" and cur: "is_current s ep env c t"
    and s': "start_finish K tid c s = Inr s'"
  shows "g_thread_env_arr s' = g_thread_env_arr s"
proof -
  obtain s1 where s1: "start_cleanup K c s = Inr s1" "schedule K tid s1 = Inr s'"
    using s' unfolding start_finish_def by (rule bnd_InrE)
  have sim: "same_tasks s s1" using start_cleanup_Inr [OF is_currentD(3) [OF so cur] s1(1)] by simp
  obtain t1 where "is_current s1 ep env c t1" by (rule same_tasks_current [OF sim cur])
  from schedule_arr [OF state_ok_same_tasks [OF sim so] _ this s1(2)] th sim
  show ?thesis by (simp add: same_tasks_thread) (simp add: same_tasks_def)
qed

lemma create_achieves:
  assumes ok: "config_ok (s, C)" and th: "thread_has s tid ep" and cur: "is_current s ep env c t"
    and C: "C c = Some (KUser (Create fn a f))" and e: "ends code (Create fn a f)"
    and cr: "co_create K tid nn fn a s = Inr (ret, out, s')"
    and C': "C' = (if ret = 0 then C(c \<mapsto> KUser (f ret out), brk s \<mapsto> KUser (code fn a)) else C(c \<mapsto> KUser (f ret out)))"
  shows "achieves K code tid ep env c t s C s' C'"
proof -
  have so: "state_ok s" using ok by (simp add: config_but_def)
  have hc: "heap s c = Some t" using cur by (simp add: is_current_def)
  have c: "c \<in> live C" using C by (simp add: live_def)
  have arr: "g_thread_env_arr s' = g_thread_env_arr s"
    using cr by (auto simp: co_create_eq [OF th is_currentD(1) [OF so cur]] with_new_task_def
        split: if_splits prod.splits)
  have "heap s (brk s) = None" using state_ok_heap [OF so, of "brk s"] by (cases "heap s (brk s)") auto
  then have fresh: "C (brk s) = None" "brk s \<noteq> c" using ok hc by (auto simp: config_but_def)
  have "(left C', left C) \<in> mult (after code)"
  proof (cases "ret = 0")
    case False
    with C' next_decreases [OF ok c, of "f ret out" code] C e show ?thesis by auto
  next
    case True
    show ?thesis
      by (rule left_decreases [OF live_finite [OF ok], where c = c and N = "{c, brk s}"])
        (use True C' c C e fresh in \<open>auto simp: live_def after_def\<close>)
  qed
  with arr show ?thesis by (simp add: achieves_def)
qed

lemma resume_achieves:
  assumes ok: "config_ok (s, C)" and th: "thread_has s tid ep" and cur: "is_current s ep env c t"
    and h: "held B own spare (s, C)" and C: "C c = Some k" and e: "ends code (prog_at k)"
    and r: "resume K code tid c k s C = Inr (s', C')"
  shows "achieves K code tid ep env c t s C s' C'"
proof -
  have so: "state_ok s" and al: "alive s" and typed: "kont_typed s c k"
    using ok C by (simp_all add: config_but_def)
  have hc: "heap s c = Some t" using cur by (simp add: is_current_def)
  have st: "kont_structured B (own c) (spare c) k" by (rule heldD(1) [OF h C])
  have "k \<noteq> KDead" using heldD(4) [OF h, of c] C hc alive_current [OF al cur] by auto
  then have c: "c \<in> live C" using C by (simp add: live_def)
  show ?thesis
    using so th cur al typed r
  proof (cases rule: resume_cases)
    case moves
    then obtain k' where m: "C' = C(c \<mapsto> k')" "continues c ep k k'" by (auto simp: moved_def)
    from m(2) consider n p where "k = KUser (Sleep n p)" "k' = KUser p" | "k = KUser Return" "k' = KUser Return"
      using st by (cases rule: continues.cases) (auto simp: structured_simps)
    then show ?thesis
    proof cases
      case 1
      with r have "co_sleep K tid n s = Inr s'" by (auto elim!: bnd_InrE)
      with sleep_achieves [OF so th cur] next_decreases [OF ok c, of p code] 1 C e m(1)
      show ?thesis by (simp add: achieves_def)
    next
      case 2
      have "tsk_id t = 0"
      proof (rule ccontr)
        assume "tsk_id t \<noteq> 0"
        with r 2 hc have "C' = C(c \<mapsto> KDead)" by (auto simp: get_task_def elim!: bnd_InrE)
        with m(1) 2 show False by (auto dest: fun_upd_eqD)
      qed
      with r 2 hc C show ?thesis by (simp add: achieves_def get_task_def)
    qed
  next
    case (creates fn a f ret out)
    with create_achieves [OF ok th cur _ _ creates(2)] C e show ?thesis by simp
  next
    case (joins cid p fin)
    then have "prog_at k = Join cid p" by auto
    with join_achieves [OF ok th cur c _ _ joins(2)] joins(3) C e show ?thesis by simp
  next
    case ends
    then have f: "start_finish K tid c s = Inr s'" "C' = C(c \<mapsto> KDead)" by simp_all
    have "(left C', left C) \<in> mult (after code)"
      by (rule left_decreases [OF live_finite [OF ok], where c = c and N = "{}"])
        (use f c in \<open>auto simp: live_def\<close>)
    with finish_achieves [OF so th cur f(1)] show ?thesis by (simp add: achieves_def)
  qed
qed

section \<open>Finite programs stay finite\<close>

fun kont_ends :: "(voidp \<Rightarrow> voidp \<Rightarrow> prog) \<Rightarrow> kont \<Rightarrow> bool" where
  "kont_ends code (KUser p) = ends code p"
| "kont_ends code (KJoin ep cid p) = ends code p"
| "kont_ends code KDead = True"
| "kont_ends code _ = False"

definition konts_end :: "(voidp \<Rightarrow> voidp \<Rightarrow> prog) \<Rightarrow> konts \<Rightarrow> bool" where
  "konts_end code C \<longleftrightarrow> (\<forall>p k. C p = Some k \<longrightarrow> kont_ends code k)"

lemma konts_end_upd: "konts_end code C \<Longrightarrow> kont_ends code k \<Longrightarrow> konts_end code (C(c \<mapsto> k))"
  by (simp add: konts_end_def)

lemma konts_end_part: "konts_end code C \<Longrightarrow> konts_end code (\<lambda>q. if Q q then None else C q)"
  by (simp add: konts_end_def)

lemma kont_ends_prog: "kont_ends code k \<Longrightarrow> ends code (prog_at k)"
  by (cases k) simp_all

lemma call_ends:
  assumes "call K code tid c p s C = Inr (s', C')" and "ends code p" and "konts_end code C"
    and "\<And>fn a. ends code (code fn a)"
  shows "konts_end code C'"
  using assms
  by (cases p)
    (auto elim!: bnd_InrE intro!: konts_end_upd konts_end_part split: sum.splits prod.splits if_splits)

lemma resume_ends:
  assumes "resume K code tid c k s C = Inr (s', C')" and "kont_ends code k" and "konts_end code C"
    and "\<And>fn a. ends code (code fn a)"
  shows "konts_end code C'"
  using assms call_ends [of K code tid c _ s C s' C']
  by (cases k)
    (auto elim!: bnd_InrE intro!: konts_end_upd konts_end_part split: option.splits if_splits)

lemma turn_ends:
  assumes t: "turn K code mains tid (s, C) = Inr (s', C')" and C: "konts_end code C"
    and code: "\<And>fn a. ends code (code fn a)" and mains: "\<And>tid. ends code (mains tid)"
  shows "konts_end code C'"
proof -
  obtain c s1 where r: "resume K code tid c (case C c of None \<Rightarrow> KUser (mains tid) | Some k \<Rightarrow> k) s1 C
      = Inr (s', C')"
    using t by (auto simp: turn_def elim!: bnd_InrE)
  have "kont_ends code (case C c of None \<Rightarrow> KUser (mains tid) | Some k \<Rightarrow> k)"
    using C mains by (auto simp: konts_end_def split: option.split)
  from resume_ends [OF r this C code] show ?thesis .
qed

lemma reachable_ends:
  assumes "reachable K code mains w"
    and "\<And>fn a. ends code (code fn a)" and "\<And>tid. ends code (mains tid)"
  shows "konts_end code (snd w)"
  using assms(1)
proof (induction rule: reachable.induct)
  case (start k)
  show ?case by (simp add: konts_end_def)
next
  case (further w w')
  obtain tid where "turn K code mains tid (fst w, snd w) = Inr (fst w', snd w')"
    using further(2) by (auto elim: stepE)
  from turn_ends [OF this further(3) assms(2,3)] show ?case .
qed

lemma turn_achieves:
  assumes r: "reachable K code mains (s, C)" and d: "disciplined B code mains" and K: "works K"
    and e: "\<And>fn a. ends code (code fn a)" "\<And>tid. ends code (mains tid)"
    and th: "thread_has s tid ep" and cur: "is_current s ep env c t"
    and t: "turn K code mains tid (s, C) = Inr (s', C')"
  shows "achieves K code tid ep env c t s C s' C'"
proof -
  have ok: "config_ok (s, C)" by (rule reachable_ok [OF r])
  obtain own spare where h: "held B own spare (s, C)" using reachable_held [OF r d K] by blast
  have "heap s c = Some t" using cur by (simp add: is_current_def)
  then obtain k where k: "C c = Some k" using ok unfolding config_but_def by auto
  have "kont_ends code k" using reachable_ends [OF r e] k by (simp add: konts_end_def)
  then have "ends code (prog_at k)" by (rule kont_ends_prog)
  moreover have "resume K code tid c k s C = Inr (s', C')" using t turn_known [where C = C, OF th cur k] by simp
  ultimately show ?thesis by (rule resume_achieves [OF ok th cur h k])
qed

section \<open>A thread that runs for ever\<close>

definition endless_run ::
  "'k os \<Rightarrow> (voidp \<Rightarrow> voidp \<Rightarrow> prog) \<Rightarrow> (int \<Rightarrow> prog) \<Rightarrow> int \<Rightarrow> envp \<Rightarrow> (nat \<Rightarrow> 'k co_state \<times> konts) \<Rightarrow> bool" where
  "endless_run K code mains tid ep w \<longleftrightarrow>
     reachable K code mains (w 0) \<and> thread_has (fst (w 0)) tid ep \<and>
     (\<forall>n. turn K code mains tid (w n) = Inr (w (Suc n)))"

definition finite_discipline ::
  "(voidp \<Rightarrow> nat) \<Rightarrow> (voidp \<Rightarrow> voidp \<Rightarrow> prog) \<Rightarrow> (int \<Rightarrow> prog) \<Rightarrow> bool" where
  "finite_discipline B code mains \<longleftrightarrow>
     disciplined B code mains \<and> (\<forall>fn a. ends code (code fn a)) \<and> (\<forall>tid. ends code (mains tid))"

lemma run_reachable:
  assumes "endless_run K code mains tid ep w"
  shows "reachable K code mains (w n)"
proof (induction n)
  case 0
  show ?case using assms by (simp add: endless_run_def)
next
  case (Suc n)
  have "step K code mains (w n) (w (Suc n))"
    using assms by (intro step.turn [where tid = tid]) (simp add: endless_run_def)
  with Suc show ?case by (rule reachable.further)
qed

lemma run_current:
  assumes run: "endless_run K code mains tid ep w" and th: "thread_has (fst (w n)) tid ep"
  obtains env c t where "is_current (fst (w n)) ep env c t"
proof -
  have so: "state_ok (fst (w n))" using reachable_ok [OF run_reachable [OF run]] by (simp add: config_but_def)
  obtain env where env: "envs (fst (w n)) ep = Some env" using thread_has_env [OF so th] by blast
  obtain c t where "current env = Some c" "heap (fst (w n)) c = Some t" by (rule state_ok_current [OF so env])
  with env that show thesis by (simp add: is_current_def)
qed

lemma run_achieves:
  assumes run: "endless_run K code mains tid ep w" and d: "finite_discipline B code mains" and K: "works K"
    and th: "thread_has (fst (w n)) tid ep" and cur: "is_current (fst (w n)) ep env c t"
  shows "achieves K code tid ep env c t (fst (w n)) (snd (w n)) (fst (w (Suc n))) (snd (w (Suc n)))"
proof (rule turn_achieves [where B = B, OF _ _ K _ _ th cur])
  show "reachable K code mains (fst (w n), snd (w n))" using run_reachable [OF run] by simp
  show "turn K code mains tid (fst (w n), snd (w n)) = Inr (fst (w (Suc n)), snd (w (Suc n)))"
    using run by (simp add: endless_run_def)
qed (use d in \<open>simp_all add: finite_discipline_def\<close>)

lemma run_thread:
  assumes run: "endless_run K code mains tid ep w" and d: "finite_discipline B code mains" and K: "works K"
  shows "thread_has (fst (w n)) tid ep"
proof (induction n)
  case 0
  show ?case using run by (simp add: endless_run_def)
next
  case (Suc n)
  obtain env c t where "is_current (fst (w n)) ep env c t" by (rule run_current [OF run Suc])
  from run_achieves [OF run d K Suc this] Suc show ?case by (simp add: achieves_def thread_has_def)
qed

lemma waits_live:
  assumes "waits K tid ep env c s C s' C'" and "c \<in> live C"
  shows "live C' = live C" "prog_at (the (C' p)) = prog_at (the (C p))"
  using assms by (auto simp: waits_def live_def split: if_splits)

text \<open>The main program of the thread has returned.\<close>

definition returned :: "envp \<Rightarrow> 'k co_state \<times> konts \<Rightarrow> bool" where
  "returned ep w \<longleftrightarrow>
     (\<exists>p t. heap (fst w) p = Some t \<and> tsk_id t = 0 \<and> thread_env t = Some ep \<and> snd w p = Some (KUser Return))"

lemma current_live:
  assumes ok: "config_ok (s, C)" and h: "held B own spare (s, C)" and cur: "is_current s ep env c t"
  shows "c \<in> live C"
proof -
  have hc: "heap s c = Some t" using cur by (simp add: is_current_def)
  have al: "alive s" using ok by (simp add: config_but_def)
  have "C c \<noteq> Some KDead" using heldD(4) [OF h, of c] hc alive_current [OF al cur] by auto
  moreover have "C c \<noteq> None" using ok hc by (auto simp: config_but_def)
  ultimately show ?thesis by (simp add: live_def)
qed

text \<open>What is left cannot decrease for ever.\<close>

lemma run_waits:
  assumes run: "endless_run K code mains tid ep w" and d: "finite_discipline B code mains" and K: "works K"
    and never: "\<And>n. \<not> returned ep (w n)"
  obtains N where "\<And>n env c t. N \<le> n \<Longrightarrow> is_current (fst (w n)) ep env c t \<Longrightarrow>
    c \<in> live (snd (w n)) \<and> waits K tid ep env c (fst (w n)) (snd (w n)) (fst (w (Suc n))) (snd (w (Suc n)))"
proof -
  let ?left = "\<lambda>n. left (snd (w n))"
  have "wf (mult (after code))" by (rule wf_mult [OF wf_after])
  then obtain M where M: "M \<in> range ?left" "\<And>M'. (M', M) \<in> mult (after code) \<Longrightarrow> M' \<notin> range ?left"
    by (auto simp: wf_eq_minimal elim!: allE [of _ "range ?left"])
  from M(1) obtain N where N: "?left N = M" by auto
  have progress: "c \<in> live (snd (w n)) \<and>
      ((?left (Suc n), ?left n) \<in> mult (after code) \<or>
       waits K tid ep env c (fst (w n)) (snd (w n)) (fst (w (Suc n))) (snd (w (Suc n))))"
    if cur: "is_current (fst (w n)) ep env c t" for n env c t
  proof -
    have r: "reachable K code mains (fst (w n), snd (w n))" using run_reachable [OF run] by simp
    have so: "state_ok (fst (w n))" using reachable_ok [OF r] by (simp add: config_but_def)
    have dd: "disciplined B code mains" using d by (simp add: finite_discipline_def)
    obtain own spare where h: "held B own spare (fst (w n), snd (w n))"
      using reachable_held [OF r dd K] by blast
    have "\<not> (snd (w n) c = Some (KUser Return) \<and> tsk_id t = 0)"
      using never [of n] is_currentD(3,6) [OF so cur] by (auto simp: returned_def)
    with run_achieves [OF run d K run_thread [OF run d K] cur] current_live [OF reachable_ok [OF r] h cur]
    show ?thesis by (auto simp: achieves_def)
  qed
  have "?left n = M" if "N \<le> n" for n
    using that
  proof (induction n rule: dec_induct)
    case base
    show ?case by (rule N)
  next
    case (step n)
    obtain env c t where cur: "is_current (fst (w n)) ep env c t"
      by (rule run_current [OF run run_thread [OF run d K]])
    note s = progress [OF cur]
    have "waits K tid ep env c (fst (w n)) (snd (w n)) (fst (w (Suc n))) (snd (w (Suc n)))"
      using s M(2) [of "?left (Suc n)"] step.IH by auto
    from left_cong [OF waits_live(1) [OF this] waits_live(2) [OF this]] s step.IH show ?case by simp
  qed
  then have "waits K tid ep env c (fst (w n)) (snd (w n)) (fst (w (Suc n))) (snd (w (Suc n)))"
    if "N \<le> n" "is_current (fst (w n)) ep env c t" for n env c t
    using progress [OF that(2)] M(2) [of "?left (Suc n)"] that(1) by auto
  with progress show thesis by (intro that [of N]) blast+
qed

section \<open>Joins that wait for ever\<close>

lemma schedule_keeps_running:
  assumes "state_ok s" and "thread_has s tid ep" and "is_current s ep env c t" and "schedule K tid s = Inr s'"
    and "heap s p = Some tp" and "status tp = COROUTINE_RUNNING"
  shows "\<exists>tp. heap s' p = Some tp \<and> status tp = COROUTINE_RUNNING"
proof -
  obtain q where "rescheduled K ep env (tsk_id t) s s' q" by (rule schedule_rescheduled [OF assms(1-4)])
  from rescheduled_frame [OF this] assms(5,6) show ?thesis by fastforce
qed

text \<open>A coroutine that sleeps while the others only call \<open>schedule\<close> is woken by a clock that goes on.\<close>

lemma schedule_wakes:
  assumes so: "state_ok s" and th: "thread_has s tid ep" and cur: "is_current s ep env c tc"
    and sch: "schedule K tid s = Inr s'"
    and p: "task env i = Some p" "heap s p = Some t" "status t = COROUTINE_SLEEP"
  shows "\<exists>n > 0. kst s' = clock_after K (kst s) n \<and>
    (heap s' p = Some t \<or> heap s' p = Some (t\<lparr>status := COROUTINE_RUNNING\<rparr>)) \<and>
    ((\<forall>j. \<exists>now. ms_at K (kst s) j = Some now \<and> wakeuptime t < now) \<longrightarrow>
      heap s' p = Some (t\<lparr>status := COROUTINE_RUNNING\<rparr>))"
proof -
  note cu = is_currentD [OF so cur]
  note step = pick_loop_step [OF so cu(1,4,5), of K]
  obtain pn s2 where pick: "pick K tid s = Inr (pn, s2)" "co_switch_to pn s2 = Inr s'"
    using sch by (auto simp: schedule_def elim!: bnd_InrE)
  have loop: "pick_loop K ep c (tsk_id tc) s = Some (Inr (pn, s2))"
    using pick(1) by (simp add: pick_eq [OF th cur] split: option.splits)
  then obtain s1 where s1: "wake_sleepers K ep s = Inr s1" by (cases "wake_sleepers K ep s") (auto simp: step)
  obtain n where n: "woken K ep n s s1"
    and wake: "\<And>i p t. task env i = Some p \<Longrightarrow> heap s p = Some t \<Longrightarrow> status t = COROUTINE_SLEEP \<Longrightarrow>
       \<exists>j < n. \<exists>now. ms_at K (kst s) j = Some now \<and>
          heap s1 p = Some (if wakeuptime t < now then t\<lparr>status := COROUTINE_RUNNING\<rparr> else t)"
    by (rule wake_sleepers_woken [OF so cu(1) s1]) blast
  obtain j now where j: "j < n" "ms_at K (kst s) j = Some now"
      "heap s1 p = Some (if wakeuptime t < now then t\<lparr>status := COROUTINE_RUNNING\<rparr> else t)"
    using wake [OF p] by blast
  have ok1: "state_ok s1" "envs s1 ep = Some env" using woken_state_ok [OF n so] n cu(1) by (auto simp: woken_def)
  have "\<exists>n'. woken K ep n' s1 s2"
  proof (cases "choice s1 ep env (tsk_id tc)")
    case None
    with loop s1 have "pick_loop K ep c (tsk_id tc) s1 = Some (Inr (pn, s2))" by (simp add: step)
    from pick_loop_returns [OF this ok1 cu(4,5)] show ?thesis by simp
  next
    case (Some x)
    with loop s1 have "s2 = s1" by (simp add: step)
    with woken_refl show ?thesis by blast
  qed
  then obtain n' where n': "woken K ep n' s1 s2" by blast
  have "heap s' = heap s2 \<and> kst s' = kst s2"
    using pick(2) by (auto simp: co_switch_to_def mod_env_eq_Inr elim!: bnd_InrE split: if_splits)
  moreover have "kst s2 = clock_after K (kst s) (n + n')"
    using n n' by (simp add: woken_def clock_after_add)
  moreover have "heap s2 p = Some t \<or> heap s2 p = Some (t\<lparr>status := COROUTINE_RUNNING\<rparr>)"
  proof (cases "wakeuptime t < now")
    case True
    with j(3) have "heap s1 p = Some (t\<lparr>status := COROUTINE_RUNNING\<rparr>)" by simp
    then show ?thesis by (rule woken_taskE [OF n']) simp_all
  next
    case False
    with j(3) have "heap s1 p = Some t" by simp
    then show ?thesis by (rule woken_taskE [OF n']) simp_all
  qed
  moreover have "heap s2 p = Some (t\<lparr>status := COROUTINE_RUNNING\<rparr>)"
    if all: "\<forall>j. \<exists>now. ms_at K (kst s) j = Some now \<and> wakeuptime t < now"
  proof -
    have "wakeuptime t < now" using all j(2) by (metis option.inject)
    with j(3) have "heap s1 p = Some (t\<lparr>status := COROUTINE_RUNNING\<rparr>)" by simp
    then show ?thesis by (rule woken_taskE [OF n']) simp_all
  qed
  ultimately show ?thesis using j(1) by (intro exI [of _ "n + n'"]) auto
qed

text \<open>
  From some reading of the clock on, all readings are past the time \<open>u\<close>. This idealises the clock,
  whose 32-bit millisecond value wraps around: it stays past \<open>u\<close> once it has passed it.
\<close>

definition time_passes :: "'k os \<Rightarrow> 'k \<Rightarrow> 32 word \<Rightarrow> bool" where
  "time_passes K k u \<longleftrightarrow> (\<exists>N. \<forall>j \<ge> N. \<exists>now. ms_at K k j = Some now \<and> u < now)"

lemma sleeper_wakes:
  assumes so: "\<And>n. state_ok (s n)" and th: "\<And>n. thread_has (s n) tid ep"
    and cur: "\<And>n. is_current (s n) ep (env n) (c n) (tc n)"
    and sch: "\<And>n. schedule K tid (s n) = Inr (s (Suc n))" and i: "\<And>n. task (env n) i = Some p"
    and p: "heap (s 0) p = Some t" "status t = COROUTINE_SLEEP" and time: "time_passes K (kst (s 0)) (wakeuptime t)"
  shows "\<exists>m. \<exists>t. heap (s m) p = Some t \<and> status t = COROUTINE_RUNNING"
proof (rule ccontr)
  assume no: "\<nexists>m. \<exists>t. heap (s m) p = Some t \<and> status t = COROUTINE_RUNNING"
  have woke: "heap (s m) p \<noteq> Some (t\<lparr>status := COROUTINE_RUNNING\<rparr>)" for m
  proof
    assume "heap (s m) p = Some (t\<lparr>status := COROUTINE_RUNNING\<rparr>)"
    then have "\<exists>t. heap (s m) p = Some t \<and> status t = COROUTINE_RUNNING" by simp
    with no show False by blast
  qed
  have still: "heap (s n) p = Some t \<and> (\<exists>l \<ge> n. kst (s n) = clock_after K (kst (s 0)) l)" for n
  proof (induction n)
    case 0
    show ?case using p(1) by (auto intro: exI [of _ 0])
  next
    case (Suc n)
    then obtain l where l: "heap (s n) p = Some t" "n \<le> l" "kst (s n) = clock_after K (kst (s 0)) l" by blast
    obtain m where m: "0 < m" "kst (s (Suc n)) = clock_after K (kst (s n)) m"
        "heap (s (Suc n)) p = Some t \<or> heap (s (Suc n)) p = Some (t\<lparr>status := COROUTINE_RUNNING\<rparr>)"
      using schedule_wakes [OF so th cur sch i l(1) p(2)] by blast
    then have "heap (s (Suc n)) p = Some t" using woke by blast
    moreover have "kst (s (Suc n)) = clock_after K (kst (s 0)) (l + m)" by (simp add: m(2) l(3) clock_after_add)
    ultimately show ?case using l(2) m(1) by (intro conjI exI [of _ "l + m"]) simp_all
  qed
  obtain N where N: "\<forall>j \<ge> N. \<exists>now. ms_at K (kst (s 0)) j = Some now \<and> wakeuptime t < now"
    using time by (auto simp: time_passes_def)
  obtain l where l: "heap (s N) p = Some t" "N \<le> l" "kst (s N) = clock_after K (kst (s 0)) l" using still by blast
  have "\<forall>j. \<exists>now. ms_at K (kst (s N)) j = Some now \<and> wakeuptime t < now"
    using N l(2) by (simp add: l(3) ms_at_after)
  then have "heap (s (Suc N)) p = Some (t\<lparr>status := COROUTINE_RUNNING\<rparr>)"
    using schedule_wakes [OF so th cur sch i l(1) p(2)] by blast
  with woke show False by blast
qed

text \<open>A coroutine whose target has not finished is older than some other live coroutine of its thread.\<close>

lemma waits_for_younger:
  assumes ok: "config_ok (s, C)" and h: "held B own spare (s, C)" and cur: "is_current s ep env c t"
    and c: "c \<in> live C" and w: "waits K tid ep env c s C s' C'"
  shows "\<exists>q i. c < q \<and> q \<in> live C \<and> task env i = Some q"
proof -
  have so: "state_ok s" using ok by (simp add: config_but_def)
  note cu = is_currentD [OF so cur]
  obtain cid p q tq where j: "prog_at (the (C c)) = Join cid p" "task env (nat cid) = Some q"
      "heap s q = Some tq" "status tq \<noteq> COROUTINE_EXIT"
    using w by (auto simp: waits_def)
  obtain k where k: "C c = Some k" using c by (auto simp: live_def)
  with j(1) heldD(1) [OF h k] have "nat cid \<in> own c" by (cases k) (auto simp: structured_simps)
  moreover have "shape s c = Some (Some ep, tsk_id t)" using cu(1,5) by (simp add: shape_entry [OF so])
  ultimately obtain r where "c < r" "shape s r = Some (Some ep, nat cid)"
    using ownedD(1) [OF heldD(5) [OF h]] by blast
  then have "c < q" using j(2) cu(1) by (simp add: shape_entry [OF so])
  moreover have "q \<in> live C"
    using ok j(3,4) heldD(4) [OF h, of q] by (auto simp: live_def config_but_def)
  ultimately show ?thesis using j(2) by blast
qed

text \<open>A run in which from the start on every turn of the thread only waits.\<close>

definition stalled ::
  "(voidp \<Rightarrow> nat) \<Rightarrow> 'k os \<Rightarrow> int \<Rightarrow> envp \<Rightarrow> (nat \<Rightarrow> 'k co_state) \<Rightarrow> (nat \<Rightarrow> konts) \<Rightarrow>
   (nat \<Rightarrow> thread_env_t) \<Rightarrow> (nat \<Rightarrow> taskp) \<Rightarrow> (nat \<Rightarrow> task_struct_t) \<Rightarrow> bool" where
  "stalled B K tid ep s C env c t \<longleftrightarrow>
     (\<forall>n. config_ok (s n, C n) \<and> (\<exists>own spare. held B own spare (s n, C n)) \<and>
        thread_has (s n) tid ep \<and> is_current (s n) ep (env n) (c n) (t n) \<and> c n \<in> live (C n) \<and>
        waits K tid ep (env n) (c n) (s n) (C n) (s (Suc n)) (C (Suc n)))"

lemma stalledD:
  assumes "stalled B K tid ep s C env c t"
  shows "config_ok (s n, C n)" "state_ok (s n)" "\<exists>own spare. held B own spare (s n, C n)"
    "thread_has (s n) tid ep" "is_current (s n) ep (env n) (c n) (t n)" "c n \<in> live (C n)"
    "waits K tid ep (env n) (c n) (s n) (C n) (s (Suc n)) (C (Suc n))"
    "schedule K tid (s n) = Inr (s (Suc n))"
  using assms unfolding stalled_def config_but_def waits_def by simp_all

text \<open>The table and the live coroutines stay the same.\<close>

lemma stalled_same:
  assumes st: "stalled B K tid ep s C env c t"
  shows "task (env n) = task (env 0)" "live (C n) = live (C 0)"
proof -
  note D = stalledD [OF st]
  have same: "table (s n) = table (s 0) \<and> live (C n) = live (C 0)"
  proof (induction n)
    case (Suc n)
    with schedule_quiet [OF D(2,4,5,8)] waits_live(1) [OF D(7,6)] show ?case by (simp add: quiet_def)
  qed simp
  then show "live (C n) = live (C 0)" by simp
  have "table (s m) ep = Some (task (env m))" for m using D(5) [of m] by (simp add: table_def is_current_def)
  with same show "task (env n) = task (env 0)" by (metis option.inject)
qed

text \<open>The youngest live coroutine of the thread does not wait, so it is never the current one.\<close>

lemma stalled_youngest:
  assumes st: "stalled B K tid ep s C env c t"
  obtains j q where "task (env 0) j = Some q" "q \<in> live (C 0)" "\<And>n. c n \<noteq> q"
proof -
  note D = stalledD [OF st] and same = stalled_same [OF st]
  let ?A = "ran (task (env 0)) \<inter> live (C 0)"
  have "finite ?A" using live_finite [OF D(1)] by blast
  moreover have "c 0 \<in> ?A" using is_currentD(5) [OF D(2,5), of 0] D(6) [of 0] by (auto simp: ran_def)
  ultimately have max: "Max ?A \<in> ?A" "\<And>p. p \<in> ?A \<Longrightarrow> p \<le> Max ?A" using Max_in [of ?A] by auto
  have "c n \<noteq> Max ?A" for n
  proof
    assume c: "c n = Max ?A"
    obtain own spare where "held B own spare (s n, C n)" using D(3) by blast
    from waits_for_younger [OF D(1) this D(5,6,7)] obtain p i
      where p: "c n < p" "p \<in> live (C n)" "task (env n) i = Some p" by blast
    then have "p \<in> ?A" unfolding same(1) [of n] same(2) [of n] by (auto simp: ran_def)
    with max(2) p(1) c show False by force
  qed
  with max(1) that show thesis by (auto simp: ran_def)
qed

text \<open>A live coroutine runs sooner or later, and then stays so.\<close>

lemma stalled_runs:
  assumes st: "stalled B K tid ep s C env c t" and q: "task (env 0) j = Some q" "q \<in> live (C 0)"
    and time: "\<And>p t. heap (s 0) p = Some t \<Longrightarrow> status t = COROUTINE_SLEEP \<Longrightarrow> time_passes K (kst (s 0)) (wakeuptime t)"
  shows "\<exists>m. \<exists>t. heap (s m) q = Some t \<and> status t = COROUTINE_RUNNING"
proof -
  note D = stalledD [OF st]
  obtain own spare where h: "held B own spare (s 0, C 0)" using D(3) by blast
  have "q \<in> dom (heap (s 0))" and alive: "C 0 q \<noteq> Some KDead"
    using D(1) [of 0] q(2) by (auto simp: live_def config_but_def)
  then obtain tq where tq: "heap (s 0) q = Some tq" by blast
  have "status tq \<noteq> COROUTINE_EXIT" using D(1) [of 0] tq alive by (auto simp: config_but_def)
  with heldD(2) [OF h tq] consider "status tq = COROUTINE_SLEEP" | "status tq = COROUTINE_RUNNING"
    by (cases "status tq") simp_all
  then show ?thesis
  proof cases
    case 1
    with sleeper_wakes [OF D(2,4,5,8) _ tq 1 time [OF tq 1]] q(1) stalled_same(1) [OF st]
    show ?thesis by metis
  next
    case 2
    with tq show ?thesis by blast
  qed
qed

lemma stalled_keeps_running:
  assumes st: "stalled B K tid ep s C env c t" and "\<exists>t. heap (s m) q = Some t \<and> status t = COROUTINE_RUNNING"
  shows "\<exists>t. heap (s (m + n)) q = Some t \<and> status t = COROUTINE_RUNNING"
proof (induction n)
  case 0
  show ?case using assms(2) by simp
next
  case (Suc n)
  with schedule_keeps_running [OF stalledD(2,4,5,8) [OF st]] show ?case by fastforce
qed

text \<open>But then it gets a turn, because the others only call \<open>schedule\<close>.\<close>

lemma never_stalled:
  assumes st: "stalled B K tid ep s C env c t"
    and time: "\<And>p t. heap (s 0) p = Some t \<Longrightarrow> status t = COROUTINE_SLEEP \<Longrightarrow> time_passes K (kst (s 0)) (wakeuptime t)"
  shows False
proof -
  note D = stalledD [OF st] and same = stalled_same [OF st]
  obtain j q where q: "task (env 0) j = Some q" "q \<in> live (C 0)" "\<And>n. c n \<noteq> q"
    using stalled_youngest [OF st] by blast
  obtain m where m: "\<exists>t. heap (s m) q = Some t \<and> status t = COROUTINE_RUNNING"
    using stalled_runs [OF st q(1,2)] time by blast
  have "\<exists>l < NR_TASKS. c (m + l) = q"
  proof (rule reaches_runnable [where s = "\<lambda>n. s (m + n)" and s' = "\<lambda>n. s (m + Suc n)" and env = "\<lambda>n. env (m + n)"
        and t = "\<lambda>n. t (m + n)" and env' = "\<lambda>n. env (m + Suc n)" and t' = "\<lambda>n. t (m + Suc n)" and K = K
        and tid = tid and ep = ep])
    show "\<forall>n. task (env (m + n)) j = Some q \<and>
        (\<exists>tp. heap (s (m + n)) q = Some tp \<and> status tp = COROUTINE_RUNNING)"
      using same(1) q(1) stalled_keeps_running [OF st m] by metis
  qed (use D(2,4,5,8) in simp_all)
  with q(3) show False by blast
qed

lemma run_returns:
  assumes run: "endless_run K code mains tid ep w" and d: "finite_discipline B code mains" and K: "works K"
    and time: "\<And>n p t. heap (fst (w n)) p = Some t \<Longrightarrow> status t = COROUTINE_SLEEP \<Longrightarrow>
      time_passes K (kst (fst (w n))) (wakeuptime t)"
  shows "\<exists>n. returned ep (w n)"
proof (rule ccontr)
  assume never: "\<nexists>n. returned ep (w n)"
  have r: "reachable K code mains (fst (w n), snd (w n))" for n using run_reachable [OF run, of n] by simp
  have dd: "disciplined B code mains" using d by (simp add: finite_discipline_def)
  have th: "thread_has (fst (w n)) tid ep" for n by (rule run_thread [OF run d K])
  have "\<exists>env c t. is_current (fst (w n)) ep env c t" for n using run_current [OF run th] by blast
  then obtain env c t where cur: "\<And>n. is_current (fst (w n)) ep (env n) (c n) (t n)" by metis
  obtain N where wait: "\<And>n env c t. N \<le> n \<Longrightarrow> is_current (fst (w n)) ep env c t \<Longrightarrow>
    c \<in> live (snd (w n)) \<and> waits K tid ep env c (fst (w n)) (snd (w n)) (fst (w (Suc n))) (snd (w (Suc n)))"
    using run_waits [OF run d K] never by blast
  have "stalled B K tid ep (\<lambda>n. fst (w (N + n))) (\<lambda>n. snd (w (N + n))) (\<lambda>n. env (N + n)) (\<lambda>n. c (N + n)) (\<lambda>n. t (N + n))"
    unfolding stalled_def using reachable_ok [OF r] reachable_held [OF r dd K] th cur wait [OF _ cur]
    by (simp del: fst_conv snd_conv)
  from never_stalled [OF this] time [of N] show False by simp
qed

section \<open>Examples\<close>

lemma demo01_finite: "finite_discipline (\<lambda>_. 0) demo01_code (demo01_mains t0 info junk)"
proof -
  have s: "ends code (sleep_loop i d p) = ends code p" for code i d p by (induction i) simp_all
  show ?thesis
    by (simp add: finite_discipline_def demo01_disciplined s demo01_code_def fun1_def fun2_def fun3_def
        fun4_def fun5_def demo01_mains_def demo01_main_def th_fn_def)
qed

text \<open>So each of the two threads of \<open>demo01\<close> reaches its end.\<close>

lemma demo01_finishes:
  assumes "works K" and "endless_run K demo01_code (demo01_mains t0 info junk) tid ep w"
    and "\<And>n p t. heap (fst (w n)) p = Some t \<Longrightarrow> status t = COROUTINE_SLEEP \<Longrightarrow>
      time_passes K (kst (fst (w n))) (wakeuptime t)"
  shows "\<exists>n. returned ep (w n)"
  by (rule run_returns [OF assms(2) demo01_finite assms(1,3)])

lemma demo_finite: "finite_discipline (\<lambda>_. 0) demo_code demo_main"
  by (simp add: finite_discipline_def demo_disciplined demo_code_def demo_main_def split: option.split)

text \<open>The example execution, continued for ever at its end.\<close>

lemma demo_rests: "turn ex_os demo_code demo_main 1 (demo_w 4) = Inr (demo_w 4)"
proof -
  let ?s = "without_task 0 ex1_env 1 2 ex3"
  let ?env = "ex1_env\<lparr>task := (task ex1_env)(1 := None), task_count := task_count ex1_env - 1\<rparr>"
  have th: "thread_has ?s 1 0" using ex3_thread by (simp add: thread_has_def without_task_def)
  have cur: "is_current ?s 0 ?env 1 ex0_main"
    using ex3_current by (simp add: is_current_def without_task_def)
  show ?thesis
    unfolding demo_w_simps
    by (rule trans [OF turn_known [OF th cur]])
      (use cur in \<open>auto simp: is_current_def get_task_def ex0_main_fields\<close>)
qed

lemma demo_run: "endless_run ex_os demo_code demo_main 1 0 (\<lambda>n. demo_w (min (Suc n) 4))"
proof -
  have "turn ex_os demo_code demo_main 1 (demo_w (min (Suc n) 4)) = Inr (demo_w (min (Suc (Suc n)) 4))" for n
  proof -
    consider "n = 0" | "n = 1" | "n = 2" | "3 \<le> n" by linarith
    then show ?thesis
      using demo_join_first demo_finish demo_join_second demo_rests
      by cases (simp_all add: eval_nat_numeral)
  qed
  moreover have "thread_has (fst (demo_w 1)) 1 0" unfolding demo_w_simps using ex1_thread by simp
  ultimately show ?thesis using demo_reachable(1) by (simp add: endless_run_def)
qed

lemma demo_awake: "heap (fst (demo_w (min (Suc n) 4))) p = Some t \<Longrightarrow> status t \<noteq> COROUTINE_SLEEP"
proof -
  have h: "heap (fst (demo_w i)) p = Some t \<Longrightarrow> status t \<noteq> COROUTINE_SLEEP" if "i \<in> {1, 2, 3, 4}" for i
    using that unfolding insert_iff
    by (elim disjE)
      (auto simp: demo_w_simps demo_w_simps(2) [unfolded One_nat_def] ex1_fields ex2_def ex3_def without_task_def ex0_main_fields ex1_worker_fields
        split: if_splits)
  have "min (Suc n) 4 \<in> {1, 2, 3, 4}" by (auto simp: min_def)
  from h [OF this] show "heap (fst (demo_w (min (Suc n) 4))) p = Some t \<Longrightarrow> status t \<noteq> COROUTINE_SLEEP" .
qed

section \<open>Properties\<close>

text \<open>
  C12: A thread of finite disciplined programs that is given turns for ever reaches the end of
  its main program, with all its coroutines finished and joined, as long as the clock passes the
  wake-up time of every coroutine that sleeps: no join waits for ever and no coroutine starves.
\<close>

theorem structured_finishes:
  assumes "finite_discipline B code mains" and "works K" and "endless_run K code mains tid ep w"
    and "\<forall>n p t. heap (fst (w n)) p = Some t \<and> status t = COROUTINE_SLEEP \<longrightarrow>
      time_passes K (kst (fst (w n))) (wakeuptime t)"
  shows "\<exists>n p env. snd (w n) p = Some (KUser Return) \<and> envs (fst (w n)) ep = Some env \<and>
    task env = [0 \<mapsto> p] \<and> task_count env = 1"
proof -
  obtain n where "returned ep (w n)" using run_returns [OF assms(3,1,2)] assms(4) by blast
  then obtain p t where p: "heap (fst (w n)) p = Some t" "tsk_id t = 0" "thread_env t = Some ep"
      "snd (w n) p = Some (KUser Return)" by (auto simp: returned_def)
  have d: "disciplined B code mains" using assms(1) by (simp add: finite_discipline_def)
  have "reachable K code mains (fst (w n), snd (w n))" using run_reachable [OF assms(3)] by simp
  from disciplined_end [OF d assms(2) this p(1,2,4)] p(3,4) show ?thesis by auto
qed

theorem structured_finishes_witness:
  "\<exists>n p env. snd (demo_w (min (Suc n) 4)) p = Some (KUser Return) \<and>
    envs (fst (demo_w (min (Suc n) 4))) 0 = Some env \<and> task env = [0 \<mapsto> p] \<and> task_count env = 1"
  by (rule structured_finishes [OF demo_finite ex_os_works demo_run]) (use demo_awake in blast)

end
