(* ===== verification/Refinement.thy ===== *)
theory Refinement
  imports Structured
begin

text \<open>
  What a thread does, without its tables, queues and stacks: a set of coroutines, each a program or
  finished, that take steps one at a time. The library implements this specification: every turn
  of a thread is a step of its current coroutine in the specification, or changes nothing there: a
  join or a system call that goes on waiting, a turn of the event loop.
\<close>

section \<open>The specification\<close>

datatype phase = Runs prog | Finished

text \<open>
  A step of the coroutine \<open>i\<close>: it goes to sleep, to go on behind the call when it wakes up, creates a
  coroutine at the lowest free id, finds that all ids are taken, goes on because the coroutine
  that it joins has finished (and that id is free again), has the result of a system call, or
  ends. The main coroutine does not end.
\<close>

inductive spec_step ::
  "(voidp \<Rightarrow> voidp \<Rightarrow> prog) \<Rightarrow> nat \<Rightarrow> (nat \<rightharpoonup> phase) \<Rightarrow> (nat \<rightharpoonup> phase) \<Rightarrow> bool" for code i where
  Sleep: "A i = Some (Runs (Sleep n p)) \<Longrightarrow> spec_step code i A (A(i \<mapsto> Runs p))"
| Create: "A i = Some (Runs (Create fn a f)) \<Longrightarrow> j < NR_TASKS \<Longrightarrow> A j = None \<Longrightarrow> \<forall>l < j. A l \<noteq> None \<Longrightarrow>
    spec_step code i A (A(i \<mapsto> Runs (f 0 (Some j)), j \<mapsto> Runs (code fn a)))"
| Full: "A i = Some (Runs (Create fn a f)) \<Longrightarrow> \<forall>l < NR_TASKS. A l \<noteq> None \<Longrightarrow>
    spec_step code i A (A(i \<mapsto> Runs (f (-1) None)))"
| Join: "A i = Some (Runs (Join (int j) p)) \<Longrightarrow> A j = Some Finished \<Longrightarrow>
    spec_step code i A (A(i \<mapsto> Runs p, j := None))"
| Accept: "A i = Some (Runs (Accept fd f)) \<Longrightarrow> spec_step code i A (A(i \<mapsto> Runs (f r)))"
| Read: "A i = Some (Runs (Read fd len f)) \<Longrightarrow> spec_step code i A (A(i \<mapsto> Runs (f r)))"
| Write: "A i = Some (Runs (Write fd len f)) \<Longrightarrow> spec_step code i A (A(i \<mapsto> Runs (f r)))"
| Return: "A i = Some (Runs Return) \<Longrightarrow> 0 < i \<Longrightarrow> spec_step code i A (A(i \<mapsto> Finished))"

section \<open>What a thread has reached\<close>

fun phase_of :: "kont \<Rightarrow> phase" where
  "phase_of (KUser p) = Runs p"
| "phase_of (KJoin ep cid p) = Runs (Join cid p)"
| "phase_of (KAccept cur fd f) = Runs (Accept fd f)"
| "phase_of (KRead cur fd len f) = Runs (Read fd len f)"
| "phase_of (KWrite cur epf fd len f) = Runs (Write fd len f)"
| "phase_of (KLoop ep epf) = Runs EventLoop"
| "phase_of KDead = Finished"

text \<open>The coroutines of the environment \<open>ep\<close>, by their ids; none before the environment is there.\<close>

definition coroutines :: "'k co_state \<Rightarrow> konts \<Rightarrow> envp \<Rightarrow> nat \<rightharpoonup> phase" where
  "coroutines s C ep i =
     (case envs s ep of
        None \<Rightarrow> None
      | Some env \<Rightarrow>
          (case task env i of None \<Rightarrow> None | Some p \<Rightarrow> map_option phase_of (C p)))"

lemma coroutines_shape:
  assumes "state_ok s"
  shows "coroutines s C ep i = Some x \<longleftrightarrow>
    (\<exists>p k. shape s p = Some (Some ep, i) \<and> C p = Some k \<and> phase_of k = x)"
  by (auto simp: coroutines_def shape_entry [OF assms] split: option.splits)

lemma coroutines_eqI:
  assumes "state_ok s"
    and "\<And>p i. shape s p = Some (Some e, i) \<Longrightarrow> A i = map_option phase_of (C p)"
    and "\<And>i x. A i = Some x \<Longrightarrow> \<exists>p. shape s p = Some (Some e, i)"
  shows "coroutines s C e = A"
proof (rule ext)
  fix i
  show "coroutines s C e i = A i"
  proof (cases "\<exists>p. shape s p = Some (Some e, i)")
    case True
    then obtain p where p: "shape s p = Some (Some e, i)" by blast
    then obtain env where "envs s e = Some env" "task env i = Some p" by (auto simp: shape_entry [OF assms(1)])
    with assms(2) [OF p] show ?thesis by (simp add: coroutines_def)
  next
    case False
    then have "coroutines s C e i = None"
      by (auto simp: coroutines_def shape_entry [OF assms(1)] split: option.split)
    with False assms(3) [of i] show ?thesis by (cases "A i") auto
  qed
qed

lemma coroutines_at:
  "state_ok s \<Longrightarrow> shape s p = Some (Some e, i) \<Longrightarrow> coroutines s C e i = map_option phase_of (C p)"
  by (auto simp: shape_entry coroutines_def)

lemma coroutines_Some:
  "state_ok s \<Longrightarrow> coroutines s C e i = Some x \<Longrightarrow> \<exists>p. shape s p = Some (Some e, i)"
  by (auto simp: coroutines_shape)

text \<open>In a turn that leaves the tables alone, only the current coroutine changes.\<close>

lemma coroutines_upd:
  assumes so: "state_ok s" "state_ok s'" and sh: "shape s' = shape s"
    and c: "shape s c = Some (Some ep, i)"
  shows "coroutines s' (C(c \<mapsto> k)) e =
    (if e = ep then (coroutines s C e)(i \<mapsto> phase_of k) else coroutines s C e)" (is "_ = ?A")
proof (rule coroutines_eqI [OF so(2)], unfold sh)
  fix p j assume p: "shape s p = Some (Some e, j)"
  show "?A j = map_option phase_of ((C(c \<mapsto> k)) p)"
  proof (cases "p = c")
    case True
    with p c show ?thesis by simp
  next
    case False
    with p c shape_inj [OF so(1) p, of c] have "\<not> (e = ep \<and> j = i)" by blast
    with False coroutines_at [OF so(1) p, of C] show ?thesis by auto
  qed
next
  fix j x assume "?A j = Some x"
  then show "\<exists>p. shape s p = Some (Some e, j)"
    using c coroutines_Some [OF so(1), of C e j] by (auto split: if_splits)
qed

lemma effect_shape:
  assumes "effect W X s s'"
  shows "shape s' = shape s"
proof (rule ext)
  fix p
  have "dom (heap s') = dom (heap s)" and st: "stays W s s'" using assms by (simp_all add: effect_defs)
  then have d: "heap s' p = None \<longleftrightarrow> heap s p = None" by (metis domIff)
  show "shape s' p = shape s p"
  proof (cases "heap s p")
    case None
    with d show ?thesis by (simp add: shape_def)
  next
    case (Some t)
    with d obtain t' where "heap s' p = Some t'" by auto
    with staysD(1,2) [OF st Some this] Some show ?thesis by (simp add: shape_def)
  qed
qed

section \<open>Every call implements a step\<close>

definition simulates ::
  "(voidp \<Rightarrow> voidp \<Rightarrow> prog) \<Rightarrow> envp \<Rightarrow> nat \<Rightarrow> 'k co_state \<Rightarrow> konts \<Rightarrow> 'k co_state \<Rightarrow> konts \<Rightarrow> bool" where
  "simulates code ep i s C s' C' \<longleftrightarrow>
     (\<forall>e. e \<noteq> ep \<longrightarrow> coroutines s' C' e = coroutines s C e) \<and>
     (coroutines s' C' ep = coroutines s C ep \<or>
      spec_step code i (coroutines s C ep) (coroutines s' C' ep))"

lemma simulates_effect:
  assumes so: "state_ok s" and cur: "is_current s ep env c t" and e: "effect W X s s'"
    and C: "C c = Some k"
    and step: "\<And>A. A (tsk_id t) = Some (phase_of k) \<Longrightarrow>
      phase_of k' = phase_of k \<or> spec_step code (tsk_id t) A (A(tsk_id t \<mapsto> phase_of k'))"
  shows "simulates code ep (tsk_id t) s C s' (C(c \<mapsto> k'))"
proof -
  note cu = is_currentD [OF so cur]
  have c: "shape s c = Some (Some ep, tsk_id t)" using cu(1,5) by (simp add: shape_entry [OF so])
  have so': "state_ok s'" using e by (simp add: effect_defs)
  have A: "coroutines s C ep (tsk_id t) = Some (phase_of k)"
    using c C by (auto simp: coroutines_shape [OF so])
  note upd = coroutines_upd [OF so so' effect_shape [OF e] c, of C k']
  from step [of "coroutines s C ep", OF A] show ?thesis
  proof
    assume "phase_of k' = phase_of k"
    with A have "coroutines s' (C(c \<mapsto> k')) ep = coroutines s C ep" by (simp add: upd fun_upd_idem)
    then show ?thesis by (simp add: simulates_def upd)
  next
    assume "spec_step code (tsk_id t) (coroutines s C ep) ((coroutines s C ep)(tsk_id t \<mapsto> phase_of k'))"
    then show ?thesis by (simp add: simulates_def upd)
  qed
qed

text \<open>Creating a coroutine and freeing a finished one.\<close>

lemma shape_new_task:
  "shape (with_new_task ar ep env i fn a k s) = (shape s)(brk s \<mapsto> (Some ep, i))"
  by (auto simp: shape_def with_new_task_def)

lemma shape_without_task: "shape (without_task ep env i q s) = (shape s)(q := None)"
  by (auto simp: shape_def without_task_def)

lemma coroutines_create:
  assumes so: "state_ok s" "state_ok s'" and sh: "shape s' = (shape s)(r \<mapsto> (Some ep, j))" "shape s r = None"
    and c: "shape s c = Some (Some ep, i)" and j: "\<And>p. shape s p \<noteq> Some (Some ep, j)"
  shows "coroutines s' (C(c \<mapsto> k, r \<mapsto> k')) e =
    (if e = ep then (coroutines s C ep)(i \<mapsto> phase_of k, j \<mapsto> phase_of k') else coroutines s C e)"
    (is "_ = ?B")
proof (rule coroutines_eqI [OF so(2)])
  fix p l assume p: "shape s' p = Some (Some e, l)"
  show "?B l = map_option phase_of ((C(c \<mapsto> k, r \<mapsto> k')) p)"
  proof (cases "p = r")
    case True
    with p show ?thesis by (simp add: sh(1))
  next
    case False
    with p have p': "shape s p = Some (Some e, l)" by (simp add: sh(1))
    then have "\<not> (e = ep \<and> l = j)" using j by auto
    moreover have "p = c \<longleftrightarrow> e = ep \<and> l = i" using p' c shape_inj [OF so(1) p', of c] by auto
    ultimately show ?thesis using coroutines_at [OF so(1) p', of C] False by auto
  qed
next
  fix l x assume x: "?B l = Some x"
  show "\<exists>p. shape s' p = Some (Some e, l)"
  proof (cases "e = ep \<and> l = j")
    case True
    then show ?thesis by (intro exI [of _ r]) (simp add: sh(1))
  next
    case False
    then have "e = ep \<and> l = i \<or> coroutines s C e l = Some x" using x by (auto split: if_splits)
    then obtain p where p: "shape s p = Some (Some e, l)" using c coroutines_Some [OF so(1)] by blast
    then have "p \<noteq> r" using sh(2) by auto
    with p show ?thesis by (intro exI [of _ p]) (simp add: sh(1))
  qed
qed

lemma coroutines_join:
  assumes so: "state_ok s" "state_ok s'" and sh: "shape s' = (shape s)(q := None)"
    and c: "shape s c = Some (Some ep, i)" and q: "shape s q = Some (Some ep, j)"
    and C': "\<And>p. shape s' p \<noteq> None \<Longrightarrow> C' p = (C(c \<mapsto> k)) p"
  shows "coroutines s' C' e =
    (if e = ep then (coroutines s C ep)(i \<mapsto> phase_of k, j := None) else coroutines s C e)" (is "_ = ?B")
proof (rule coroutines_eqI [OF so(2)])
  fix p l assume p: "shape s' p = Some (Some e, l)"
  then have p': "p \<noteq> q" "shape s p = Some (Some e, l)" by (auto simp: sh split: if_splits)
  have "C' p = (C(c \<mapsto> k)) p" using C' p by simp
  moreover have "\<not> (e = ep \<and> l = j)" using p' q shape_inj [OF so(1) p'(2), of q] by auto
  moreover have "p = c \<longleftrightarrow> e = ep \<and> l = i" using p'(2) c shape_inj [OF so(1) p'(2), of c] by auto
  ultimately show "?B l = map_option phase_of (C' p)" using coroutines_at [OF so(1) p'(2), of C] by auto
next
  fix l x assume x: "?B l = Some x"
  then have "e = ep \<and> l = i \<or> coroutines s C e l = Some x" by (auto split: if_splits)
  then obtain p where p: "shape s p = Some (Some e, l)" using c coroutines_Some [OF so(1)] by blast
  have "p \<noteq> q" using x p q by (auto split: if_splits)
  with p show "\<exists>p. shape s' p = Some (Some e, l)" by (intro exI [of _ p]) (simp add: sh)
qed

lemma current_shape:
  "state_ok s \<Longrightarrow> is_current s ep env c t \<Longrightarrow> shape s c = Some (Some ep, tsk_id t)"
  using is_currentD(1,5) [of s ep env c t] by (simp add: shape_entry)

lemma create_simulates:
  assumes ok: "config_ok (s, C)" and th: "thread_has s tid ep" and cur: "is_current s ep env c t"
    and C: "C c = Some (KUser (Create fn a f))" and r: "co_create K tid nn fn a s = Inr (ret, out, s')"
    and nn: "nn"
  shows "simulates code ep (tsk_id t) s C s'
    (if ret = 0 then C(c \<mapsto> KUser (f ret out), brk s \<mapsto> KUser (code fn a)) else C(c \<mapsto> KUser (f ret out)))"
proof -
  have so: "state_ok s" using ok by (simp add: config_but_def)
  note env = is_currentD(1) [OF so cur] and sc = current_shape [OF so cur]
  let ?A = "coroutines s C ep" and ?i = "tsk_id t" and ?j = "free_slot env 0"
  have A: "?A ?i = Some (Runs (Create fn a f))" using coroutines_at [OF so sc, of C] C by simp
  have entry: "?A l = None \<longleftrightarrow> task env l = None" for l
  proof (cases "task env l")
    case (Some p)
    then have "p \<in> dom (heap s)" using state_ok_entry [OF so env] by blast
    then have "C p \<noteq> None" using ok by (auto simp: config_but_def)
    with Some env show ?thesis by (auto simp: coroutines_def)
  qed (simp add: coroutines_def env)
  note slot = free_slot_spec [of 0 env]
  show ?thesis
  proof (cases "?j = NR_TASKS")
    case True
    with r nn have s': "s' = s" "ret = -1" "out = None" by (auto simp: co_create_eq [OF th env])
    have "\<forall>l < NR_TASKS. ?A l \<noteq> None" using slot True entry by simp
    from spec_step.Full [OF A this, of code] show ?thesis
      unfolding s' simulates_def by (simp add: coroutines_upd [OF so so refl sc])
  next
    case False
    obtain k where s': "s' = with_new_task (os_arch K) ep env ?j fn a k s" "ret = 0" "out = Some ?j"
      using r nn False by (auto simp: co_create_eq [OF th env] split: prod.splits if_splits)
    have free: "?j < NR_TASKS" "?A ?j = None" "\<forall>l < ?j. ?A l \<noteq> None" using slot False entry by auto
    have fresh: "shape s (brk s) = None"
      using state_ok_heap [OF so, of "brk s"] by (cases "heap s (brk s)") (auto simp: shape_def)
    have none: "shape s p \<noteq> Some (Some ep, ?j)" for p
      using entry [of ?j] free(2) env by (auto simp: shape_entry [OF so])
    have sh: "shape s' = (shape s)(brk s \<mapsto> (Some ep, ?j))" by (simp add: s'(1) shape_new_task)
    note new = coroutines_create [OF so co_create_state_ok [OF so r] sh fresh sc none]
    from spec_step.Create [OF A free, of code] show ?thesis by (simp add: simulates_def s'(2,3) new)
  qed
qed

lemma join_simulates:
  assumes ok: "config_ok (s, C)" and th: "thread_has s tid ep" and cur: "is_current s ep env c t"
    and C: "C c = Some k" "phase_of k = Runs (Join cid p)"
    and r: "co_join_turn K tid ep cid s = Inr (finished, s')"
  shows "simulates code ep (tsk_id t) s C s' (\<lambda>q. if heap s' q = None then None
    else (C(c \<mapsto> if finished then KUser p else KJoin ep cid p)) q)" (is "simulates _ _ _ _ _ _ ?C")
proof -
  have so: "state_ok s" and al: "alive s" using ok by (simp_all add: config_but_def)
  note cu = is_currentD [OF so cur] and sc = current_shape [OF so cur]
  have dom: "C x = None \<longleftrightarrow> heap s x = None" for x using ok unfolding config_but_def by (auto simp: domIff)
  obtain q where cid: "0 \<le> cid" "cid < int NR_TASKS" "task env (nat cid) = Some q"
    using r cu(1) by (auto simp: co_join_turn_def get_env_def elim!: bnd_InrE split: if_splits)
  obtain tq where tq: "heap s q = Some tq" by (rule state_ok_entry [OF so cu(1) cid(3)])
  note eq = co_join_turn_eq [OF cu(1) cid tq(1), of K tid]
  show ?thesis
  proof (cases "status tq = COROUTINE_EXIT")
    case False
    with r eq have n: "\<not> finished" "schedule K tid s = Inr s'" by (auto simp: bnd_eq_Inr)
    have e: "effect False {} s s'" by (rule schedule_effect [OF so th cur alive_weaken [OF al] n(2)])
    have "dom (heap s') = dom (heap s)" using e by (simp add: effect_def)
    then have "heap s' x = None \<longleftrightarrow> C x = None" for x using dom [of x] by (metis domIff)
    moreover have "C c \<noteq> None" using C by simp
    ultimately have "?C = C(c \<mapsto> KJoin ep cid p)" using n(1) by (auto simp: fun_eq_iff)
    with simulates_effect [where C = C and k = k and k' = "KJoin ep cid p", OF so cur e C(1), of code] C(2)
    show ?thesis by simp
  next
    case True
    with r eq have n: "finished" "s' = without_task ep env (nat cid) q s" by auto
    have "q \<noteq> c" using True tq cu(3) alive_current [OF al cur] by auto
    then have so': "state_ok s'"
      unfolding n(2) using cu(2) by (intro state_ok_without_task [OF so cu(1) cid(3)]) simp
    have sq: "shape s q = Some (Some ep, nat cid)" using cu(1) cid(3) by (simp add: shape_entry [OF so])
    have "?C x = (C(c \<mapsto> KUser p)) x" if "shape s' x \<noteq> None" for x using that n(1) by (auto simp: shape_def)
    moreover have "shape s' = (shape s)(q := None)" by (simp add: n(2) shape_without_task)
    ultimately have freed: "coroutines s' ?C e = (if e = ep
        then (coroutines s C ep)(tsk_id t \<mapsto> Runs p, nat cid := None) else coroutines s C e)" for e
      using coroutines_join [where C' = ?C and C = C and k = "KUser p", OF so so' _ sc sq] by simp
    have "C q = Some KDead" using ok tq True by (auto simp: config_but_def)
    then have "coroutines s C ep (nat cid) = Some Finished" "coroutines s C ep (tsk_id t) = Some (Runs (Join (int (nat cid)) p))"
      using coroutines_at [OF so sq, of C] coroutines_at [OF so sc, of C] C cid(1) by simp_all
    from spec_step.Join [OF this(2,1), of code] show ?thesis by (simp add: simulates_def freed)
  qed
qed

lemma continues_spec:
  assumes "continues c ep k k'" and "A i = Some (phase_of k)"
  shows "phase_of k' = phase_of k \<or> spec_step code i A (A(i \<mapsto> phase_of k'))"
  using assms by (cases rule: continues.cases) (auto intro: spec_step.intros)

lemma resume_simulates:
  assumes ok: "config_ok (s, C)" and th: "thread_has s tid ep" and cur: "is_current s ep env c t"
    and C: "C c = Some k" and r: "resume K code tid c k s C = Inr (s', C')"
  shows "simulates code ep (tsk_id t) s C s' C'"
proof -
  have so: "state_ok s" and al: "alive s" and typed: "kont_typed s c k"
    using ok C by (simp_all add: config_but_def)
  note sim = simulates_effect [where C = C and k = k, OF so cur _ C]
  show ?thesis
    using so th cur al typed r
  proof (cases rule: resume_cases)
    case moves
    then obtain k' where m: "C' = C(c \<mapsto> k')" "effect (looping k) {} s s'" "continues c ep k k'"
      unfolding moved_def by blast
    show ?thesis unfolding m(1) by (rule sim [OF m(2)]) (rule continues_spec [OF m(3)])
  next
    case (creates fn a f ret out)
    with create_simulates [OF ok th cur _ creates(2)] C show ?thesis by simp
  next
    case (joins cid q fin)
    then have "phase_of k = Runs (Join cid q)" by auto
    from join_simulates [OF ok th cur C this joins(2), of code] joins(3) show ?thesis by simp
  next
    case ends
    then have e: "start_finish K tid c s = Inr s'" "C' = C(c \<mapsto> KDead)" by simp_all
    show ?thesis unfolding e(2)
      by (rule sim [OF start_finish_effect [OF so th cur al e(1)]]) (use ends in \<open>simp add: spec_step.Return\<close>)
  qed
qed

section \<open>Every turn implements a step\<close>

text \<open>
  The threads side by side: a new thread comes with its main coroutine; the coroutine \<open>i\<close> of the
  thread with the environment \<open>ep\<close> takes a step.
\<close>

inductive spec_start ::
  "prog \<Rightarrow> envp \<Rightarrow> (envp \<Rightarrow> nat \<rightharpoonup> phase) \<Rightarrow> (envp \<Rightarrow> nat \<rightharpoonup> phase) \<Rightarrow> bool" for p ep where
  "A ep = Map.empty \<Longrightarrow> spec_start p ep A (A(ep := [0 \<mapsto> Runs p]))"

inductive spec_act ::
  "(voidp \<Rightarrow> voidp \<Rightarrow> prog) \<Rightarrow> envp \<Rightarrow> nat \<Rightarrow> (envp \<Rightarrow> nat \<rightharpoonup> phase) \<Rightarrow> (envp \<Rightarrow> nat \<rightharpoonup> phase) \<Rightarrow> bool"
  for code ep i where
  "spec_step code i (A ep) B \<Longrightarrow> spec_act code ep i A (A(ep := B))"

lemma simulates_act:
  assumes "simulates code ep i s C s' C'"
  shows "coroutines s' C' = coroutines s C \<or> spec_act code ep i (coroutines s C) (coroutines s' C')"
proof -
  have eq: "coroutines s' C' = (coroutines s C)(ep := coroutines s' C' ep)"
    using assms by (auto simp: simulates_def fun_eq_iff)
  show ?thesis
  proof (cases "coroutines s' C' ep = coroutines s C ep")
    case True
    with eq show ?thesis by simp
  next
    case False
    with assms have "spec_step code i (coroutines s C ep) (coroutines s' C' ep)" by (simp add: simulates_def)
    from spec_act.intros [where A = "coroutines s C", OF this] show ?thesis by (simp add: eq [symmetric])
  qed
qed

lemma first_coroutine:
  assumes so: "state_ok s"
  shows "spec_start p (brk s) (coroutines s C) (coroutines (with_new_env slot fd k s) (C(brk s + 1 \<mapsto> KUser p)))"
proof -
  let ?m = "brk s + 1"
  have no: "envs s (brk s) = None" using state_ok_env [OF so, of "brk s"] by (cases "envs s (brk s)") auto
  have old: "C q = (C(?m \<mapsto> KUser p)) q" if "envs s e = Some env" "task env i = Some q" for e env i q
  proof -
    have "q < brk s" using state_ok_entry [OF so that] state_ok_heap [OF so] by metis
    then show ?thesis by simp
  qed
  have "coroutines (with_new_env slot fd k s) (C(?m \<mapsto> KUser p)) e i =
      ((coroutines s C)(brk s := [0 \<mapsto> Runs p])) e i" for e i
  proof (cases "e = brk s")
    case True
    then show ?thesis by (simp add: coroutines_def with_new_env_def)
  next
    case False
    then show ?thesis using old [of e] by (auto simp: coroutines_def with_new_env_def split: option.split)
  qed
  then have "coroutines (with_new_env slot fd k s) (C(?m \<mapsto> KUser p)) = (coroutines s C)(brk s := [0 \<mapsto> Runs p])"
    by (intro ext)
  moreover have "coroutines s C (brk s) = Map.empty" by (simp add: coroutines_def no fun_eq_iff)
  ultimately show ?thesis using spec_start.intros [of "coroutines s C" "brk s" p] by simp
qed

lemma turn_simulates:
  assumes ok: "config_ok (s, C)" and r: "turn K code mains tid (s, C) = Inr (s', C')"
  shows "\<exists>ep s1 env c t A.
    co_get_thread_env K tid s = Inr (ep, s1) \<and> is_current s1 ep env c t \<and>
    (spec_start (mains tid) ep)\<^sup>=\<^sup>= (coroutines s C) A \<and>
    (spec_act code ep (tsk_id t))\<^sup>=\<^sup>= A (coroutines s' C')"
proof -
  obtain ep s1 where e: "co_get_thread_env K tid s = Inr (ep, s1)"
    using r by (auto simp: turn_def elim!: bnd_InrE)
  obtain env c t C1 where g: "config_ok (s1, C1)" "thread_has s1 tid ep" "is_current s1 ep env c t"
    "C1 c = Some (resumed mains tid C c)"
    "turn K code mains tid (s, C) = resume K code tid c (resumed mains tid C c) s1 C1"
    "s1 = s \<and> C1 = C \<or>
     \<not> thread_has s tid ep \<and> ep = brk s \<and> (\<exists>slot fd k. s1 = with_new_env slot fd k s) \<and>
     c = brk s + 1 \<and> C1 = C(c \<mapsto> KUser (mains tid))"
    by (rule entered_ok [OF ok e])
  have "(spec_act code ep (tsk_id t))\<^sup>=\<^sup>= (coroutines s1 C1) (coroutines s' C')"
    using simulates_act [OF resume_simulates [OF g(1-4) trans [OF g(5) [symmetric] r]]] by auto
  moreover have "(spec_start (mains tid) ep)\<^sup>=\<^sup>= (coroutines s C) (coroutines s1 C1)"
    using g(6) first_coroutine ok by (auto simp: config_but_def)
  ultimately show ?thesis using e g(3) by blast
qed

section \<open>Properties\<close>

text \<open>
  C6: The library refines its specification, a set of coroutines per thread, each with the
  program it has still to run: in every execution, whatever the kernel answers, a turn of a
  thread is a step of its current coroutine in the specification or changes nothing there; the
  first turn of a thread adds its main coroutine, and the coroutines of all other threads stay
  where they were.
\<close>

theorem turns_refine:
  assumes "reachable K code mains (s, C)" and "turn K code mains tid (s, C) = Inr (s', C')"
  shows "\<exists>ep s1 env c t A.
    co_get_thread_env K tid s = Inr (ep, s1) \<and> is_current s1 ep env c t \<and>
    (spec_start (mains tid) ep)\<^sup>=\<^sup>= (coroutines s C) A \<and>
    (spec_act code ep (tsk_id t))\<^sup>=\<^sup>= A (coroutines s' C')"
  by (rule turn_simulates [OF reachable_ok [OF assms(1)] assms(2)])

theorem turns_refine_witness:
  "coroutines (fst (demo_w 3)) (snd (demo_w 3)) 0 = [0 \<mapsto> Runs (Join 1 Return), 1 \<mapsto> Finished] \<and>
   (spec_act demo_code 0 0)\<^sup>=\<^sup>= (coroutines (fst (demo_w 3)) (snd (demo_w 3)))
     (coroutines (fst (demo_w 4)) (snd (demo_w 4))) \<and>
   coroutines (fst (demo_w 4)) (snd (demo_w 4)) 0 = [0 \<mapsto> Runs Return]"
proof -
  have r: "reachable ex_os demo_code demo_main (ex3, [1 \<mapsto> KJoin 0 1 Return, 2 \<mapsto> KDead])"
    using demo_reachable(3) unfolding demo_w_simps .
  have t: "turn ex_os demo_code demo_main 1 (ex3, [1 \<mapsto> KJoin 0 1 Return, 2 \<mapsto> KDead]) =
      Inr (without_task 0 ex1_env 1 2 ex3, [1 \<mapsto> KUser Return])"
    using demo_join_second unfolding demo_w_simps .
  have e: "envs ex3 0 = Some ex1_env" using ex3_current by (simp add: is_current_def)
  have c3: "coroutines ex3 [1 \<mapsto> KJoin 0 1 Return, 2 \<mapsto> KDead] 0 = [0 \<mapsto> Runs (Join 1 Return), 1 \<mapsto> Finished]"
    by (auto simp: coroutines_def e ex1_env_def fun_eq_iff)
  have c4: "coroutines (without_task 0 ex1_env 1 2 ex3) [1 \<mapsto> KUser Return] 0 = [0 \<mapsto> Runs Return]"
    by (auto simp: coroutines_def without_task_def ex1_env_def fun_eq_iff)
  let ?A = "coroutines ex3 [1 \<mapsto> KJoin 0 1 Return, 2 \<mapsto> KDead]"
  obtain ep s1 env c tc A where w: "co_get_thread_env ex_os 1 ex3 = Inr (ep, s1)" "is_current s1 ep env c tc"
    "(spec_start (demo_main 1) ep)\<^sup>=\<^sup>= ?A A"
    "(spec_act demo_code ep (tsk_id tc))\<^sup>=\<^sup>= A
      (coroutines (without_task 0 ex1_env 1 2 ex3) [1 \<mapsto> KUser Return])"
    using turns_refine [OF r t] by blast
  have "ep = 0" "s1 = ex3" using w(1) by (simp_all add: thread_has_get [OF ex3_thread])
  with w(2) ex3_current have "tsk_id tc = 0" by (simp add: is_current_def ex0_main_fields)
  moreover have "\<not> spec_start (demo_main 1) 0 ?A A"
  proof
    assume "spec_start (demo_main 1) 0 ?A A"
    then have "?A 0 = Map.empty" by cases simp
    then show False unfolding c3 by (metis fun_upd_same fun_upd_apply option.distinct(1) zero_neq_one)
  qed
  then have "A = ?A" using w(3) \<open>ep = 0\<close> by blast
  ultimately show ?thesis
    unfolding demo_w_simps fst_conv snd_conv using c3 c4 w(4) \<open>ep = 0\<close> by simp
qed

end
