(* ===== verification/SingleLists.thy ===== *)
theory SingleLists
  imports Tailq
begin

text \<open>
  The two singly linked containers of \<open>include/queue.h\<close>: singly-linked lists (\<open>SLIST\<close>) and simple
  queues (\<open>SIMPLEQ\<close>), statement by statement over memories of heads and link fields, and the list
  operations they refine. The library itself uses tail queues only.
\<close>

section \<open>Checked accesses\<close>

definition rd :: "('a \<Rightarrow> 'r option) \<Rightarrow> 'a option \<Rightarrow> fault + 'r" where
  "rd M p =
     (case p of
        None \<Rightarrow> Inl NullDeref
      | Some a \<Rightarrow> (case M a of None \<Rightarrow> Inl Dangling | Some r \<Rightarrow> Inr r))"

definition up :: "('a \<Rightarrow> 'r option) \<Rightarrow> 'a option \<Rightarrow> ('r \<Rightarrow> 'r) \<Rightarrow> fault + ('a \<Rightarrow> 'r option)" where
  "up M p f =
     (case p of
        None \<Rightarrow> Inl NullDeref
      | Some a \<Rightarrow> (case M a of None \<Rightarrow> Inl Dangling | Some r \<Rightarrow> Inr (M(a \<mapsto> f r))))"

lemma rd_Some [simp]: "M a = Some r \<Longrightarrow> rd M (Some a) = Inr r"
  by (simp add: rd_def)

lemma rd_None [simp]: "rd M None = Inl NullDeref"
  by (simp add: rd_def)

lemma up_Some [simp]: "M a = Some r \<Longrightarrow> up M (Some a) f = Inr (M(a \<mapsto> f r))"
  by (simp add: up_def)

text \<open>The elements a \<open>FOREACH\<close> loop visits, for the function that gives the next one.\<close>

definition visit :: "('e option \<Rightarrow> fault + 'e option) \<Rightarrow> 'e option \<Rightarrow> fault + 'e list" where
  "visit step var = (case foreach_from step var [] of None \<Rightarrow> Inl Hang | Some r \<Rightarrow> r)"

lemma visit_walk:
  assumes "\<And>as e bs. xs = as @ e # bs \<Longrightarrow> step (Some e) = Inr (hd_or bs None)"
  shows "visit step (hd_or xs None) = Inr xs"
  using foreach_from_walk [of xs step "[]" xs "[]"] assms by (simp add: visit_def)

section \<open>Singly-linked lists\<close>

record 'e sl_head =
  slh_first :: "'e option"

record 'e sl_entry =
  sle_next :: "'e option"

record ('h, 'e) sl_mem =
  sl_heads :: "'h \<Rightarrow> 'e sl_head option"
  sl_elems :: "'e \<Rightarrow> 'e sl_entry option"

definition sl_next :: "'e option \<Rightarrow> ('h, 'e) sl_mem \<Rightarrow> fault + 'e option" where
  "sl_next p m = bnd (rd (sl_elems m) p) (\<lambda>en. Inr (sle_next en))"

definition sl_set_next :: "'e option \<Rightarrow> 'e option \<Rightarrow> ('h, 'e) sl_mem \<Rightarrow> fault + ('h, 'e) sl_mem" where
  "sl_set_next p v m =
     bnd (up (sl_elems m) p (\<lambda>en. en\<lparr>sle_next := v\<rparr>)) (\<lambda>E. Inr (m\<lparr>sl_elems := E\<rparr>))"

definition sl_first :: "'h \<Rightarrow> ('h, 'e) sl_mem \<Rightarrow> fault + 'e option" where
  "sl_first h m = bnd (rd (sl_heads m) (Some h)) (\<lambda>H. Inr (slh_first H))"

definition sl_set_first :: "'h \<Rightarrow> 'e option \<Rightarrow> ('h, 'e) sl_mem \<Rightarrow> fault + ('h, 'e) sl_mem" where
  "sl_set_first h v m =
     bnd (up (sl_heads m) (Some h) (\<lambda>H. H\<lparr>slh_first := v\<rparr>)) (\<lambda>H. Inr (m\<lparr>sl_heads := H\<rparr>))"

definition SLIST_FIRST :: "'h \<Rightarrow> ('h, 'e) sl_mem \<Rightarrow> fault + 'e option" where
  "SLIST_FIRST h m = sl_first h m"

definition SLIST_END :: "'e option" where
  "SLIST_END = None"

definition SLIST_EMPTY :: "'h \<Rightarrow> ('h, 'e) sl_mem \<Rightarrow> fault + bool" where
  "SLIST_EMPTY h m = bnd (SLIST_FIRST h m) (\<lambda>p. Inr (p = SLIST_END))"

definition SLIST_NEXT :: "'e option \<Rightarrow> ('h, 'e) sl_mem \<Rightarrow> fault + 'e option" where
  "SLIST_NEXT elm m = sl_next elm m"

definition SLIST_FOREACH :: "'h \<Rightarrow> ('h, 'e) sl_mem \<Rightarrow> fault + 'e list" where
  "SLIST_FOREACH h m = bnd (SLIST_FIRST h m) (visit (\<lambda>p. SLIST_NEXT p m))"

definition SLIST_INIT :: "'h \<Rightarrow> ('h, 'e) sl_mem \<Rightarrow> fault + ('h, 'e) sl_mem" where
  "SLIST_INIT h m = sl_set_first h SLIST_END m"

definition SLIST_HEAD_INITIALIZER :: "'h \<Rightarrow> 'e sl_head" where
  "SLIST_HEAD_INITIALIZER h = \<lparr>slh_first = None\<rparr>"

definition SLIST_INSERT_AFTER ::
  "'e option \<Rightarrow> 'e option \<Rightarrow> ('h, 'e) sl_mem \<Rightarrow> fault + ('h, 'e) sl_mem" where
  "SLIST_INSERT_AFTER slistelm elm m =
     bnd (sl_next slistelm m) (\<lambda>n.
     bnd (sl_set_next elm n m) (\<lambda>m.
     sl_set_next slistelm elm m))"

definition SLIST_INSERT_HEAD :: "'h \<Rightarrow> 'e option \<Rightarrow> ('h, 'e) sl_mem \<Rightarrow> fault + ('h, 'e) sl_mem" where
  "SLIST_INSERT_HEAD h elm m =
     bnd (sl_first h m) (\<lambda>f.
     bnd (sl_set_next elm f m) (\<lambda>m.
     sl_set_first h elm m))"

definition SLIST_REMOVE_HEAD :: "'h \<Rightarrow> ('h, 'e) sl_mem \<Rightarrow> fault + ('h, 'e) sl_mem" where
  "SLIST_REMOVE_HEAD h m =
     bnd (sl_first h m) (\<lambda>f.
     bnd (sl_next f m) (\<lambda>n.
     sl_set_first h n m))"

text \<open>The list a head represents.\<close>

fun sl_chain :: "('e \<Rightarrow> 'e sl_entry option) \<Rightarrow> 'e list \<Rightarrow> 'e option \<Rightarrow> bool" where
  "sl_chain E [] n \<longleftrightarrow> True"
| "sl_chain E (x # xs) n \<longleftrightarrow> E x = Some \<lparr>sle_next = hd_or xs n\<rparr> \<and> sl_chain E xs n"

definition sl_rep :: "('h, 'e) sl_mem \<Rightarrow> 'h \<Rightarrow> 'e list \<Rightarrow> bool" where
  "sl_rep m h xs \<longleftrightarrow>
     sl_heads m h = Some \<lparr>slh_first = hd_or xs None\<rparr> \<and> sl_chain (sl_elems m) xs None \<and> distinct xs"

lemma sl_chain_append [simp]:
  "sl_chain E (xs @ ys) n \<longleftrightarrow> sl_chain E xs (hd_or ys n) \<and> sl_chain E ys n"
  by (induction xs) auto

lemma sl_chain_upd [simp]: "x \<notin> set xs \<Longrightarrow> sl_chain (E(x := v)) xs n = sl_chain E xs n"
  by (induction xs) auto

lemmas sl_defs = sl_next_def sl_set_next_def sl_first_def sl_set_first_def sl_rep_def

lemma SLIST_INIT_rep:
  "h \<in> dom (sl_heads m) \<Longrightarrow> \<exists>m'. SLIST_INIT h m = Inr m' \<and> sl_rep m' h []"
  by (auto simp: SLIST_INIT_def SLIST_END_def sl_defs)

lemma SLIST_FIRST_rep: "sl_rep m h xs \<Longrightarrow> SLIST_FIRST h m = Inr (hd_or xs None)"
  by (simp add: SLIST_FIRST_def sl_defs)

lemma SLIST_EMPTY_rep: "sl_rep m h xs \<Longrightarrow> SLIST_EMPTY h m = Inr (xs = [])"
  by (simp add: SLIST_EMPTY_def SLIST_FIRST_rep SLIST_END_def)

lemma SLIST_FOREACH_rep:
  assumes "sl_rep m h xs"
  shows "SLIST_FOREACH h m = Inr xs"
proof -
  have "SLIST_NEXT (Some e) m = Inr (hd_or bs None)" if "xs = as @ e # bs" for as e bs
    using assms that by (simp add: SLIST_NEXT_def sl_defs)
  from visit_walk [of xs "\<lambda>p. SLIST_NEXT p m", OF this] assms
  show ?thesis by (simp add: SLIST_FOREACH_def SLIST_FIRST_rep)
qed

lemma SLIST_INSERT_AFTER_rep:
  assumes "sl_rep m h (xs @ a # ys)" and "e \<in> dom (sl_elems m)" and "e \<notin> set (xs @ a # ys)"
  shows "\<exists>m'. SLIST_INSERT_AFTER (Some a) (Some e) m = Inr m' \<and> sl_rep m' h (xs @ a # e # ys)"
  using assms by (auto simp: SLIST_INSERT_AFTER_def sl_defs)

lemma SLIST_INSERT_HEAD_rep:
  assumes "sl_rep m h xs" and "e \<in> dom (sl_elems m)" and "e \<notin> set xs"
  shows "\<exists>m'. SLIST_INSERT_HEAD h (Some e) m = Inr m' \<and> sl_rep m' h (e # xs)"
  using assms by (auto simp: SLIST_INSERT_HEAD_def sl_defs)

lemma SLIST_REMOVE_HEAD_rep:
  assumes "sl_rep m h (x # xs)"
  shows "\<exists>m'. SLIST_REMOVE_HEAD h m = Inr m' \<and> sl_rep m' h xs"
  using assms by (auto simp: SLIST_REMOVE_HEAD_def sl_defs)

lemma SLIST_REMOVE_HEAD_empty: "sl_rep m h [] \<Longrightarrow> SLIST_REMOVE_HEAD h m = Inl NullDeref"
  by (simp add: SLIST_REMOVE_HEAD_def sl_defs)

section \<open>Simple queues\<close>

text \<open>\<open>sqh_last\<close> is the address of the last \<open>next\<close> cell: that of an element or the first cell of a head.\<close>

record ('h, 'e) sq_head =
  sqh_first :: "'e option"
  sqh_last :: "('h, 'e) slot option"

record 'e sq_entry =
  sqe_next :: "'e option"

record ('h, 'e) sq_mem =
  sq_heads :: "'h \<Rightarrow> ('h, 'e) sq_head option"
  sq_elems :: "'e \<Rightarrow> 'e sq_entry option"

definition sq_next :: "'e option \<Rightarrow> ('h, 'e) sq_mem \<Rightarrow> fault + 'e option" where
  "sq_next p m = bnd (rd (sq_elems m) p) (\<lambda>en. Inr (sqe_next en))"

definition sq_set_next :: "'e option \<Rightarrow> 'e option \<Rightarrow> ('h, 'e) sq_mem \<Rightarrow> fault + ('h, 'e) sq_mem" where
  "sq_set_next p v m =
     bnd (up (sq_elems m) p (\<lambda>en. en\<lparr>sqe_next := v\<rparr>)) (\<lambda>E. Inr (m\<lparr>sq_elems := E\<rparr>))"

definition sq_first :: "'h \<Rightarrow> ('h, 'e) sq_mem \<Rightarrow> fault + 'e option" where
  "sq_first h m = bnd (rd (sq_heads m) (Some h)) (\<lambda>H. Inr (sqh_first H))"

definition sq_set_first :: "'h \<Rightarrow> 'e option \<Rightarrow> ('h, 'e) sq_mem \<Rightarrow> fault + ('h, 'e) sq_mem" where
  "sq_set_first h v m =
     bnd (up (sq_heads m) (Some h) (\<lambda>H. H\<lparr>sqh_first := v\<rparr>)) (\<lambda>H. Inr (m\<lparr>sq_heads := H\<rparr>))"

definition sq_last :: "'h \<Rightarrow> ('h, 'e) sq_mem \<Rightarrow> fault + ('h, 'e) slot option" where
  "sq_last h m = bnd (rd (sq_heads m) (Some h)) (\<lambda>H. Inr (sqh_last H))"

definition sq_set_last ::
  "'h \<Rightarrow> ('h, 'e) slot option \<Rightarrow> ('h, 'e) sq_mem \<Rightarrow> fault + ('h, 'e) sq_mem" where
  "sq_set_last h v m =
     bnd (up (sq_heads m) (Some h) (\<lambda>H. H\<lparr>sqh_last := v\<rparr>)) (\<lambda>H. Inr (m\<lparr>sq_heads := H\<rparr>))"

definition sq_wr_slot ::
  "('h, 'e) slot option \<Rightarrow> 'e option \<Rightarrow> ('h, 'e) sq_mem \<Rightarrow> fault + ('h, 'e) sq_mem" where
  "sq_wr_slot sl v m =
     (case sl of
        None \<Rightarrow> Inl NullDeref
      | Some (HeadFirst h) \<Rightarrow> sq_set_first h v m
      | Some (ElemNext e) \<Rightarrow> sq_set_next (Some e) v m)"

definition SIMPLEQ_FIRST :: "'h \<Rightarrow> ('h, 'e) sq_mem \<Rightarrow> fault + 'e option" where
  "SIMPLEQ_FIRST h m = sq_first h m"

definition SIMPLEQ_END :: "'e option" where
  "SIMPLEQ_END = None"

definition SIMPLEQ_EMPTY :: "'h \<Rightarrow> ('h, 'e) sq_mem \<Rightarrow> fault + bool" where
  "SIMPLEQ_EMPTY h m = bnd (SIMPLEQ_FIRST h m) (\<lambda>p. Inr (p = SIMPLEQ_END))"

definition SIMPLEQ_NEXT :: "'e option \<Rightarrow> ('h, 'e) sq_mem \<Rightarrow> fault + 'e option" where
  "SIMPLEQ_NEXT elm m = sq_next elm m"

definition SIMPLEQ_FOREACH :: "'h \<Rightarrow> ('h, 'e) sq_mem \<Rightarrow> fault + 'e list" where
  "SIMPLEQ_FOREACH h m = bnd (SIMPLEQ_FIRST h m) (visit (\<lambda>p. SIMPLEQ_NEXT p m))"

definition SIMPLEQ_INIT :: "'h \<Rightarrow> ('h, 'e) sq_mem \<Rightarrow> fault + ('h, 'e) sq_mem" where
  "SIMPLEQ_INIT h m =
     bnd (sq_set_first h None m) (\<lambda>m.
     sq_set_last h (Some (HeadFirst h)) m)"

definition SIMPLEQ_HEAD_INITIALIZER :: "'h \<Rightarrow> ('h, 'e) sq_head" where
  "SIMPLEQ_HEAD_INITIALIZER h = \<lparr>sqh_first = None, sqh_last = Some (HeadFirst h)\<rparr>"

definition SIMPLEQ_INSERT_HEAD ::
  "'h \<Rightarrow> 'e option \<Rightarrow> ('h, 'e) sq_mem \<Rightarrow> fault + ('h, 'e) sq_mem" where
  "SIMPLEQ_INSERT_HEAD h elm m =
     bnd (sq_first h m) (\<lambda>f.
     bnd (sq_set_next elm f m) (\<lambda>m.
     bnd (if f = None then sq_set_last h (map_option ElemNext elm) m else Inr m) (\<lambda>m.
     sq_set_first h elm m)))"

definition SIMPLEQ_INSERT_TAIL ::
  "'h \<Rightarrow> 'e option \<Rightarrow> ('h, 'e) sq_mem \<Rightarrow> fault + ('h, 'e) sq_mem" where
  "SIMPLEQ_INSERT_TAIL h elm m =
     bnd (sq_set_next elm None m) (\<lambda>m.
     bnd (sq_last h m) (\<lambda>l.
     bnd (sq_wr_slot l elm m) (\<lambda>m.
     sq_set_last h (map_option ElemNext elm) m)))"

definition SIMPLEQ_INSERT_AFTER ::
  "'h \<Rightarrow> 'e option \<Rightarrow> 'e option \<Rightarrow> ('h, 'e) sq_mem \<Rightarrow> fault + ('h, 'e) sq_mem" where
  "SIMPLEQ_INSERT_AFTER h listelm elm m =
     bnd (sq_next listelm m) (\<lambda>n.
     bnd (sq_set_next elm n m) (\<lambda>m.
     bnd (if n = None then sq_set_last h (map_option ElemNext elm) m else Inr m) (\<lambda>m.
     sq_set_next listelm elm m)))"

definition SIMPLEQ_REMOVE_HEAD ::
  "'h \<Rightarrow> 'e option \<Rightarrow> ('h, 'e) sq_mem \<Rightarrow> fault + ('h, 'e) sq_mem" where
  "SIMPLEQ_REMOVE_HEAD h elm m =
     bnd (sq_next elm m) (\<lambda>n.
     bnd (sq_set_first h n m) (\<lambda>m.
     if n = None then sq_set_last h (Some (HeadFirst h)) m else Inr m))"

fun sq_chain :: "('e \<Rightarrow> 'e sq_entry option) \<Rightarrow> 'e list \<Rightarrow> 'e option \<Rightarrow> bool" where
  "sq_chain E [] n \<longleftrightarrow> True"
| "sq_chain E (x # xs) n \<longleftrightarrow> E x = Some \<lparr>sqe_next = hd_or xs n\<rparr> \<and> sq_chain E xs n"

definition sq_rep :: "('h, 'e) sq_mem \<Rightarrow> 'h \<Rightarrow> 'e list \<Rightarrow> bool" where
  "sq_rep m h xs \<longleftrightarrow>
     sq_heads m h = Some \<lparr>sqh_first = hd_or xs None, sqh_last = Some (end_slot (HeadFirst h) xs)\<rparr> \<and>
     sq_chain (sq_elems m) xs None \<and> distinct xs"

lemma sq_chain_append [simp]:
  "sq_chain E (xs @ ys) n \<longleftrightarrow> sq_chain E xs (hd_or ys n) \<and> sq_chain E ys n"
  by (induction xs) auto

lemma sq_chain_upd [simp]: "x \<notin> set xs \<Longrightarrow> sq_chain (E(x := v)) xs n = sq_chain E xs n"
  by (induction xs) auto

lemmas sq_defs = sq_next_def sq_set_next_def sq_first_def sq_set_first_def sq_last_def sq_set_last_def
  sq_wr_slot_def sq_rep_def

lemma SIMPLEQ_INIT_rep:
  "h \<in> dom (sq_heads m) \<Longrightarrow> \<exists>m'. SIMPLEQ_INIT h m = Inr m' \<and> sq_rep m' h []"
  by (auto simp: SIMPLEQ_INIT_def sq_defs)

lemma SIMPLEQ_FIRST_rep: "sq_rep m h xs \<Longrightarrow> SIMPLEQ_FIRST h m = Inr (hd_or xs None)"
  by (simp add: SIMPLEQ_FIRST_def sq_defs)

lemma SIMPLEQ_EMPTY_rep: "sq_rep m h xs \<Longrightarrow> SIMPLEQ_EMPTY h m = Inr (xs = [])"
  by (simp add: SIMPLEQ_EMPTY_def SIMPLEQ_FIRST_rep SIMPLEQ_END_def)

lemma SIMPLEQ_FOREACH_rep:
  assumes "sq_rep m h xs"
  shows "SIMPLEQ_FOREACH h m = Inr xs"
proof -
  have "SIMPLEQ_NEXT (Some e) m = Inr (hd_or bs None)" if "xs = as @ e # bs" for as e bs
    using assms that by (simp add: SIMPLEQ_NEXT_def sq_defs)
  from visit_walk [of xs "\<lambda>p. SIMPLEQ_NEXT p m", OF this] assms
  show ?thesis by (simp add: SIMPLEQ_FOREACH_def SIMPLEQ_FIRST_rep)
qed

lemma SIMPLEQ_INSERT_HEAD_rep:
  assumes "sq_rep m h xs" and "e \<in> dom (sq_elems m)" and "e \<notin> set xs"
  shows "\<exists>m'. SIMPLEQ_INSERT_HEAD h (Some e) m = Inr m' \<and> sq_rep m' h (e # xs)"
  using assms by (cases xs) (auto simp: SIMPLEQ_INSERT_HEAD_def sq_defs)

lemma SIMPLEQ_INSERT_TAIL_rep:
  assumes "sq_rep m h xs" and "e \<in> dom (sq_elems m)" and "e \<notin> set xs"
  shows "\<exists>m'. SIMPLEQ_INSERT_TAIL h (Some e) m = Inr m' \<and> sq_rep m' h (xs @ [e])"
  using assms by (cases xs rule: rev_cases) (auto simp: SIMPLEQ_INSERT_TAIL_def sq_defs)

lemma SIMPLEQ_INSERT_AFTER_rep:
  assumes "sq_rep m h (xs @ a # ys)" and "e \<in> dom (sq_elems m)" and "e \<notin> set (xs @ a # ys)"
  shows "\<exists>m'. SIMPLEQ_INSERT_AFTER h (Some a) (Some e) m = Inr m' \<and> sq_rep m' h (xs @ a # e # ys)"
  using assms by (cases ys) (auto simp: SIMPLEQ_INSERT_AFTER_def sq_defs)

lemma SIMPLEQ_REMOVE_HEAD_rep:
  assumes "sq_rep m h (x # xs)"
  shows "\<exists>m'. SIMPLEQ_REMOVE_HEAD h (Some x) m = Inr m' \<and> sq_rep m' h xs"
  using assms by (cases xs) (auto simp: SIMPLEQ_REMOVE_HEAD_def sq_defs)

end
