(* ===== verification/DoubleLists.thy ===== *)
theory DoubleLists
  imports SingleLists
begin

text \<open>
  The other two doubly linked containers of \<open>include/queue.h\<close>: lists (\<open>LIST\<close>), whose back links are
  addresses of \<open>next\<close> cells, and circular queues (\<open>CIRCLEQ\<close>), whose links go through the head. Each
  macro refines its operation on lists. \<open>CIRCLEQ_REPLACE\<close> has no model: it takes the head as a pointer
  in its tests and as a structure in its assignments, so no use of it compiles.
\<close>

section \<open>Lists\<close>

record 'e li_head =
  lh_first :: "'e option"

record ('h, 'e) li_entry =
  le_next :: "'e option"
  le_prev :: "('h, 'e) slot option"

record ('h, 'e) li_mem =
  li_heads :: "'h \<Rightarrow> 'e li_head option"
  li_elems :: "'e \<Rightarrow> ('h, 'e) li_entry option"

definition li_next :: "'e option \<Rightarrow> ('h, 'e) li_mem \<Rightarrow> fault + 'e option" where
  "li_next p m = bnd (rd (li_elems m) p) (\<lambda>en. Inr (le_next en))"

definition li_set_next :: "'e option \<Rightarrow> 'e option \<Rightarrow> ('h, 'e) li_mem \<Rightarrow> fault + ('h, 'e) li_mem" where
  "li_set_next p v m =
     bnd (up (li_elems m) p (\<lambda>en. en\<lparr>le_next := v\<rparr>)) (\<lambda>E. Inr (m\<lparr>li_elems := E\<rparr>))"

definition li_prev :: "'e option \<Rightarrow> ('h, 'e) li_mem \<Rightarrow> fault + ('h, 'e) slot option" where
  "li_prev p m = bnd (rd (li_elems m) p) (\<lambda>en. Inr (le_prev en))"

definition li_set_prev ::
  "'e option \<Rightarrow> ('h, 'e) slot option \<Rightarrow> ('h, 'e) li_mem \<Rightarrow> fault + ('h, 'e) li_mem" where
  "li_set_prev p v m =
     bnd (up (li_elems m) p (\<lambda>en. en\<lparr>le_prev := v\<rparr>)) (\<lambda>E. Inr (m\<lparr>li_elems := E\<rparr>))"

definition li_first :: "'h \<Rightarrow> ('h, 'e) li_mem \<Rightarrow> fault + 'e option" where
  "li_first h m = bnd (rd (li_heads m) (Some h)) (\<lambda>H. Inr (lh_first H))"

definition li_set_first :: "'h \<Rightarrow> 'e option \<Rightarrow> ('h, 'e) li_mem \<Rightarrow> fault + ('h, 'e) li_mem" where
  "li_set_first h v m =
     bnd (up (li_heads m) (Some h) (\<lambda>H. H\<lparr>lh_first := v\<rparr>)) (\<lambda>H. Inr (m\<lparr>li_heads := H\<rparr>))"

definition li_wr_slot ::
  "('h, 'e) slot option \<Rightarrow> 'e option \<Rightarrow> ('h, 'e) li_mem \<Rightarrow> fault + ('h, 'e) li_mem" where
  "li_wr_slot sl v m =
     (case sl of
        None \<Rightarrow> Inl NullDeref
      | Some (HeadFirst h) \<Rightarrow> li_set_first h v m
      | Some (ElemNext e) \<Rightarrow> li_set_next (Some e) v m)"

definition LIST_FIRST :: "'h \<Rightarrow> ('h, 'e) li_mem \<Rightarrow> fault + 'e option" where
  "LIST_FIRST h m = li_first h m"

definition LIST_END :: "'e option" where
  "LIST_END = None"

definition LIST_EMPTY :: "'h \<Rightarrow> ('h, 'e) li_mem \<Rightarrow> fault + bool" where
  "LIST_EMPTY h m = bnd (LIST_FIRST h m) (\<lambda>p. Inr (p = LIST_END))"

definition LIST_NEXT :: "'e option \<Rightarrow> ('h, 'e) li_mem \<Rightarrow> fault + 'e option" where
  "LIST_NEXT elm m = li_next elm m"

definition LIST_FOREACH :: "'h \<Rightarrow> ('h, 'e) li_mem \<Rightarrow> fault + 'e list" where
  "LIST_FOREACH h m = bnd (LIST_FIRST h m) (visit (\<lambda>p. LIST_NEXT p m))"

definition LIST_INIT :: "'h \<Rightarrow> ('h, 'e) li_mem \<Rightarrow> fault + ('h, 'e) li_mem" where
  "LIST_INIT h m = li_set_first h LIST_END m"

definition LIST_HEAD_INITIALIZER :: "'h \<Rightarrow> 'e li_head" where
  "LIST_HEAD_INITIALIZER h = \<lparr>lh_first = None\<rparr>"

definition LIST_INSERT_AFTER ::
  "'e option \<Rightarrow> 'e option \<Rightarrow> ('h, 'e) li_mem \<Rightarrow> fault + ('h, 'e) li_mem" where
  "LIST_INSERT_AFTER listelm elm m =
     bnd (li_next listelm m) (\<lambda>n.
     bnd (li_set_next elm n m) (\<lambda>m.
     bnd (if n \<noteq> None
          then bnd (li_next listelm m) (\<lambda>n. li_set_prev n (map_option ElemNext elm) m)
          else Inr m) (\<lambda>m.
     bnd (li_set_next listelm elm m) (\<lambda>m.
     li_set_prev elm (map_option ElemNext listelm) m))))"

definition LIST_INSERT_BEFORE ::
  "'e option \<Rightarrow> 'e option \<Rightarrow> ('h, 'e) li_mem \<Rightarrow> fault + ('h, 'e) li_mem" where
  "LIST_INSERT_BEFORE listelm elm m =
     bnd (li_prev listelm m) (\<lambda>p.
     bnd (li_set_prev elm p m) (\<lambda>m.
     bnd (li_set_next elm listelm m) (\<lambda>m.
     bnd (li_prev listelm m) (\<lambda>p.
     bnd (li_wr_slot p elm m) (\<lambda>m.
     li_set_prev listelm (map_option ElemNext elm) m)))))"

definition LIST_INSERT_HEAD :: "'h \<Rightarrow> 'e option \<Rightarrow> ('h, 'e) li_mem \<Rightarrow> fault + ('h, 'e) li_mem" where
  "LIST_INSERT_HEAD h elm m =
     bnd (li_first h m) (\<lambda>f.
     bnd (li_set_next elm f m) (\<lambda>m.
     bnd (if f \<noteq> None
          then bnd (li_first h m) (\<lambda>f. li_set_prev f (map_option ElemNext elm) m)
          else Inr m) (\<lambda>m.
     bnd (li_set_first h elm m) (\<lambda>m.
     li_set_prev elm (Some (HeadFirst h)) m))))"

definition LIST_REMOVE :: "'e option \<Rightarrow> ('h, 'e) li_mem \<Rightarrow> fault + ('h, 'e) li_mem" where
  "LIST_REMOVE elm m =
     bnd (li_next elm m) (\<lambda>n.
     bnd (if n \<noteq> None
          then bnd (li_prev elm m) (\<lambda>p. li_set_prev n p m)
          else Inr m) (\<lambda>m.
     bnd (li_prev elm m) (\<lambda>p.
     bnd (li_next elm m) (\<lambda>n.
     li_wr_slot p n m))))"

definition LIST_REPLACE ::
  "'e option \<Rightarrow> 'e option \<Rightarrow> ('h, 'e) li_mem \<Rightarrow> fault + ('h, 'e) li_mem" where
  "LIST_REPLACE elm elm2 m =
     bnd (li_next elm m) (\<lambda>n.
     bnd (li_set_next elm2 n m) (\<lambda>m.
     bnd (if n \<noteq> None
          then bnd (li_next elm2 m) (\<lambda>n. li_set_prev n (map_option ElemNext elm2) m)
          else Inr m) (\<lambda>m.
     bnd (li_prev elm m) (\<lambda>p.
     bnd (li_set_prev elm2 p m) (\<lambda>m.
     bnd (li_prev elm2 m) (\<lambda>p.
     li_wr_slot p elm2 m))))))"

fun li_chain ::
  "('e \<Rightarrow> ('h, 'e) li_entry option) \<Rightarrow> ('h, 'e) slot \<Rightarrow> 'e list \<Rightarrow> 'e option \<Rightarrow> bool" where
  "li_chain E s [] n \<longleftrightarrow> True"
| "li_chain E s (x # xs) n \<longleftrightarrow>
     E x = Some \<lparr>le_next = hd_or xs n, le_prev = Some s\<rparr> \<and> li_chain E (ElemNext x) xs n"

definition li_rep :: "('h, 'e) li_mem \<Rightarrow> 'h \<Rightarrow> 'e list \<Rightarrow> bool" where
  "li_rep m h xs \<longleftrightarrow>
     li_heads m h = Some \<lparr>lh_first = hd_or xs None\<rparr> \<and>
     li_chain (li_elems m) (HeadFirst h) xs None \<and> distinct xs"

lemma li_chain_append [simp]:
  "li_chain E s (xs @ ys) n \<longleftrightarrow> li_chain E s xs (hd_or ys n) \<and> li_chain E (end_slot s xs) ys n"
  by (induction xs arbitrary: s) auto

lemma li_chain_upd [simp]: "x \<notin> set xs \<Longrightarrow> li_chain (E(x := v)) s xs n = li_chain E s xs n"
  by (induction xs arbitrary: s) auto

lemmas li_defs = li_next_def li_set_next_def li_prev_def li_set_prev_def li_first_def li_set_first_def
  li_wr_slot_def li_rep_def

lemma LIST_INIT_rep:
  "h \<in> dom (li_heads m) \<Longrightarrow> \<exists>m'. LIST_INIT h m = Inr m' \<and> li_rep m' h []"
  by (auto simp: LIST_INIT_def LIST_END_def li_defs)

lemma LIST_FIRST_rep: "li_rep m h xs \<Longrightarrow> LIST_FIRST h m = Inr (hd_or xs None)"
  by (simp add: LIST_FIRST_def li_defs)

lemma LIST_EMPTY_rep: "li_rep m h xs \<Longrightarrow> LIST_EMPTY h m = Inr (xs = [])"
  by (simp add: LIST_EMPTY_def LIST_FIRST_rep LIST_END_def)

lemma LIST_FOREACH_rep:
  assumes "li_rep m h xs"
  shows "LIST_FOREACH h m = Inr xs"
proof -
  have "LIST_NEXT (Some e) m = Inr (hd_or bs None)" if "xs = as @ e # bs" for as e bs
    using assms that by (simp add: LIST_NEXT_def li_defs)
  from visit_walk [of xs "\<lambda>p. LIST_NEXT p m", OF this] assms
  show ?thesis by (simp add: LIST_FOREACH_def LIST_FIRST_rep)
qed

lemma LIST_INSERT_HEAD_rep:
  assumes "li_rep m h xs" and "e \<in> dom (li_elems m)" and "e \<notin> set xs"
  shows "\<exists>m'. LIST_INSERT_HEAD h (Some e) m = Inr m' \<and> li_rep m' h (e # xs)"
  using assms by (cases xs) (auto simp: LIST_INSERT_HEAD_def li_defs)

lemma LIST_INSERT_AFTER_rep:
  assumes "li_rep m h (xs @ a # ys)" and "e \<in> dom (li_elems m)" and "e \<notin> set (xs @ a # ys)"
  shows "\<exists>m'. LIST_INSERT_AFTER (Some a) (Some e) m = Inr m' \<and> li_rep m' h (xs @ a # e # ys)"
  using assms by (cases ys) (auto simp: LIST_INSERT_AFTER_def li_defs)

lemma LIST_INSERT_BEFORE_rep:
  assumes "li_rep m h (xs @ a # ys)" and "e \<in> dom (li_elems m)" and "e \<notin> set (xs @ a # ys)"
  shows "\<exists>m'. LIST_INSERT_BEFORE (Some a) (Some e) m = Inr m' \<and> li_rep m' h (xs @ e # a # ys)"
  using assms by (cases xs rule: rev_cases) (auto simp: LIST_INSERT_BEFORE_def li_defs)

lemma LIST_REMOVE_rep:
  assumes "li_rep m h (xs @ e # ys)"
  shows "\<exists>m'. LIST_REMOVE (Some e) m = Inr m' \<and> li_rep m' h (xs @ ys)"
  using assms by (cases xs rule: rev_cases; cases ys) (auto simp: LIST_REMOVE_def li_defs)

lemma LIST_REPLACE_rep:
  assumes "li_rep m h (xs @ a # ys)" and "e \<in> dom (li_elems m)" and "e \<notin> set (xs @ a # ys)"
  shows "\<exists>m'. LIST_REPLACE (Some a) (Some e) m = Inr m' \<and> li_rep m' h (xs @ e # ys)"
  using assms by (cases xs rule: rev_cases; cases ys) (auto simp: LIST_REPLACE_def li_defs)

section \<open>Circular queues\<close>

text \<open>
  A link points to an element or, as \<open>CIRCLEQ_END\<close>, to the head itself.
\<close>

datatype ('h, 'e) cq_ptr = AtHead 'h | AtElem 'e

record ('h, 'e) cq_head =
  cqh_first :: "('h, 'e) cq_ptr"
  cqh_last :: "('h, 'e) cq_ptr"

record ('h, 'e) cq_entry =
  cqe_next :: "('h, 'e) cq_ptr"
  cqe_prev :: "('h, 'e) cq_ptr"

record ('h, 'e) cq_mem =
  cq_heads :: "'h \<Rightarrow> ('h, 'e) cq_head option"
  cq_elems :: "'e \<Rightarrow> ('h, 'e) cq_entry option"

text \<open>The element a link points to; the macros never follow a link to a head as an element.\<close>

definition elem_of :: "('h, 'e) cq_ptr \<Rightarrow> 'e option" where
  "elem_of p = (case p of AtHead _ \<Rightarrow> None | AtElem e \<Rightarrow> Some e)"

definition cq_next :: "('h, 'e) cq_ptr \<Rightarrow> ('h, 'e) cq_mem \<Rightarrow> fault + ('h, 'e) cq_ptr" where
  "cq_next p m = bnd (rd (cq_elems m) (elem_of p)) (\<lambda>en. Inr (cqe_next en))"

definition cq_set_next ::
  "('h, 'e) cq_ptr \<Rightarrow> ('h, 'e) cq_ptr \<Rightarrow> ('h, 'e) cq_mem \<Rightarrow> fault + ('h, 'e) cq_mem" where
  "cq_set_next p v m =
     bnd (up (cq_elems m) (elem_of p) (\<lambda>en. en\<lparr>cqe_next := v\<rparr>)) (\<lambda>E. Inr (m\<lparr>cq_elems := E\<rparr>))"

definition cq_prev :: "('h, 'e) cq_ptr \<Rightarrow> ('h, 'e) cq_mem \<Rightarrow> fault + ('h, 'e) cq_ptr" where
  "cq_prev p m = bnd (rd (cq_elems m) (elem_of p)) (\<lambda>en. Inr (cqe_prev en))"

definition cq_set_prev ::
  "('h, 'e) cq_ptr \<Rightarrow> ('h, 'e) cq_ptr \<Rightarrow> ('h, 'e) cq_mem \<Rightarrow> fault + ('h, 'e) cq_mem" where
  "cq_set_prev p v m =
     bnd (up (cq_elems m) (elem_of p) (\<lambda>en. en\<lparr>cqe_prev := v\<rparr>)) (\<lambda>E. Inr (m\<lparr>cq_elems := E\<rparr>))"

definition cq_first :: "'h \<Rightarrow> ('h, 'e) cq_mem \<Rightarrow> fault + ('h, 'e) cq_ptr" where
  "cq_first h m = bnd (rd (cq_heads m) (Some h)) (\<lambda>H. Inr (cqh_first H))"

definition cq_set_first ::
  "'h \<Rightarrow> ('h, 'e) cq_ptr \<Rightarrow> ('h, 'e) cq_mem \<Rightarrow> fault + ('h, 'e) cq_mem" where
  "cq_set_first h v m =
     bnd (up (cq_heads m) (Some h) (\<lambda>H. H\<lparr>cqh_first := v\<rparr>)) (\<lambda>H. Inr (m\<lparr>cq_heads := H\<rparr>))"

definition cq_last :: "'h \<Rightarrow> ('h, 'e) cq_mem \<Rightarrow> fault + ('h, 'e) cq_ptr" where
  "cq_last h m = bnd (rd (cq_heads m) (Some h)) (\<lambda>H. Inr (cqh_last H))"

definition cq_set_last ::
  "'h \<Rightarrow> ('h, 'e) cq_ptr \<Rightarrow> ('h, 'e) cq_mem \<Rightarrow> fault + ('h, 'e) cq_mem" where
  "cq_set_last h v m =
     bnd (up (cq_heads m) (Some h) (\<lambda>H. H\<lparr>cqh_last := v\<rparr>)) (\<lambda>H. Inr (m\<lparr>cq_heads := H\<rparr>))"

definition CIRCLEQ_FIRST :: "'h \<Rightarrow> ('h, 'e) cq_mem \<Rightarrow> fault + ('h, 'e) cq_ptr" where
  "CIRCLEQ_FIRST h m = cq_first h m"

definition CIRCLEQ_LAST :: "'h \<Rightarrow> ('h, 'e) cq_mem \<Rightarrow> fault + ('h, 'e) cq_ptr" where
  "CIRCLEQ_LAST h m = cq_last h m"

definition CIRCLEQ_END :: "'h \<Rightarrow> ('h, 'e) cq_ptr" where
  "CIRCLEQ_END h = AtHead h"

definition CIRCLEQ_NEXT :: "('h, 'e) cq_ptr \<Rightarrow> ('h, 'e) cq_mem \<Rightarrow> fault + ('h, 'e) cq_ptr" where
  "CIRCLEQ_NEXT elm m = cq_next elm m"

definition CIRCLEQ_PREV :: "('h, 'e) cq_ptr \<Rightarrow> ('h, 'e) cq_mem \<Rightarrow> fault + ('h, 'e) cq_ptr" where
  "CIRCLEQ_PREV elm m = cq_prev elm m"

definition CIRCLEQ_EMPTY :: "'h \<Rightarrow> ('h, 'e) cq_mem \<Rightarrow> fault + bool" where
  "CIRCLEQ_EMPTY h m = bnd (CIRCLEQ_FIRST h m) (\<lambda>p. Inr (p = CIRCLEQ_END h))"

definition CIRCLEQ_INIT :: "'h \<Rightarrow> ('h, 'e) cq_mem \<Rightarrow> fault + ('h, 'e) cq_mem" where
  "CIRCLEQ_INIT h m =
     bnd (cq_set_first h (CIRCLEQ_END h) m) (\<lambda>m.
     cq_set_last h (CIRCLEQ_END h) m)"

definition CIRCLEQ_HEAD_INITIALIZER :: "'h \<Rightarrow> ('h, 'e) cq_head" where
  "CIRCLEQ_HEAD_INITIALIZER h = \<lparr>cqh_first = CIRCLEQ_END h, cqh_last = CIRCLEQ_END h\<rparr>"

definition CIRCLEQ_INSERT_AFTER ::
  "'h \<Rightarrow> ('h, 'e) cq_ptr \<Rightarrow> ('h, 'e) cq_ptr \<Rightarrow> ('h, 'e) cq_mem \<Rightarrow> fault + ('h, 'e) cq_mem" where
  "CIRCLEQ_INSERT_AFTER h listelm elm m =
     bnd (cq_next listelm m) (\<lambda>n.
     bnd (cq_set_next elm n m) (\<lambda>m.
     bnd (cq_set_prev elm listelm m) (\<lambda>m.
     bnd (cq_next listelm m) (\<lambda>n.
     bnd (if n = CIRCLEQ_END h then cq_set_last h elm m
          else bnd (cq_next listelm m) (\<lambda>n. cq_set_prev n elm m)) (\<lambda>m.
     cq_set_next listelm elm m)))))"

definition CIRCLEQ_INSERT_BEFORE ::
  "'h \<Rightarrow> ('h, 'e) cq_ptr \<Rightarrow> ('h, 'e) cq_ptr \<Rightarrow> ('h, 'e) cq_mem \<Rightarrow> fault + ('h, 'e) cq_mem" where
  "CIRCLEQ_INSERT_BEFORE h listelm elm m =
     bnd (cq_set_next elm listelm m) (\<lambda>m.
     bnd (cq_prev listelm m) (\<lambda>p.
     bnd (cq_set_prev elm p m) (\<lambda>m.
     bnd (cq_prev listelm m) (\<lambda>p.
     bnd (if p = CIRCLEQ_END h then cq_set_first h elm m
          else bnd (cq_prev listelm m) (\<lambda>p. cq_set_next p elm m)) (\<lambda>m.
     cq_set_prev listelm elm m)))))"

definition CIRCLEQ_INSERT_HEAD ::
  "'h \<Rightarrow> ('h, 'e) cq_ptr \<Rightarrow> ('h, 'e) cq_mem \<Rightarrow> fault + ('h, 'e) cq_mem" where
  "CIRCLEQ_INSERT_HEAD h elm m =
     bnd (cq_first h m) (\<lambda>f.
     bnd (cq_set_next elm f m) (\<lambda>m.
     bnd (cq_set_prev elm (CIRCLEQ_END h) m) (\<lambda>m.
     bnd (cq_last h m) (\<lambda>l.
     bnd (if l = CIRCLEQ_END h then cq_set_last h elm m
          else bnd (cq_first h m) (\<lambda>f. cq_set_prev f elm m)) (\<lambda>m.
     cq_set_first h elm m)))))"

definition CIRCLEQ_INSERT_TAIL ::
  "'h \<Rightarrow> ('h, 'e) cq_ptr \<Rightarrow> ('h, 'e) cq_mem \<Rightarrow> fault + ('h, 'e) cq_mem" where
  "CIRCLEQ_INSERT_TAIL h elm m =
     bnd (cq_set_next elm (CIRCLEQ_END h) m) (\<lambda>m.
     bnd (cq_last h m) (\<lambda>l.
     bnd (cq_set_prev elm l m) (\<lambda>m.
     bnd (cq_first h m) (\<lambda>f.
     bnd (if f = CIRCLEQ_END h then cq_set_first h elm m
          else bnd (cq_last h m) (\<lambda>l. cq_set_next l elm m)) (\<lambda>m.
     cq_set_last h elm m)))))"

definition CIRCLEQ_REMOVE ::
  "'h \<Rightarrow> ('h, 'e) cq_ptr \<Rightarrow> ('h, 'e) cq_mem \<Rightarrow> fault + ('h, 'e) cq_mem" where
  "CIRCLEQ_REMOVE h elm m =
     bnd (cq_next elm m) (\<lambda>n.
     bnd (if n = CIRCLEQ_END h then bnd (cq_prev elm m) (\<lambda>p. cq_set_last h p m)
          else bnd (cq_prev elm m) (\<lambda>p. cq_set_prev n p m)) (\<lambda>m.
     bnd (cq_prev elm m) (\<lambda>p.
     if p = CIRCLEQ_END h then bnd (cq_next elm m) (\<lambda>n. cq_set_first h n m)
     else bnd (cq_next elm m) (\<lambda>n. cq_set_next p n m))))"

text \<open>The loops stop at the head, not at NULL.\<close>

partial_function (option) cq_visit ::
  "(('h, 'e) cq_ptr \<Rightarrow> fault + ('h, 'e) cq_ptr) \<Rightarrow> 'h \<Rightarrow> ('h, 'e) cq_ptr \<Rightarrow> 'e list \<Rightarrow>
   (fault + 'e list) option" where
  "cq_visit step h var acc =
     (if var = CIRCLEQ_END h then Some (Inr (rev acc))
      else
        (case var of
           AtHead h' \<Rightarrow> Some (Inl Dangling)
         | AtElem e \<Rightarrow>
             (case step var of
                Inl f \<Rightarrow> Some (Inl f)
              | Inr n \<Rightarrow> cq_visit step h n (e # acc))))"

definition CIRCLEQ_FOREACH :: "'h \<Rightarrow> ('h, 'e) cq_mem \<Rightarrow> fault + 'e list" where
  "CIRCLEQ_FOREACH h m =
     bnd (CIRCLEQ_FIRST h m) (\<lambda>var.
     case cq_visit (\<lambda>p. CIRCLEQ_NEXT p m) h var [] of None \<Rightarrow> Inl Hang | Some r \<Rightarrow> r)"

definition CIRCLEQ_FOREACH_REVERSE :: "'h \<Rightarrow> ('h, 'e) cq_mem \<Rightarrow> fault + 'e list" where
  "CIRCLEQ_FOREACH_REVERSE h m =
     bnd (CIRCLEQ_LAST h m) (\<lambda>var.
     case cq_visit (\<lambda>p. CIRCLEQ_PREV p m) h var [] of None \<Rightarrow> Inl Hang | Some r \<Rightarrow> r)"


definition hd_ptr :: "'e list \<Rightarrow> ('h, 'e) cq_ptr \<Rightarrow> ('h, 'e) cq_ptr" where
  "hd_ptr xs n = (case xs of [] \<Rightarrow> n | x # _ \<Rightarrow> AtElem x)"

definition last_ptr :: "('h, 'e) cq_ptr \<Rightarrow> 'e list \<Rightarrow> ('h, 'e) cq_ptr" where
  "last_ptr p xs = (if xs = [] then p else AtElem (last xs))"

fun cq_chain ::
  "('e \<Rightarrow> ('h, 'e) cq_entry option) \<Rightarrow> ('h, 'e) cq_ptr \<Rightarrow> 'e list \<Rightarrow> ('h, 'e) cq_ptr \<Rightarrow> bool" where
  "cq_chain E p [] n \<longleftrightarrow> True"
| "cq_chain E p (x # xs) n \<longleftrightarrow>
     E x = Some \<lparr>cqe_next = hd_ptr xs n, cqe_prev = p\<rparr> \<and> cq_chain E (AtElem x) xs n"

definition cq_rep :: "('h, 'e) cq_mem \<Rightarrow> 'h \<Rightarrow> 'e list \<Rightarrow> bool" where
  "cq_rep m h xs \<longleftrightarrow>
     cq_heads m h = Some \<lparr>cqh_first = hd_ptr xs (AtHead h), cqh_last = last_ptr (AtHead h) xs\<rparr> \<and>
     cq_chain (cq_elems m) (AtHead h) xs (AtHead h) \<and> distinct xs"

lemma hd_ptr_simps [simp]:
  "hd_ptr [] n = n" "hd_ptr (x # xs) n = AtElem x" "hd_ptr (xs @ ys) n = hd_ptr xs (hd_ptr ys n)"
  by (simp_all add: hd_ptr_def split: list.split)

lemma last_ptr_simps [simp]:
  "last_ptr p [] = p" "last_ptr p (x # xs) = last_ptr (AtElem x) xs"
  "last_ptr p (xs @ ys) = last_ptr (last_ptr p xs) ys"
  by (simp_all add: last_ptr_def)

lemma cq_chain_append [simp]:
  "cq_chain E p (xs @ ys) n \<longleftrightarrow> cq_chain E p xs (hd_ptr ys n) \<and> cq_chain E (last_ptr p xs) ys n"
  by (induction xs arbitrary: p) auto

lemma cq_chain_upd [simp]: "x \<notin> set xs \<Longrightarrow> cq_chain (E(x := v)) p xs n = cq_chain E p xs n"
  by (induction xs arbitrary: p) auto

lemma elem_of_simps [simp]: "elem_of (AtElem e) = Some e" "elem_of (AtHead h) = None"
  by (simp_all add: elem_of_def)

lemmas cq_defs = cq_next_def cq_set_next_def cq_prev_def cq_set_prev_def cq_first_def cq_set_first_def
  cq_last_def cq_set_last_def CIRCLEQ_END_def cq_rep_def

lemma CIRCLEQ_INIT_rep:
  "h \<in> dom (cq_heads m) \<Longrightarrow> \<exists>m'. CIRCLEQ_INIT h m = Inr m' \<and> cq_rep m' h []"
  by (auto simp: CIRCLEQ_INIT_def cq_defs)

lemma CIRCLEQ_EMPTY_rep: "cq_rep m h xs \<Longrightarrow> CIRCLEQ_EMPTY h m = Inr (xs = [])"
  by (cases xs) (simp_all add: CIRCLEQ_EMPTY_def CIRCLEQ_FIRST_def cq_defs)

lemma CIRCLEQ_INSERT_HEAD_rep:
  assumes "cq_rep m h xs" and "e \<in> dom (cq_elems m)" and "e \<notin> set xs"
  shows "\<exists>m'. CIRCLEQ_INSERT_HEAD h (AtElem e) m = Inr m' \<and> cq_rep m' h (e # xs)"
proof (cases xs rule: rev_cases)
  case Nil
  with assms show ?thesis by (auto simp: CIRCLEQ_INSERT_HEAD_def cq_defs)
next
  case (snoc zs z)
  with assms show ?thesis by (cases zs) (auto simp: CIRCLEQ_INSERT_HEAD_def cq_defs)
qed

lemma CIRCLEQ_INSERT_TAIL_rep:
  assumes "cq_rep m h xs" and "e \<in> dom (cq_elems m)" and "e \<notin> set xs"
  shows "\<exists>m'. CIRCLEQ_INSERT_TAIL h (AtElem e) m = Inr m' \<and> cq_rep m' h (xs @ [e])"
proof (cases xs rule: rev_cases)
  case Nil
  with assms show ?thesis by (auto simp: CIRCLEQ_INSERT_TAIL_def cq_defs)
next
  case (snoc zs z)
  with assms show ?thesis by (cases zs) (auto simp: CIRCLEQ_INSERT_TAIL_def cq_defs)
qed

lemma CIRCLEQ_INSERT_AFTER_rep:
  assumes "cq_rep m h (xs @ a # ys)" and "e \<in> dom (cq_elems m)" and "e \<notin> set (xs @ a # ys)"
  shows "\<exists>m'. CIRCLEQ_INSERT_AFTER h (AtElem a) (AtElem e) m = Inr m' \<and> cq_rep m' h (xs @ a # e # ys)"
  using assms by (cases ys) (auto simp: CIRCLEQ_INSERT_AFTER_def cq_defs)

lemma CIRCLEQ_INSERT_BEFORE_rep:
  assumes "cq_rep m h (xs @ a # ys)" and "e \<in> dom (cq_elems m)" and "e \<notin> set (xs @ a # ys)"
  shows "\<exists>m'. CIRCLEQ_INSERT_BEFORE h (AtElem a) (AtElem e) m = Inr m' \<and> cq_rep m' h (xs @ e # a # ys)"
  using assms by (cases xs rule: rev_cases) (auto simp: CIRCLEQ_INSERT_BEFORE_def cq_defs)

lemma CIRCLEQ_REMOVE_rep:
  assumes "cq_rep m h (xs @ e # ys)"
  shows "\<exists>m'. CIRCLEQ_REMOVE h (AtElem e) m = Inr m' \<and> cq_rep m' h (xs @ ys)"
  using assms by (cases xs rule: rev_cases; cases ys) (auto simp: CIRCLEQ_REMOVE_def cq_defs)

lemma cq_visit_walk:
  assumes "\<And>as e bs. xs = as @ e # bs \<Longrightarrow> step (AtElem e) = Inr (hd_ptr bs (AtHead h))"
    and "xs = as @ bs"
  shows "cq_visit step h (hd_ptr bs (AtHead h)) acc = Some (Inr (rev acc @ bs))"
  using assms(2)
proof (induction bs arbitrary: as acc)
  case Nil
  show ?case by (simp add: cq_visit.simps CIRCLEQ_END_def)
next
  case (Cons e bs)
  have "cq_visit step h (AtElem e) acc = cq_visit step h (hd_ptr bs (AtHead h)) (e # acc)"
    using assms(1) [OF Cons.prems] by (subst cq_visit.simps) (simp add: CIRCLEQ_END_def)
  with Cons.IH [of "as @ [e]" "e # acc"] Cons.prems show ?case by simp
qed

lemma CIRCLEQ_FOREACH_rep:
  assumes "cq_rep m h xs"
  shows "CIRCLEQ_FOREACH h m = Inr xs"
proof -
  have "CIRCLEQ_NEXT (AtElem e) m = Inr (hd_ptr bs (AtHead h))" if "xs = as @ e # bs" for as e bs
    using assms that by (simp add: CIRCLEQ_NEXT_def cq_defs)
  from cq_visit_walk [of xs "\<lambda>p. CIRCLEQ_NEXT p m" h "[]" xs "[]", OF this] assms
  show ?thesis by (simp add: CIRCLEQ_FOREACH_def CIRCLEQ_FIRST_def cq_defs)
qed

lemma CIRCLEQ_FOREACH_REVERSE_rep:
  assumes "cq_rep m h xs"
  shows "CIRCLEQ_FOREACH_REVERSE h m = Inr (rev xs)"
proof -
  have "CIRCLEQ_PREV (AtElem e) m = Inr (hd_ptr bs (AtHead h))" if "rev xs = as @ e # bs" for as e bs
  proof -
    from that have "xs = rev bs @ e # rev as" by (simp add: rev_swap)
    with assms show ?thesis by (cases bs) (auto simp: CIRCLEQ_PREV_def cq_defs)
  qed
  from cq_visit_walk [of "rev xs" "\<lambda>p. CIRCLEQ_PREV p m" h "[]" "rev xs" "[]", OF this]
  have v: "cq_visit (\<lambda>p. CIRCLEQ_PREV p m) h (hd_ptr (rev xs) (AtHead h)) [] = Some (Inr (rev xs))"
    by simp
  have "hd_ptr (rev xs) (AtHead h) = last_ptr (AtHead h) xs"
    by (cases xs rule: rev_cases) simp_all
  with v assms show ?thesis by (simp add: CIRCLEQ_FOREACH_REVERSE_def CIRCLEQ_LAST_def cq_defs)
qed

end
