(* ===== verification/Containers.thy ===== *)
theory Containers
  imports DoubleLists
begin

text \<open>
  What the five containers of \<open>include/queue.h\<close> have in common, as interfaces: an element can be
  put in front, a traversal yields the elements in order, and the three queues also take elements
  at the end. The facts that follow from these contracts are proved once.
\<close>

section \<open>The interfaces\<close>

locale head_container =
  fixes rep :: "'m \<Rightarrow> 'e list \<Rightarrow> bool"
    and known :: "'m \<Rightarrow> 'e set"
    and push :: "'e \<Rightarrow> 'm \<Rightarrow> fault + 'm"
    and walk :: "'m \<Rightarrow> fault + 'e list"
  assumes push_law: "rep m xs \<Longrightarrow> e \<in> known m \<Longrightarrow> e \<notin> set xs \<Longrightarrow>
      \<exists>m'. push e m = Inr m' \<and> rep m' (e # xs) \<and> known m' = known m"
    and walk_law: "rep m xs \<Longrightarrow> walk m = Inr xs"
begin

lemma push_all:
  assumes "rep m xs" and "set es \<subseteq> known m" and "distinct es" and "set es \<inter> set xs = {}"
  shows "\<exists>m'. foldE push es m = Inr m' \<and> rep m' (rev es @ xs) \<and> walk m' = Inr (rev es @ xs)"
  using assms
proof (induction es arbitrary: m xs)
  case Nil
  then show ?case using walk_law by auto
next
  case (Cons e es)
  obtain m1 where m1: "push e m = Inr m1" "rep m1 (e # xs)" "known m1 = known m"
    using push_law [OF Cons.prems(1), of e] Cons.prems(2,4) by auto
  have "\<exists>m'. foldE push es m1 = Inr m' \<and> rep m' (rev es @ e # xs) \<and> walk m' = Inr (rev es @ e # xs)"
    using Cons.prems m1(3) by (intro Cons.IH [OF m1(2)]) auto
  with m1(1) show ?case by simp
qed

end

locale tail_container = head_container rep known push walk
  for rep :: "'m \<Rightarrow> 'e list \<Rightarrow> bool" and known :: "'m \<Rightarrow> 'e set"
    and push :: "'e \<Rightarrow> 'm \<Rightarrow> fault + 'm" and walk :: "'m \<Rightarrow> fault + 'e list" +
  fixes add :: "'e \<Rightarrow> 'm \<Rightarrow> fault + 'm"
  assumes add_law: "rep m xs \<Longrightarrow> e \<in> known m \<Longrightarrow> e \<notin> set xs \<Longrightarrow>
      \<exists>m'. add e m = Inr m' \<and> rep m' (xs @ [e]) \<and> known m' = known m"
begin

lemma add_all:
  assumes "rep m xs" and "set es \<subseteq> known m" and "distinct es" and "set es \<inter> set xs = {}"
  shows "\<exists>m'. foldE add es m = Inr m' \<and> rep m' (xs @ es) \<and> walk m' = Inr (xs @ es)"
  using assms
proof (induction es arbitrary: m xs)
  case Nil
  then show ?case using walk_law by auto
next
  case (Cons e es)
  obtain m1 where m1: "add e m = Inr m1" "rep m1 (xs @ [e])" "known m1 = known m"
    using add_law [OF Cons.prems(1), of e] Cons.prems(2,4) by auto
  have "\<exists>m'. foldE add es m1 = Inr m' \<and> rep m' ((xs @ [e]) @ es) \<and> walk m' = Inr ((xs @ [e]) @ es)"
    using Cons.prems m1(3) by (intro Cons.IH [OF m1(2)]) auto
  with m1(1) show ?case by simp
qed

end

section \<open>The containers provide them\<close>

lemma up_dom: "up M p f = Inr M' \<Longrightarrow> dom M' = dom M"
  by (auto simp: up_def split: option.splits if_splits)

lemma sl_dom:
  "sl_set_next p v m = Inr m' \<Longrightarrow> dom (sl_elems m') = dom (sl_elems m)"
  "sl_set_first h v m = Inr m' \<Longrightarrow> sl_elems m' = sl_elems m"
  by (clarsimp simp: sl_set_next_def sl_set_first_def elim!: bnd_InrE dest!: up_dom)+

lemma sq_dom:
  "sq_set_next p v m = Inr m' \<Longrightarrow> dom (sq_elems m') = dom (sq_elems m)"
  "sq_set_first h v m = Inr m' \<Longrightarrow> sq_elems m' = sq_elems m"
  "sq_set_last h w m = Inr m' \<Longrightarrow> sq_elems m' = sq_elems m"
  by (clarsimp simp: sq_set_next_def sq_set_first_def sq_set_last_def elim!: bnd_InrE dest!: up_dom)+

lemma li_dom:
  "li_set_next p v m = Inr m' \<Longrightarrow> dom (li_elems m') = dom (li_elems m)"
  "li_set_prev p w m = Inr m' \<Longrightarrow> dom (li_elems m') = dom (li_elems m)"
  "li_set_first h v m = Inr m' \<Longrightarrow> li_elems m' = li_elems m"
  by (clarsimp simp: li_set_next_def li_set_prev_def li_set_first_def elim!: bnd_InrE dest!: up_dom)+

lemma cq_dom:
  "cq_set_next p v m = Inr m' \<Longrightarrow> dom (cq_elems m') = dom (cq_elems m)"
  "cq_set_prev p v m = Inr m' \<Longrightarrow> dom (cq_elems m') = dom (cq_elems m)"
  "cq_set_first h v m = Inr m' \<Longrightarrow> cq_elems m' = cq_elems m"
  "cq_set_last h v m = Inr m' \<Longrightarrow> cq_elems m' = cq_elems m"
  by (clarsimp simp: cq_set_next_def cq_set_prev_def cq_set_first_def cq_set_last_def elim!: bnd_InrE dest!: up_dom)+

lemma SLIST_INSERT_HEAD_dom:
  "SLIST_INSERT_HEAD h e m = Inr m' \<Longrightarrow> dom (sl_elems m') = dom (sl_elems m)"
  by (clarsimp simp: SLIST_INSERT_HEAD_def elim!: bnd_InrE dest!: sl_dom)

lemma LIST_INSERT_HEAD_dom:
  "LIST_INSERT_HEAD h e m = Inr m' \<Longrightarrow> dom (li_elems m') = dom (li_elems m)"
  by (clarsimp simp: LIST_INSERT_HEAD_def elim!: bnd_InrE dest!: li_dom split: if_splits)

lemma SIMPLEQ_INSERT_HEAD_dom:
  "SIMPLEQ_INSERT_HEAD h e m = Inr m' \<Longrightarrow> dom (sq_elems m') = dom (sq_elems m)"
  by (clarsimp simp: SIMPLEQ_INSERT_HEAD_def elim!: bnd_InrE dest!: sq_dom split: if_splits)

lemma sq_wr_slot_dom: "sq_wr_slot sl v m = Inr m' \<Longrightarrow> dom (sq_elems m') = dom (sq_elems m)"
  by (cases sl rule: option.exhaust [case_names n s], simp add: sq_wr_slot_def,
      simp add: sq_wr_slot_def sq_dom split: slot.splits)

lemma SIMPLEQ_INSERT_TAIL_dom:
  "SIMPLEQ_INSERT_TAIL h e m = Inr m' \<Longrightarrow> dom (sq_elems m') = dom (sq_elems m)"
  by (clarsimp simp: SIMPLEQ_INSERT_TAIL_def elim!: bnd_InrE dest!: sq_dom sq_wr_slot_dom)

lemma CIRCLEQ_INSERT_HEAD_dom:
  "CIRCLEQ_INSERT_HEAD h e m = Inr m' \<Longrightarrow> dom (cq_elems m') = dom (cq_elems m)"
  by (clarsimp simp: CIRCLEQ_INSERT_HEAD_def elim!: bnd_InrE dest!: cq_dom split: if_splits)

lemma CIRCLEQ_INSERT_TAIL_dom:
  "CIRCLEQ_INSERT_TAIL h e m = Inr m' \<Longrightarrow> dom (cq_elems m') = dom (cq_elems m)"
  by (clarsimp simp: CIRCLEQ_INSERT_TAIL_def elim!: bnd_InrE dest!: cq_dom split: if_splits)


text \<open>One interpretation per container, for the queue at any head \<open>h\<close>.\<close>

lemma with_dom:
  assumes "\<exists>m'. f = Inr m' \<and> Q m'" and "\<And>m'. f = Inr m' \<Longrightarrow> R m'"
  shows "\<exists>m'. f = Inr m' \<and> Q m' \<and> R m'"
  using assms by blast

lemma framed_dom:
  assumes "\<exists>m'. f = Inr m' \<and> Q m' \<and> tq_frame h S m m'"
  shows "\<exists>m'. f = Inr m' \<and> Q m' \<and> dom (tq_elems m') = dom (tq_elems m)"
  using assms unfolding tq_frame_def by blast

interpretation slist: head_container "\<lambda>m. sl_rep m h" "\<lambda>m. dom (sl_elems m)"
    "\<lambda>e. SLIST_INSERT_HEAD h (Some e)" "SLIST_FOREACH h" for h
  by (unfold_locales, rule with_dom, erule (2) SLIST_INSERT_HEAD_rep, erule SLIST_INSERT_HEAD_dom,
      erule SLIST_FOREACH_rep)

interpretation llist: head_container "\<lambda>m. li_rep m h" "\<lambda>m. dom (li_elems m)"
    "\<lambda>e. LIST_INSERT_HEAD h (Some e)" "LIST_FOREACH h" for h
  by (unfold_locales, rule with_dom, erule (2) LIST_INSERT_HEAD_rep, erule LIST_INSERT_HEAD_dom,
      erule LIST_FOREACH_rep)

interpretation simpleq: tail_container "\<lambda>m. sq_rep m h" "\<lambda>m. dom (sq_elems m)"
    "\<lambda>e. SIMPLEQ_INSERT_HEAD h (Some e)" "SIMPLEQ_FOREACH h" "\<lambda>e. SIMPLEQ_INSERT_TAIL h (Some e)" for h
  by (unfold_locales, rule with_dom, erule (2) SIMPLEQ_INSERT_HEAD_rep, erule SIMPLEQ_INSERT_HEAD_dom,
      erule SIMPLEQ_FOREACH_rep, rule with_dom, erule (2) SIMPLEQ_INSERT_TAIL_rep, erule SIMPLEQ_INSERT_TAIL_dom)

interpretation circleq: tail_container "\<lambda>m. cq_rep m h" "\<lambda>m. dom (cq_elems m)"
    "\<lambda>e. CIRCLEQ_INSERT_HEAD h (AtElem e)" "CIRCLEQ_FOREACH h" "\<lambda>e. CIRCLEQ_INSERT_TAIL h (AtElem e)" for h
  by (unfold_locales, rule with_dom, erule (2) CIRCLEQ_INSERT_HEAD_rep, erule CIRCLEQ_INSERT_HEAD_dom,
      erule CIRCLEQ_FOREACH_rep, rule with_dom, erule (2) CIRCLEQ_INSERT_TAIL_rep, erule CIRCLEQ_INSERT_TAIL_dom)

interpretation tailq: tail_container "\<lambda>m. tq_rep m h" "\<lambda>m. dom (tq_elems m)"
    "\<lambda>e. TAILQ_INSERT_HEAD h (Some e)" "TAILQ_FOREACH h" "\<lambda>e. TAILQ_INSERT_TAIL h (Some e)" for h
  by (unfold_locales, erule (2) framed_dom [OF TAILQ_INSERT_HEAD_rep], erule TAILQ_FOREACH_rep,
      erule (2) framed_dom [OF TAILQ_INSERT_TAIL_rep])

text \<open>A static initializer makes the same head as the run-time initialisation: an empty container.\<close>

lemma static_heads:
  "tq_heads m h = Some (TAILQ_HEAD_INITIALIZER h) \<longleftrightarrow> tq_rep m h []"
  "sl_heads m1 h = Some (SLIST_HEAD_INITIALIZER h) \<longleftrightarrow> sl_rep m1 h []"
  "sq_heads m2 h = Some (SIMPLEQ_HEAD_INITIALIZER h) \<longleftrightarrow> sq_rep m2 h []"
  "li_heads m3 h = Some (LIST_HEAD_INITIALIZER h) \<longleftrightarrow> li_rep m3 h []"
  "cq_heads m4 h = Some (CIRCLEQ_HEAD_INITIALIZER h) \<longleftrightarrow> cq_rep m4 h []"
  by (simp_all add: TAILQ_HEAD_INITIALIZER_def SLIST_HEAD_INITIALIZER_def SIMPLEQ_HEAD_INITIALIZER_def
      LIST_HEAD_INITIALIZER_def CIRCLEQ_HEAD_INITIALIZER_def CIRCLEQ_END_def tq_rep_def sl_rep_def
      sq_rep_def li_rep_def cq_rep_def end_slot_def)

section \<open>Properties\<close>

text \<open>
  C32: The three queues of queue.h agree: elements inserted one after the other at the tail of
  an empty tail queue, simple queue and circular queue are traversed in the order of their
  insertion in all three.
\<close>

theorem queues_keep_order:
  assumes "tq_rep m h []" and "sq_rep m2 h2 []" and "cq_rep m3 h3 []" and "distinct es"
    and "set es \<subseteq> dom (tq_elems m)" and "set es \<subseteq> dom (sq_elems m2)" and "set es \<subseteq> dom (cq_elems m3)"
  shows "\<exists>m' m2' m3'.
    foldE (\<lambda>e. TAILQ_INSERT_TAIL h (Some e)) es m = Inr m' \<and> TAILQ_FOREACH h m' = Inr es \<and>
    foldE (\<lambda>e. SIMPLEQ_INSERT_TAIL h2 (Some e)) es m2 = Inr m2' \<and> SIMPLEQ_FOREACH h2 m2' = Inr es \<and>
    foldE (\<lambda>e. CIRCLEQ_INSERT_TAIL h3 (AtElem e)) es m3 = Inr m3' \<and> CIRCLEQ_FOREACH h3 m3' = Inr es"
  using tailq.add_all [OF assms(1,5,4)] simpleq.add_all [OF assms(2,6,4)]
    circleq.add_all [OF assms(3,7,4)] by auto

definition ex_sq :: "(unit, nat) sq_mem" where
  "ex_sq = \<lparr>sq_heads = (\<lambda>_. Some \<lparr>sqh_first = None, sqh_last = Some (HeadFirst ())\<rparr>),
     sq_elems = (\<lambda>_. Some \<lparr>sqe_next = None\<rparr>)\<rparr>"

definition ex_cq :: "(unit, nat) cq_mem" where
  "ex_cq = \<lparr>cq_heads = (\<lambda>_. Some \<lparr>cqh_first = AtHead (), cqh_last = AtHead ()\<rparr>),
     cq_elems = (\<lambda>_. Some \<lparr>cqe_next = AtHead (), cqe_prev = AtHead ()\<rparr>)\<rparr>"

definition ex_tq :: "(unit, nat) tq_mem" where
  "ex_tq = \<lparr>tq_heads = (\<lambda>_. Some \<lparr>tqh_first = None, tqh_last = Some (HeadFirst ())\<rparr>),
     tq_elems = (\<lambda>_. Some \<lparr>tqe_next = None, tqe_prev = None\<rparr>)\<rparr>"

lemma ex_empty: "tq_rep ex_tq () []" "sq_rep ex_sq () []" "cq_rep ex_cq () []"
  by (simp_all add: ex_tq_def ex_sq_def ex_cq_def tq_rep_def sq_rep_def cq_rep_def)

theorem queues_keep_order_witness:
  "\<exists>m'. foldE (\<lambda>e. CIRCLEQ_INSERT_TAIL () (AtElem e)) [3, 1, 2] ex_cq = Inr m' \<and>
     CIRCLEQ_FOREACH () m' = Inr [3, 1, 2]"
proof -
  have "distinct [3, 1, 2 :: nat]" by simp
  from queues_keep_order [OF ex_empty this] show ?thesis
    by (simp add: ex_tq_def ex_sq_def ex_cq_def del: foldE.simps) blast
qed

text \<open>
  C33: In a list and in a circular queue, INSERT_BEFORE, INSERT_AFTER and REMOVE, and REPLACE in
  a list, change the list of elements at the named element only, as their names say.
\<close>

theorem edits_place:
  assumes "li_rep m h (xs @ a # ys)" and "e \<in> dom (li_elems m)"
    and "cq_rep c k (xs @ a # ys)" and "e \<in> dom (cq_elems c)"
    and "e \<notin> set (xs @ a # ys)"
  shows "\<exists>m1 m2 m3 m4 c1 c2 c3.
      LIST_INSERT_BEFORE (Some a) (Some e) m = Inr m1 \<and> li_rep m1 h (xs @ e # a # ys) \<and>
      LIST_INSERT_AFTER (Some a) (Some e) m = Inr m2 \<and> li_rep m2 h (xs @ a # e # ys) \<and>
      LIST_REPLACE (Some a) (Some e) m = Inr m3 \<and> li_rep m3 h (xs @ e # ys) \<and>
      LIST_REMOVE (Some a) m = Inr m4 \<and> li_rep m4 h (xs @ ys) \<and>
      CIRCLEQ_INSERT_BEFORE k (AtElem a) (AtElem e) c = Inr c1 \<and> cq_rep c1 k (xs @ e # a # ys) \<and>
      CIRCLEQ_INSERT_AFTER k (AtElem a) (AtElem e) c = Inr c2 \<and> cq_rep c2 k (xs @ a # e # ys) \<and>
      CIRCLEQ_REMOVE k (AtElem a) c = Inr c3 \<and> cq_rep c3 k (xs @ ys)"
  using LIST_INSERT_BEFORE_rep [OF assms(1,2,5)] LIST_INSERT_AFTER_rep [OF assms(1,2,5)]
    LIST_REPLACE_rep [OF assms(1,2,5)] LIST_REMOVE_rep [OF assms(1)]
    CIRCLEQ_INSERT_BEFORE_rep [OF assms(3,4,5)] CIRCLEQ_INSERT_AFTER_rep [OF assms(3,4,5)]
    CIRCLEQ_REMOVE_rep [OF assms(3)]
  by blast

definition ex_li :: "(unit, nat) li_mem" where
  "ex_li = \<lparr>li_heads = (\<lambda>_. Some \<lparr>lh_first = Some 1\<rparr>),
     li_elems = (\<lambda>_. Some \<lparr>le_next = None, le_prev = Some (HeadFirst ())\<rparr>)\<rparr>"

definition ex_cq1 :: "(unit, nat) cq_mem" where
  "ex_cq1 = \<lparr>cq_heads = (\<lambda>_. Some \<lparr>cqh_first = AtElem 1, cqh_last = AtElem 1\<rparr>),
     cq_elems = (\<lambda>_. Some \<lparr>cqe_next = AtHead (), cqe_prev = AtHead ()\<rparr>)\<rparr>"

theorem edits_place_witness:
  "\<exists>c1. CIRCLEQ_INSERT_BEFORE () (AtElem 1) (AtElem 2) ex_cq1 = Inr c1 \<and> cq_rep c1 () [2, 1 :: nat]"
  using edits_place [of ex_li "()" "[]" 1 "[]" 2 ex_cq1 "()"]
  by (simp add: ex_li_def ex_cq1_def li_rep_def cq_rep_def) blast

end
