(* ===== verification/Logger.thy ===== *)
theory Logger
  imports CoTypes "HOL-Library.Char_ord" "HOL-Library.List_Lexorder"
begin

text \<open>
  Time stamps (\<open>now\<close> of \<open>src/util.c\<close>) and log lines (\<open>include/logger.h\<close>): the conversions of
  \<open>printf\<close> that they use, and the order of the stamps. \<open>localtime_r\<close> is a parameter, and so is what
  the uninitialised locals hold when \<open>gettimeofday\<close> or \<open>localtime_r\<close> fails.
\<close>

section \<open>Decimal numbers\<close>

definition digit :: "nat \<Rightarrow> char" where
  "digit n = char_of (48 + n)"

fun decimal :: "nat \<Rightarrow> string" where
  "decimal n = (if n < 10 then [digit n] else decimal (n div 10) @ [digit (n mod 10)])"

declare decimal.simps [simp del]

text \<open>\<open>%0wd\<close>\<close>

definition padded :: "nat \<Rightarrow> int \<Rightarrow> string" where
  "padded w v =
     (let sign = (if v < 0 then ''-'' else []); d = decimal (nat \<bar>v\<bar>) in
      sign @ replicate (w - length sign - length d) (CHR ''0'') @ d)"

text \<open>The \<open>w\<close> lowest digits.\<close>

fun digits :: "nat \<Rightarrow> nat \<Rightarrow> string" where
  "digits 0 n = []"
| "digits (Suc w) n = digits w (n div 10) @ [digit (n mod 10)]"

lemma length_digits [simp]: "length (digits w n) = w"
  by (induction w arbitrary: n) simp_all

lemma digit_zero [simp]: "digit 0 = CHR ''0''"
  by (simp add: digit_def char_of_eq_iff)

lemma digits_zero: "digits w 0 = replicate w (CHR ''0'')"
  by (induction w) (simp_all add: replicate_append_same)

lemma decimal_digits: "decimal n = digits (length (decimal n)) n \<and> n < 10 ^ length (decimal n)"
proof (induction n rule: decimal.induct)
  case (1 n)
  show ?case
  proof (cases "n < 10")
    case True
    then show ?thesis by (simp add: decimal.simps)
  next
    case False
    have "decimal n = decimal (n div 10) @ [digit (n mod 10)]" using False by (subst decimal.simps) simp
    moreover have "n < 10 * 10 ^ length (decimal (n div 10))" using 1 [OF False] by (simp add: div_less_iff_less_mult)
    ultimately show ?thesis using 1 [OF False] by simp
  qed
qed

lemma digits_more: "n < 10 ^ w \<Longrightarrow> digits (k + w) n = replicate k (CHR ''0'') @ digits w n"
proof (induction w arbitrary: n)
  case 0
  then show ?case by (simp add: digits_zero)
next
  case (Suc w)
  then have "n div 10 < 10 ^ w" by simp
  from Suc.IH [OF this] show ?case by simp
qed

lemma decimal_width:
  assumes "n < 10 ^ Suc w"
  shows "length (decimal n) \<le> Suc w"
  using assms
proof (induction w arbitrary: n)
  case 0
  then show ?case by (simp add: decimal.simps)
next
  case (Suc w)
  show ?case
  proof (cases "n < 10")
    case True
    then show ?thesis by (simp add: decimal.simps)
  next
    case False
    have "n div 10 < 10 ^ Suc w" using Suc.prems by simp
    from Suc.IH [OF this] False show ?thesis by (subst decimal.simps) simp
  qed
qed

lemma padded_digits:
  assumes "0 \<le> v" and "v < 10 ^ Suc w"
  shows "padded (Suc w) v = digits (Suc w) (nat v)"
proof -
  let ?l = "length (decimal (nat v))"
  have "nat v < 10 ^ Suc w" using assms by (simp add: nat_less_iff)
  then have le: "?l \<le> Suc w" by (rule decimal_width)
  have "digits (Suc w) (nat v) = replicate (Suc w - ?l) (CHR ''0'') @ digits ?l (nat v)"
    using digits_more [of "nat v" ?l "Suc w - ?l"] decimal_digits [of "nat v"] le by simp
  with decimal_digits [of "nat v"] assms show ?thesis by (simp add: padded_def Let_def)
qed

section \<open>The order of fixed-width numbers\<close>

lemma digit_less: "m < 10 \<Longrightarrow> n < 10 \<Longrightarrow> digit m < digit n \<longleftrightarrow> m < n"
  by (simp add: digit_def less_char_def)

lemma digit_eq: "m < 10 \<Longrightarrow> n < 10 \<Longrightarrow> digit m = digit n \<longleftrightarrow> m = n"
  using digit_less [of m n] digit_less [of n m] by (metis linorder_neq_iff)

lemma append_less:
  fixes a b :: "'a :: linorder list"
  assumes "length a = length b"
  shows "a @ x < b @ y \<longleftrightarrow> a < b \<or> a = b \<and> x < y"
  using assms by (induction a b rule: list_induct2) auto

lemma digits_eq:
  assumes "m < 10 ^ w" and "n < 10 ^ w"
  shows "digits w m = digits w n \<longleftrightarrow> m = n"
  using assms
proof (induction w arbitrary: m n)
  case (Suc w)
  then have "m div 10 < 10 ^ w" "n div 10 < 10 ^ w" by simp_all
  from Suc.IH [OF this] have "digits (Suc w) m = digits (Suc w) n \<longleftrightarrow> m div 10 = n div 10 \<and> m mod 10 = n mod 10"
    by (simp add: digit_eq)
  also have "\<dots> \<longleftrightarrow> m = n" by (metis div_mult_mod_eq)
  finally show ?case .
qed simp

lemma by_tens: "r < 10 \<Longrightarrow> q < 10 \<Longrightarrow> 10 * a + r < 10 * b + q \<longleftrightarrow> a < b \<or> a = b \<and> r < (q :: nat)"
  by auto

lemma digits_less:
  assumes "m < 10 ^ w" and "n < 10 ^ w"
  shows "digits w m < digits w n \<longleftrightarrow> m < n"
  using assms
proof (induction w arbitrary: m n)
  case (Suc w)
  then have b: "m div 10 < 10 ^ w" "n div 10 < 10 ^ w" by simp_all
  have "digits (Suc w) m < digits (Suc w) n \<longleftrightarrow>
      m div 10 < n div 10 \<or> m div 10 = n div 10 \<and> m mod 10 < n mod 10"
    by (simp add: append_less Suc.IH [OF b] digits_eq [OF b] digit_less)
  also have "\<dots> \<longleftrightarrow> m < n"
    using by_tens [of "m mod 10" "n mod 10" "m div 10" "n div 10"] by simp
  finally show ?case .
qed simp

lemma padded_order:
  assumes "0 \<le> u" and "u < 10 ^ Suc w" and "0 \<le> v" and "v < 10 ^ Suc w"
  shows "length (padded (Suc w) u) = Suc w" "padded (Suc w) u < padded (Suc w) v \<longleftrightarrow> u < v"
    "padded (Suc w) u = padded (Suc w) v \<longleftrightarrow> u = v"
proof -
  have b: "nat u < 10 ^ Suc w" "nat v < 10 ^ Suc w" using assms by (simp_all add: nat_less_iff)
  note p = padded_digits [OF assms(1,2)] padded_digits [OF assms(3,4)]
  show "length (padded (Suc w) u) = Suc w" by (simp add: p del: digits.simps)
  show "padded (Suc w) u < padded (Suc w) v \<longleftrightarrow> u < v"
    unfolding p digits_less [OF b] using assms by (auto simp: nat_less_iff)
  show "padded (Suc w) u = padded (Suc w) v \<longleftrightarrow> u = v"
    unfolding p digits_eq [OF b] using assms by (simp add: eq_nat_nat_iff)
qed

lemma padded_less:
  assumes "0 \<le> u" and "u < 10 ^ Suc w" and "0 \<le> v" and "v < 10 ^ Suc w"
  shows "padded (Suc w) u @ x < padded (Suc w) v @ y \<longleftrightarrow> u < v \<or> u = v \<and> x < y"
  using padded_order [OF assms] padded_order(1) [OF assms(3,4,1,2)] append_less by metis

section \<open>Time stamps\<close>

text \<open>\<open>struct tm\<close>, as far as \<open>now\<close> reads it.\<close>

record tm =
  tm_sec :: int
  tm_min :: int
  tm_hour :: int
  tm_mday :: int
  tm_mon :: int
  tm_year :: int

text \<open>A \<open>long\<close> passed where \<open>%d\<close> reads an \<open>int\<close>.\<close>

definition as_int :: "int \<Rightarrow> int" where
  "as_int x = sint (word_of_int x :: 32 word)"

definition stamp_text :: "tm \<Rightarrow> int \<Rightarrow> string" where
  "stamp_text tm ms =
     padded 4 (tm_year tm + 1900) @ ''-'' @ padded 2 (tm_mon tm + 1) @ ''-'' @ padded 2 (tm_mday tm) @ '' '' @
     padded 2 (tm_hour tm) @ '':'' @ padded 2 (tm_min tm) @ '':'' @ padded 2 (tm_sec tm) @ ''.'' @ padded 3 ms"

text \<open>The string that \<open>now\<close> leaves in \<open>time_str\<close>: \<open>snprintf\<close> stores at most 63 characters and a zero.\<close>

definition now :: "'k os \<Rightarrow> (int \<Rightarrow> tm option) \<Rightarrow> timeval \<Rightarrow> tm \<Rightarrow> 'k \<Rightarrow> fault + (string \<times> 'k)" where
  "now K localtime t0 tm0 k =
     (case os_gettimeofday K k of (r, k) \<Rightarrow>
      let t = (case r of None \<Rightarrow> t0 | Some t \<Rightarrow> t);
          tm = (case localtime (tv_sec t) of None \<Rightarrow> tm0 | Some tm \<Rightarrow> tm) in
      if \<not> fits_int (tm_year tm + 1900) \<or> \<not> fits_int (tm_mon tm + 1) then Inl SignedOverflow
      else Inr (take 63 (stamp_text tm (as_int (tv_usec t sdiv 1000))), k))"

section \<open>Log lines\<close>

datatype stream = Stdout | Stderr

definition ESC :: string where
  "ESC = [char_of (27 :: nat)]"

definition LOG_RED :: string where "LOG_RED = ESC @ ''[31m''"
definition LOG_GREEN :: string where "LOG_GREEN = ESC @ ''[32m''"
definition LOG_YELLOW :: string where "LOG_YELLOW = ESC @ ''[33m''"
definition LOG_BLUE :: string where "LOG_BLUE = ESC @ ''[36m''"

text \<open>The place of a log call, and what it writes: one entry for each \<open>fprintf\<close>.\<close>

record place =
  src_file :: string
  src_line :: nat
  src_function :: string

type_synonym written = "(stream \<times> string) list"

definition PRINT ::
  "('k \<Rightarrow> fault + (string \<times> 'k)) \<Rightarrow> stream \<Rightarrow> string \<Rightarrow> string \<Rightarrow> place \<Rightarrow> string \<Rightarrow> 'k \<Rightarrow> fault + (written \<times> 'k)" where
  "PRINT clock target kind color at message k =
     bnd (clock k) (\<lambda>(time_str, k).
     Inr ([(target, ESC @ ''[K''),
           (target, color),
           (target, ''['' @ time_str @ ''] ['' @ kind @ ''] ['' @ src_file at @ '':'' @
              decimal (src_line at) @ '']['' @ src_function at @ ''] - ''),
           (target, ESC @ ''[0m''),
           (target, message)], k))"

text \<open>The library is built with \<open>_DEBUG\<close>, a program that includes the header need not be.\<close>

definition LOG_DEBUG where
  "LOG_DEBUG debug clock at message k =
     (if debug then PRINT clock Stdout ''DEBUG'' LOG_BLUE at message k else Inr ([], k))"

definition LOG_INFO where
  "LOG_INFO clock = PRINT clock Stdout ''INFO'' LOG_GREEN"

definition LOG_ERROR where
  "LOG_ERROR clock = PRINT clock Stderr ''ERROR'' LOG_RED"

definition LOG_WARN where
  "LOG_WARN clock = PRINT clock Stderr ''WARN'' LOG_YELLOW"

section \<open>Stamps sort as times do\<close>

definition calendar :: "tm \<Rightarrow> bool" where
  "calendar tm \<longleftrightarrow>
     0 \<le> tm_year tm + 1900 \<and> tm_year tm + 1900 \<le> 9999 \<and> 0 \<le> tm_mon tm \<and> tm_mon tm \<le> 11 \<and>
     1 \<le> tm_mday tm \<and> tm_mday tm \<le> 31 \<and> 0 \<le> tm_hour tm \<and> tm_hour tm \<le> 23 \<and>
     0 \<le> tm_min tm \<and> tm_min tm \<le> 59 \<and> 0 \<le> tm_sec tm \<and> tm_sec tm \<le> 60"

text \<open>A time as the list of its parts, the year first.\<close>

definition parts :: "tm \<Rightarrow> int \<Rightarrow> int list" where
  "parts tm ms = [tm_year tm, tm_mon tm, tm_mday tm, tm_hour tm, tm_min tm, tm_sec tm, ms]"

lemma padded_widths:
  "0 \<le> u \<Longrightarrow> u < 100 \<Longrightarrow> length (padded 2 u) = 2"
  "0 \<le> u \<Longrightarrow> u < 1000 \<Longrightarrow> length (padded 3 u) = 3"
  "0 \<le> u \<Longrightarrow> u < 10000 \<Longrightarrow> length (padded 4 u) = 4"
  using padded_order(1) [of u 1 u] padded_order(1) [of u 2 u] padded_order(1) [of u 3 u]
  by (simp_all add: eval_nat_numeral)

lemma padded_orders:
  "0 \<le> u \<Longrightarrow> u < 100 \<Longrightarrow> 0 \<le> v \<Longrightarrow> v < 100 \<Longrightarrow> padded 2 u @ x < padded 2 v @ y \<longleftrightarrow> u < v \<or> u = v \<and> x < y"
  "0 \<le> u \<Longrightarrow> u < 1000 \<Longrightarrow> 0 \<le> v \<Longrightarrow> v < 1000 \<Longrightarrow> padded 3 u < padded 3 v \<longleftrightarrow> u < v"
  "0 \<le> u \<Longrightarrow> u < 10000 \<Longrightarrow> 0 \<le> v \<Longrightarrow> v < 10000 \<Longrightarrow> padded 4 u @ x < padded 4 v @ y \<longleftrightarrow> u < v \<or> u = v \<and> x < y"
  using padded_less [of u 1 v] padded_order(2) [of u 2 v] padded_less [of u 3 v]
  by (simp_all add: eval_nat_numeral)

lemma stamp_length:
  assumes "calendar d" and "0 \<le> ms" and "ms < 1000"
  shows "length (stamp_text d ms) = 23"
  using assms by (simp add: stamp_text_def calendar_def padded_widths)

lemma stamp_order:
  assumes "calendar d" and "0 \<le> ms" and "ms < 1000" and "calendar d'" and "0 \<le> ms'" and "ms' < 1000"
  shows "stamp_text d ms < stamp_text d' ms' \<longleftrightarrow> parts d ms < parts d' ms'"
  using assms by (simp add: stamp_text_def calendar_def parts_def padded_orders
      add1_zle_eq)

lemma as_int_small: "0 \<le> x \<Longrightarrow> x < 1000 \<Longrightarrow> as_int x = x"
  by (simp add: as_int_def signed_of_int signed_take_bit_int_eq_self)

lemma now_text:
  assumes "os_gettimeofday K k = (Some t, k1)" and "localtime (tv_sec t) = Some d" and "calendar d"
    and "0 \<le> tv_usec t" and "tv_usec t < 1000000"
  shows "now K localtime t0 tm0 k = Inr (stamp_text d (tv_usec t div 1000), k1)"
proof -
  have ms: "tv_usec t sdiv 1000 = tv_usec t div 1000" "0 \<le> tv_usec t div 1000" "tv_usec t div 1000 < 1000"
    using assms(4,5) by (cases "tv_usec t = 0"; simp add: signed_divide_int_def sgn_if)+
  have "fits_int (tm_year d + 1900)" "fits_int (tm_mon d + 1)"
    using assms(3) by (simp_all add: calendar_def fits_int_def)
  moreover have "length (stamp_text d (tv_usec t div 1000)) = 23"
    using assms(3) ms by (simp add: stamp_length)
  ultimately show ?thesis
    using assms(1,2) ms by (simp add: now_def as_int_small)
qed

section \<open>Properties\<close>

text \<open>
  C40: For a calendar time with a year from 0 to 9999, now writes 23 characters, so that its
  buffer of 64 is large enough, and two time stamps compare as strings exactly as the times
  compare.
\<close>

theorem log_times_ordered:
  assumes "os_gettimeofday K k = (Some t, k1)" and "localtime (tv_sec t) = Some d" and "calendar d"
    and "0 \<le> tv_usec t" and "tv_usec t < 1000000"
    and "os_gettimeofday K k' = (Some t', k1')" and "localtime (tv_sec t') = Some d'" and "calendar d'"
    and "0 \<le> tv_usec t'" and "tv_usec t' < 1000000"
  shows "\<exists>a b. now K localtime t0 tm0 k = Inr (a, k1) \<and> now K localtime t0' tm0' k' = Inr (b, k1') \<and>
    length a = 23 \<and> length b = 23 \<and>
    (a < b \<longleftrightarrow> parts d (tv_usec t div 1000) < parts d' (tv_usec t' div 1000))"
proof -
  let ?m = "tv_usec t div 1000" and ?m' = "tv_usec t' div 1000"
  have m: "0 \<le> ?m" "?m < 1000" "0 \<le> ?m'" "?m' < 1000" using assms(4,5,9,10) by simp_all
  note c = assms(3) m(1,2) and c' = assms(8) m(3,4)
  show ?thesis
    using now_text [where localtime = localtime, OF assms(1-5)] now_text [where localtime = localtime, OF assms(6-10)] stamp_length [OF c] stamp_length [OF c']
      stamp_order [OF c c'] by simp
qed

text \<open>A clock that shows its state as seconds, and a calendar with days of 24 hours.\<close>

definition ex_clock :: "nat os" where
  "ex_clock = \<lparr>os_arch = X86_64,
     os_gettimeofday = (\<lambda>k. (Some \<lparr>tv_sec = int k, tv_usec = 7000\<rparr>, Suc k)),
     os_calloc = (\<lambda>k. (True, k)), os_epoll_create = (\<lambda>k. (3, k)),
     os_epoll_ctl = (\<lambda>_ _ _ _ k. (0, k)), os_epoll_wait = (\<lambda>_ k. (Some [], k)),
     os_accept = (\<lambda>_ k. (- 1, k)), os_read = (\<lambda>_ _ k. (- 1, k)), os_write = (\<lambda>_ _ k. (- 1, k))\<rparr>"

definition ex_localtime :: "int \<Rightarrow> tm option" where
  "ex_localtime n = Some \<lparr>tm_sec = n mod 60, tm_min = n div 60 mod 60, tm_hour = n div 3600 mod 24,
     tm_mday = 1 + n div 86400, tm_mon = 0, tm_year = 70\<rparr>"

definition ex_tm :: tm where
  "ex_tm = \<lparr>tm_sec = 59, tm_min = 0, tm_hour = 0, tm_mday = 1, tm_mon = 0, tm_year = 70\<rparr>"

definition ex_tv :: timeval where
  "ex_tv = \<lparr>tv_sec = 59, tv_usec = 7000\<rparr>"

theorem log_times_ordered_witness:
  "\<exists>a b. now ex_clock ex_localtime ex_tv ex_tm 59 = Inr (a, 60) \<and>
    now ex_clock ex_localtime ex_tv ex_tm 60 = Inr (b, 61) \<and> length a = 23 \<and> length b = 23 \<and> a < b"
proof -
  let ?tv = "ex_tv\<lparr>tv_sec := 60\<rparr>" and ?tm = "ex_tm\<lparr>tm_sec := 0, tm_min := 1\<rparr>"
  have g: "os_gettimeofday ex_clock 59 = (Some ex_tv, 60)" "os_gettimeofday ex_clock 60 = (Some ?tv, 61)"
    by (simp_all add: ex_clock_def ex_tv_def)
  have d: "ex_localtime (tv_sec ex_tv) = Some ex_tm" "calendar ex_tm"
    "ex_localtime (tv_sec ?tv) = Some ?tm" "calendar ?tm"
    by (simp_all add: ex_localtime_def calendar_def ex_tv_def ex_tm_def)
  have u: "0 \<le> tv_usec ex_tv" "tv_usec ex_tv < 1000000" "0 \<le> tv_usec ?tv" "tv_usec ?tv < 1000000"
    by (simp_all add: ex_tv_def)
  have "parts ex_tm (tv_usec ex_tv div 1000) < parts ?tm (tv_usec ?tv div 1000)"
    by (simp add: parts_def ex_tm_def)
  with log_times_ordered [where localtime = ex_localtime and ?t0.0 = ex_tv and ?tm0.0 = ex_tm and
      t0' = ex_tv and tm0' = ex_tm, OF g(1) d(1,2) u(1,2) g(2) d(3,4) u(3,4)]
  show ?thesis by blast
qed

end
