(* ===== verification/Listening.thy ===== *)
theory Listening
  imports Servers Logger "HOL-Library.Word"
begin

text \<open>
  How \<open>examples/demo03.c\<close> comes to its listening socket: the address from the command line, with
  \<open>atoi\<close> and \<open>htons\<close>, and the calls up to \<open>listen\<close>. \<open>inet_addr\<close>, \<open>setsockopt\<close> and \<open>bind\<close> are parameters.
\<close>

unbundle bit_operations_syntax

section \<open>Strings and words\<close>

definition is_space :: "char \<Rightarrow> bool" where
  "is_space c \<longleftrightarrow> (of_char c :: nat) = 32 \<or> 9 \<le> (of_char c :: nat) \<and> (of_char c :: nat) \<le> 13"

definition is_digit :: "char \<Rightarrow> bool" where
  "is_digit c \<longleftrightarrow> 48 \<le> (of_char c :: nat) \<and> (of_char c :: nat) \<le> 57"

definition digits_value :: "string \<Rightarrow> nat" where
  "digits_value cs = foldl (\<lambda>v c. 10 * v + (of_char c - 48)) 0 cs"

text \<open>White space, a sign and digits; what follows is ignored.\<close>

definition atoi :: "string \<Rightarrow> fault + int" where
  "atoi str =
     (let s = dropWhile is_space str;
          neg = (s \<noteq> [] \<and> hd s = CHR ''-'');
          s = (if s \<noteq> [] \<and> (hd s = CHR ''-'' \<or> hd s = CHR ''+'') then tl s else s);
          v = int (digits_value (takeWhile is_digit s));
          v = (if neg then - v else v) in
      if fits_int v then Inr v else Inl SignedOverflow)"

text \<open>The processors of the library are little-endian: \<open>htons\<close> swaps the bytes.\<close>

definition htons :: "16 word \<Rightarrow> 16 word" where
  "htons x = (push_bit 8 x OR drop_bit 8 x)"

definition stored :: "16 word \<Rightarrow> byte list" where
  "stored x = [ucast x, ucast (drop_bit 8 x)]"

section \<open>The start of demo03\<close>

record sockaddr_in =
  sin_family :: int
  sin_port :: "16 word"
  sin_addr :: "32 word"

definition AF_INET :: int where
  "AF_INET = 2"

definition SOL_SOCKET :: int where
  "SOL_SOCKET = 1"

definition SO_REUSEADDR :: int where
  "SO_REUSEADDR = 2"

text \<open>\<open>port\<close> is a \<open>short\<close>: it has the 16 lowest bits of what \<open>atoi\<close> returns.\<close>

definition demo03_address :: "(string \<Rightarrow> 32 word) \<Rightarrow> string list \<Rightarrow> fault + sockaddr_in" where
  "demo03_address inet_addr argv =
     (let ip = (if 1 < length argv then argv ! 1 else ''127.0.0.1'') in
      bnd (if 2 < length argv then bnd (atoi (argv ! 2)) (\<lambda>v. Inr (word_of_int v)) else Inr 8002) (\<lambda>port.
      Inr \<lparr>sin_family = AF_INET, sin_port = htons port, sin_addr = inet_addr ip\<rparr>))"

definition demo03_listen ::
  "'k net \<Rightarrow> (int \<Rightarrow> int \<Rightarrow> int \<Rightarrow> int \<Rightarrow> 'k \<Rightarrow> int \<times> 'k) \<Rightarrow> (int \<Rightarrow> sockaddr_in \<Rightarrow> 'k \<Rightarrow> int \<times> 'k) \<Rightarrow>
   sockaddr_in \<Rightarrow> 'k \<Rightarrow> fault + (int \<times> 'k)" where
  "demo03_listen N setsockopt bind_to serv_addr k =
     (case net_socket N k of (listenfd, k) \<Rightarrow>
      case setsockopt listenfd SOL_SOCKET SO_REUSEADDR 1 k of (_, k) \<Rightarrow>
      case bind_to listenfd serv_addr k of (ret, k) \<Rightarrow>
      if ret < 0 then Inl (Exit (-1))
      else (case net_listen N listenfd 5 k of (_, k) \<Rightarrow> Inr (listenfd, k)))"

definition demo03_setup ::
  "'k net \<Rightarrow> (int \<Rightarrow> int \<Rightarrow> int \<Rightarrow> int \<Rightarrow> 'k \<Rightarrow> int \<times> 'k) \<Rightarrow> (int \<Rightarrow> sockaddr_in \<Rightarrow> 'k \<Rightarrow> int \<times> 'k) \<Rightarrow>
   (string \<Rightarrow> 32 word) \<Rightarrow> string list \<Rightarrow> 'k \<Rightarrow> fault + (int \<times> 'k)" where
  "demo03_setup N setsockopt bind_to inet_addr argv k =
     bnd (demo03_address inet_addr argv) (\<lambda>serv_addr. demo03_listen N setsockopt bind_to serv_addr k)"

section \<open>The port that is bound\<close>

lemma digit_value: "n < 10 \<Longrightarrow> is_digit (digit n) \<and> of_char (digit n) - 48 = n \<and> \<not> is_space (digit n)"
  by (simp add: is_digit_def is_space_def digit_def)

lemma digits_value_snoc: "digits_value (cs @ [c]) = 10 * digits_value cs + (of_char c - 48)"
  by (simp add: digits_value_def)

lemma decimal_value: "digits_value (decimal n) = n \<and> decimal n \<noteq> [] \<and> (\<forall>c \<in> set (decimal n). is_digit c)"
proof (induction n rule: decimal.induct)
  case (1 n)
  show ?case
  proof (cases "n < 10")
    case True
    with digit_value [of n] show ?thesis by (simp add: decimal.simps digits_value_def)
  next
    case False
    have "decimal n = decimal (n div 10) @ [digit (n mod 10)]" using False by (subst decimal.simps) simp
    with 1 [OF False] digit_value [of "n mod 10"] show ?thesis by (simp add: digits_value_snoc)
  qed
qed

lemma is_digit_char: "is_digit c \<Longrightarrow> \<not> is_space c \<and> c \<noteq> CHR ''-'' \<and> c \<noteq> CHR ''+''"
  by (auto simp: is_digit_def is_space_def)

text \<open>\<open>atoi\<close> reads what \<open>%d\<close> prints.\<close>

lemma atoi_decimal:
  assumes "fits_int (int n)"
  shows "atoi (decimal n) = Inr (int n)"
proof -
  note v = decimal_value [of n]
  then have h: "is_digit (hd (decimal n))" by simp
  then have "dropWhile is_space (decimal n) = decimal n"
    using v is_digit_char by (cases "decimal n") auto
  moreover have t: "takeWhile is_digit (decimal n) = decimal n" unfolding takeWhile_eq_all_conv using v by blast
  ultimately show ?thesis using v is_digit_char [OF h] assms by (simp add: atoi_def Let_def del: takeWhile_eq_all_conv)
qed

lemma htons_stored: "stored (htons x) = [ucast (drop_bit 8 x), ucast x]"
  by (auto simp: stored_def htons_def bit_eq_iff bit_simps)

text \<open>The two bytes of \<open>sin_port\<close> are the port in network order.\<close>

lemma port_bytes:
  fixes x :: "16 word"
  shows "256 * unat (stored (htons x) ! 0) + unat (stored (htons x) ! 1) = unat x"
proof -
  have x: "unat x < 65536" using unsigned_less [of x] by simp
  have "unat (drop_bit 8 x) = drop_bit 8 (take_bit 16 (unat x))" by (simp add: unsigned_drop_bit_eq)
  then have "unat (drop_bit 8 x) = unat x div 256"
    using x unfolding drop_bit_eq_div [where 'a = nat] take_bit_eq_mod by simp
  with x show ?thesis unfolding htons_stored by (simp add: unsigned_ucast_eq take_bit_eq_mod)
qed

lemma demo03_port:
  assumes "p < 65536"
  shows "\<exists>a. demo03_address inet_addr [prog, ip, decimal p] = Inr a \<and> sin_addr a = inet_addr ip \<and>
    256 * unat (stored (sin_port a) ! 0) + unat (stored (sin_port a) ! 1) = p"
proof -
  have "fits_int (int p)" using assms by (simp add: fits_int_def)
  from atoi_decimal [OF this]
  have "demo03_address inet_addr [prog, ip, decimal p] =
      Inr \<lparr>sin_family = AF_INET, sin_port = htons (word_of_int (int p)), sin_addr = inet_addr ip\<rparr>"
    by (simp add: demo03_address_def)
  moreover have "unat (word_of_int (int p) :: 16 word) = p"
    using assms by (simp add: unat_of_nat take_bit_nat_eq_self)
  ultimately show ?thesis using port_bytes [of "word_of_int (int p)"] by simp
qed

text \<open>A socket that listens has been bound to the port of the command line.\<close>

lemma demo03_setup_binds:
  assumes p: "p < 65536" and r: "demo03_setup N setsockopt bind_to inet_addr [prog, ip, decimal p] k = Inr (l, k')"
  shows "\<exists>a k1 ret k2. bind_to l a k1 = (ret, k2) \<and> 0 \<le> ret \<and> sin_addr a = inet_addr ip \<and>
    256 * unat (stored (sin_port a) ! 0) + unat (stored (sin_port a) ! 1) = p"
proof -
  obtain a where a: "demo03_address inet_addr [prog, ip, decimal p] = Inr a" "sin_addr a = inet_addr ip"
    "256 * unat (stored (sin_port a) ! 0) + unat (stored (sin_port a) ! 1) = p"
    using demo03_port [OF p] by blast
  then have "demo03_listen N setsockopt bind_to a k = Inr (l, k')" using r by (simp add: demo03_setup_def)
  then have "\<exists>k1 ret k2. bind_to l a k1 = (ret, k2) \<and> 0 \<le> ret"
    by (auto simp: demo03_listen_def split: prod.splits if_splits) (metis not_less)+
  with a show ?thesis by blast
qed

text \<open>Without arguments the server listens on port 8002; an argument without digits means port 0.\<close>

lemma demo03_default_port:
  "demo03_address inet_addr [prog] =
     Inr \<lparr>sin_family = AF_INET, sin_port = htons 8002, sin_addr = inet_addr ''127.0.0.1''\<rparr>"
  "demo03_address inet_addr [prog, ip, ''http''] =
     Inr \<lparr>sin_family = AF_INET, sin_port = 0, sin_addr = inet_addr ip\<rparr>"
  by (simp_all add: demo03_address_def atoi_def digits_value_def is_space_def is_digit_def fits_int_def htons_def)

end
