(* ===== verification/Spec2Isabelle.thy ===== *)
theory Spec2Isabelle
  imports Switch SocketDemos EchoRuns Finishing Refinement Containers Listening
begin

text \<open>
  Verification of the coroutine library libco-lite (\<open>src/\<close>, \<open>include/\<close>), with its example
  programs (\<open>examples/\<close>) and test servers (\<open>tools/server/\<close>).

  The program. Every thread that calls the library gets a \<^emph>\<open>thread environment\<close>: a table of at
  most \<open>NR_TASKS\<close> coroutines, the current one, and an epoll descriptor with one wait queue per
  file descriptor. Coroutines are cooperative. \<open>schedule\<close> (\<open>sched.c\<close>) wakes the sleepers whose time
  is over, searches the table round robin for a runnable coroutine and switches to it
  (\<open>switch.S\<close>). A blocking call (\<open>cosyscall.c\<close>) registers the descriptor with epoll, enqueues the
  current coroutine and schedules until the event was delivered; \<open>co_eventloop\<close> (\<open>coeventloop.c\<close>),
  itself run by a coroutine, waits for events, dequeues one waiter per event and makes it runnable.
  \<open>coroutine.c\<close> creates, ends and joins coroutines.

  Theories, from the bottom up.

  \<^item> \<open>CoPrelude\<close>: faults of C programs, sequencing of fallible statements, counted loops.
  \<^item> \<open>Tailq\<close>: the \<open>TAILQ\<close> macros of \<open>include/queue.h\<close> over a memory of heads and links, where a
    pointer to a pointer is the address of a head or of a link field. The lemmas show that each
    macro implements its operation on lists (\<open>tq_rep\<close> for one queue, \<open>tq_family\<close> for all queues of
    a memory at once); the locale \<open>wait_queues\<close> is the interface the library relies on, with its
    interpretation \<open>tq\<close> on the macros.
  \<^item> \<open>SingleLists\<close>, \<open>DoubleLists\<close>, \<open>Containers\<close>: the other four containers of \<open>queue.h\<close> (\<open>SLIST\<close>,
    \<open>SIMPLEQ\<close>, \<open>LIST\<close>, \<open>CIRCLEQ\<close>), which the library does not use, in the same style. Two locales
    state what containers with a head and queues with a tail have in common; all five containers
    are interpretations.
  \<^item> \<open>CoTypes\<close>: \<open>include/coroutine.h\<close> (\<open>task_struct_t\<close>, \<open>thread_env_t\<close>, the constants), the memory of
    the process (record \<open>co_state\<close>: live control blocks and environments by address, the global
    table of environments, the queues, the kernel state) and the well-formedness invariant
    \<open>state_ok\<close>. The operating system is a record of functions over an abstract kernel state
    (\<open>os\<close>): \<open>gettimeofday\<close>, \<open>calloc\<close>, the epoll calls, \<open>accept\<close>, \<open>read\<close>, \<open>write\<close>.
  \<^item> \<open>ThreadEnv\<close>: \<open>co_get_thread_env\<close> and \<open>co_get_current\<close> of \<open>coroutine.c\<close> and \<open>sched.c\<close>.
  \<^item> \<open>Ring\<close> and \<open>Sched\<close>: round robin over a ring of indices (with an interface for any such
    policy), and \<open>sched.c\<close>: \<open>getmstime\<close>, \<open>pick\<close>, \<open>co_switch_to\<close>, \<open>schedule\<close>, \<open>co_sleep\<close>. The
    abstract account of a call is \<open>rescheduled\<close>: some sleepers woke (\<open>woken\<close>), and the current
    coroutine is the one \<open>choice\<close> names.
  \<^item> \<open>Coroutine\<close>: \<open>co_create\<close> with the initial stack frame, \<open>start\<close> after the coroutine function has
    returned, \<open>co_join\<close>.
  \<^item> \<open>Cosyscall\<close>: \<open>add_queue\<close>, \<open>co_accept\<close>, \<open>co_read\<close>, \<open>co_write\<close> of \<open>cosyscall.c\<close>.
  \<^item> \<open>Coeventloop\<close>: \<open>co_eventloop\<close>; its specification \<open>deliver\<close> works on lists of waiters.
  \<^item> \<open>Effects\<close>, \<open>Machine\<close>, \<open>Executions\<close>, \<open>Programs\<close>: whole executions. A user program is a
    possibly infinite tree of library calls (\<open>prog\<close>); a coroutine that has been switched out is a
    continuation (\<open>kont\<close>) that says where in which library function it goes on; \<open>turn\<close> lets one
    thread run its current coroutine to its next library call, \<open>step\<close> and \<open>reachable\<close> interleave
    the turns of any number of threads. \<open>Effects\<close> has one lemma per operation on what it does to
    live, exited and current coroutines; \<open>Executions\<close> proves the invariant \<open>config_ok\<close> of all
    reachable states; \<open>Programs\<close> derives consequences of calls that programs never make.
  \<^item> \<open>Switch\<close>: the instructions of \<open>switch.S\<close> for both processors over registers and stacks.
  \<^item> \<open>Servers\<close>, \<open>SocketDemos\<close>: \<open>tools/server/upper.c\<close>, \<open>reverse.c\<close>, \<open>cli.c\<close> and
    \<open>examples/demo02.c\<close>, which do not use the library, over a record \<open>net\<close> of socket calls.
  \<^item> \<open>Examples\<close>: \<open>examples/demo01.c\<close> and \<open>demo03.c\<close> as programs over the library.
  \<^item> \<open>Structured\<close>, \<open>Finishing\<close>: a typing judgement \<open>structured\<close> for programs that create, sleep and
    join, which tracks the ids a coroutine holds and the table slots it may fill; \<open>held\<close> is the
    invariant that gives it meaning (the ids make a tree of coroutines in which owners are older
    than what they own, the slots fit in the table). Well-typed programs never make the library
    fault, finite ones reach their end; \<open>demo01.c\<close> is well-typed and finite.
  \<^item> \<open>Refinement\<close>: an abstract specification of the library, in which a thread is a set of
    coroutines, each with the program it has still to run or finished, without control blocks,
    queues and stacks (\<open>spec_step\<close>); \<open>coroutines\<close> is the abstraction function. Every turn of \<open>Machine\<close>
    simulates at most one step of its current coroutine.
  \<^item> \<open>EchoServer\<close>, \<open>EchoTurns\<close>, \<open>EchoRuns\<close>: the echo server \<open>demo03.c\<close> as a whole. Each of its
    coroutines has a \<open>role\<close> that relates its continuation, its control block, its wait queue and what
    epoll watches (\<open>fits\<close>); \<open>serving\<close> is the invariant of the process between two turns. The
    hypotheses on the kernel are \<open>epoll_laws\<close>, which is what its manual pages say, and \<open>has_memory\<close>. A
    turn keeps the invariant or calls \<open>exit\<close>, unless it \<open>strays\<close>: the kernel reports an event without
    the bit that the waiter of the descriptor needs, or accepts a descriptor of \<open>MAX_FD\<close> or more.
    After turns that do not stray (\<open>orderly_step\<close>) the server does not crash, has lost no waiter, and
    delivers the events it is told of. The lemma \<open>hangup_crashes\<close> is a run in which it does crash: the
    kernel reports \<open>EPOLLHUP\<close> alone, twice.
  \<^item> \<open>Logger\<close>: \<open>now\<close> of \<open>src/util.c\<close> and the macros of \<open>include/logger.h\<close>, with the conversions of
    \<open>snprintf\<close> that they use; time stamps sort as times do.
  \<^item> \<open>Listening\<close>: \<open>main\<close> of \<open>examples/demo03.c\<close> up to \<open>listen\<close>, with \<open>atoi\<close> and \<open>htons\<close>: the socket is
    bound to the port of the command line.

  Conventions. A definition carries the name of the C function or macro it translates. A function
  that blocks is cut at its call of \<open>schedule\<close>: \<open>f_enter\<close> is its part before the loop, \<open>f_turn\<close> one
  turn of the loop, which either schedules or returns. The result type \<open>fault + 'a\<close> has every bad
  memory access, signed overflow, call of \<open>exit\<close> and endless loop as a value; the loops of \<open>pick\<close>,
  \<open>start\<close> and \<open>get_line\<close> are partial functions whose divergence is \<open>Hang\<close>. Unsigned clock values
  and event masks are 32-bit words. Fuel is used only where the source loops for ever: the main
  loops of the socket programs take the number of turns as an argument, and no theorem depends
  on its value.

  What the theorems show. The scheduler runs a runnable coroutine, the nearest one around the
  table, starves nobody, and returns whenever something is runnable or asleep; whichever coroutine calls
  \<open>schedule\<close>, sleeps are not cut short before the clock wraps. The queues implement lists, \<open>add_queue\<close> appends, the event loop
  delivers a batch of events as its list specification says, and blocking followed by the event
  restores the queues and wakes the waiter. Creation, exit and join fit together; a switch away
  and back restores a coroutine's registers. In every execution the states are well-formed, every
  suspended call fits its coroutine, and only finished coroutines are freed; the library refines
  a specification that only knows coroutines and the programs they have still to run. Programs that join
  what they create, once each, never make the library fault, and come to an end. The library, the
  scheduler, the event loop and a program compose to an echo server that is safe as long as every
  event carries the bit that was waited for. Other theorems state
  what goes wrong, among them the clean-up of a coroutine with two descriptors, an event without
  \<open>EPOLLIN\<close> at the first wait on a descriptor, a waiting writer that is dequeued by an input event, a
  wake-up time that wraps around or is the last value of the clock, and the 32-bit switch.

  Parameters and limits. \<open>gettid\<close> of \<open>cosyscall.c\<close> has no return statement, so the thread id is an
  argument. \<open>free\<close> gives no address back (\<open>calloc\<close> always returns fresh ones), so every use of a
  freed block is visible as \<open>Dangling\<close>. Threads are interleaved at library calls, and memory is
  sequentially consistent; data races inside a call are not modelled. The data that \<open>co_read\<close> and
  \<open>co_write\<close> move stays in the kernel: the model has their lengths and results. The product
  \<open>tv_sec*1000\<close> of \<open>getmstime\<close> is not bounded to 64 bits.

  Not modelled: the messages the programs and the library print (\<open>Logger\<close> has the macros, the
  functions that use them leave the calls out), \<open>CIRCLEQ_REPLACE\<close> of \<open>queue.h\<close>, which no program
  can use because it does not compile, and \<open>pthread_create\<close> and \<open>pthread_join\<close> in \<open>demo01.c\<close>.
\<close>

end
